(* ===== verification/Prelude.thy ===== *)
theory Prelude
  imports Main "HOL-Library.Word" "HOL-Library.Monad_Syntax" "HOL-Library.Sublist"
begin

text \<open>
  Shared vocabulary of the development: the byte and word types of the C++
  sources, the reading of \<^verbatim>\<open>ASSERT\<close> / \<^verbatim>\<open>HALT\<close> (common/debug.h) as the value
  \<open>None\<close>, the collections of rewrite rules the component theories extend, and
  the list and map lemmas that several of them use.
\<close>

section \<open>Types\<close>

type_synonym byte = "8 word"
type_synonym bytes = "byte list"
type_synonym u16 = "16 word"
type_synonym u32 = "32 word"
type_synonym u64 = "64 word"

section \<open>Collections of rewrite rules\<close>

text \<open>
  \<open>buf_simps\<close>: what an abstract Buffer operation returns when its assertions
  hold.  \<open>heap_simps\<close>: the effect of the segment operations on the store.
  \<open>wire_simps\<close>: the byte strings of the protocol messages.
\<close>

named_theorems buf_simps
named_theorems heap_simps
named_theorems wire_simps

section \<open>Assertions\<close>

text \<open>
  A failed \<^verbatim>\<open>ASSERT\<close> stops the process (common/debug.h).  An operation of the
  model that can reach one returns an option; \<open>None\<close> is the stop.
\<close>

definition assert_that :: "bool \<Rightarrow> unit option" where
  "assert_that p = (if p then Some () else None)"

lemma assert_that_True [simp]: "assert_that True = Some ()"
  by (simp add: assert_that_def)

lemma assert_that_False [simp]: "assert_that False = None"
  by (simp add: assert_that_def)

lemma assert_that_eq_Some [simp]: "assert_that p = Some u \<longleftrightarrow> p"
  by (simp add: assert_that_def)

lemma bind_assert_eq_Some [simp]:
  "(assert_that p \<bind> f = Some x) \<longleftrightarrow> p \<and> f () = Some x"
  by (simp add: assert_that_def)

lemma bind_assert_if: "assert_that p \<bind> f = (if p then f () else None)"
  by (simp add: assert_that_def)

section \<open>Lists\<close>

lemma take_append_drop_id: "take n xs @ drop n xs = xs"
  by simp

lemma drop_eq_Cons_conv_nth:
  "n < length xs \<Longrightarrow> drop n xs = xs ! n # drop (Suc n) xs"
  by (rule Cons_nth_drop_Suc [symmetric])

text \<open>The offset of the first byte that satisfies a test (\<^verbatim>\<open>memchr\<close> and its kin).\<close>

fun first_index :: "('a \<Rightarrow> bool) \<Rightarrow> 'a list \<Rightarrow> nat option" where
  "first_index P [] = None"
| "first_index P (x # xs) = (if P x then Some 0 else map_option Suc (first_index P xs))"

lemma first_index_None_iff: "first_index P xs = None \<longleftrightarrow> (\<forall>x \<in> set xs. \<not> P x)"
  by (induction xs) auto

lemma first_index_SomeD:
  "first_index P xs = Some i \<Longrightarrow>
     i < length xs \<and> P (xs ! i) \<and> (\<forall>x \<in> set (take i xs). \<not> P x)"
  by (induction xs arbitrary: i) (auto split: if_splits)

lemma first_index_append:
  "first_index P (xs @ ys) =
     (case first_index P xs of Some i \<Rightarrow> Some i
      | None \<Rightarrow> map_option ((+) (length xs)) (first_index P ys))"
proof (induction xs)
  case Nil
  show ?case by (cases "first_index P ys") simp_all
next
  case (Cons x xs)
  then show ?case
    by (cases "first_index P ys") (auto split: option.splits)
qed

lemma first_index_append_hit:
  "\<forall>x \<in> set xs. \<not> P x \<Longrightarrow> P y \<Longrightarrow> first_index P (xs @ y # ys) = Some (length xs)"
  by (induction xs) auto

section \<open>Maps\<close>

lemma map_le_upd_fresh: "m \<subseteq>\<^sub>m m' \<Longrightarrow> m k = None \<Longrightarrow> m' k = Some v \<Longrightarrow> m(k \<mapsto> v) \<subseteq>\<^sub>m m'"
  by (auto simp: map_le_def)

lemma map_leD: "m \<subseteq>\<^sub>m m' \<Longrightarrow> m k = Some v \<Longrightarrow> m' k = Some v"
  by (metis domI map_le_def)

lemma map_leI: "(\<And>k v. m k = Some v \<Longrightarrow> m' k = Some v) \<Longrightarrow> m \<subseteq>\<^sub>m m'"
  by (fastforce simp: map_le_def)

lemma map_le_upd_None: "m k = None \<Longrightarrow> m \<subseteq>\<^sub>m m(k \<mapsto> v)"
  by (auto simp: map_le_def)

end
