(* ===== verification/Buffer_Spec.thy ===== *)
theory Buffer_Spec
  imports Prelude
begin

text \<open>
  What the operations of class Buffer (common/buffer.h) do to the \<^emph>\<open>contents\<close> of a
  buffer, a list of bytes.  Each operation keeps the assertions of the code: where an
  \<^verbatim>\<open>ASSERT\<close> would stop the program the result is \<open>None\<close>.  The clients of Buffer
  (the XCodec, the pipes) are modelled over these operations; that the reference
  counted, copy-on-write segment lists implement them is the subject of the
  theories Buffer_Heap, Buffer and Buffer_Refine.
\<close>

definition BUFFER_SEGMENT_SIZE :: nat where
  "BUFFER_SEGMENT_SIZE = 2048"

lemma BUFFER_SEGMENT_SIZE_pos [simp]: "0 < BUFFER_SEGMENT_SIZE"
  by (simp add: BUFFER_SEGMENT_SIZE_def)

section \<open>Adding data\<close>

definition buf_append_bytes :: "bytes \<Rightarrow> bytes \<Rightarrow> bytes option" where
  "buf_append_bytes b xs = do { assert_that (xs \<noteq> []); Some (b @ xs) }"

definition buf_append_segment :: "bytes \<Rightarrow> bytes \<Rightarrow> bytes option" where
  "buf_append_segment b seg = do { assert_that (seg \<noteq> []); Some (b @ seg) }"

definition buf_append_buffer :: "bytes \<Rightarrow> bytes \<Rightarrow> bytes" where
  "buf_append_buffer b src = b @ src"

definition buf_append_len :: "bytes \<Rightarrow> bytes \<Rightarrow> nat \<Rightarrow> bytes option" where
  "buf_append_len b src len =
     do { assert_that (len \<noteq> 0); assert_that (len \<le> length src); Some (b @ take len src) }"

section \<open>Looking at data\<close>

definition buf_copyout :: "bytes \<Rightarrow> nat \<Rightarrow> nat \<Rightarrow> bytes option" where
  "buf_copyout b offset dstsize =
     do { assert_that (dstsize \<noteq> 0); assert_that (offset + dstsize \<le> length b);
          Some (take dstsize (drop offset b)) }"

definition buf_copyout_segment :: "bytes \<Rightarrow> nat \<Rightarrow> bytes option" where
  "buf_copyout_segment b len =
     do { assert_that (len \<noteq> 0); assert_that (len \<le> BUFFER_SEGMENT_SIZE);
          assert_that (len \<le> length b); Some (take len b) }"

definition buf_peek :: "bytes \<Rightarrow> byte option" where
  "buf_peek b = do { assert_that (b \<noteq> []); Some (hd b) }"

definition buf_find :: "byte \<Rightarrow> nat \<Rightarrow> bytes \<Rightarrow> nat option" where
  "buf_find ch limit b =
     first_index ((=) ch) (take (if limit = 0 then length b else limit) b)"

definition buf_find_any :: "bytes \<Rightarrow> bytes \<Rightarrow> (nat \<times> byte) option" where
  "buf_find_any s b = map_option (\<lambda>i. (i, b ! i)) (first_index (\<lambda>x. x \<in> set s) b)"

definition buf_prefix :: "bytes \<Rightarrow> bytes \<Rightarrow> bool option" where
  "buf_prefix p b = do { assert_that (p \<noteq> []); Some (take (length p) b = p) }"

section \<open>Removing data\<close>

definition buf_skip :: "nat \<Rightarrow> bytes \<Rightarrow> bytes option" where
  "buf_skip n b = do { assert_that (n \<noteq> 0); assert_that (b \<noteq> []); Some (drop n b) }"

definition buf_trim :: "nat \<Rightarrow> bytes \<Rightarrow> bytes option" where
  "buf_trim n b =
     do { assert_that (n \<noteq> 0); assert_that (b \<noteq> []); assert_that (n \<le> length b);
          Some (take (length b - n) b) }"

definition buf_cut :: "nat \<Rightarrow> nat \<Rightarrow> bytes \<Rightarrow> bytes option" where
  "buf_cut offset n b =
     do { assert_that (n \<noteq> 0); assert_that (offset + n \<le> length b);
          Some (take offset b @ drop (offset + n) b) }"

definition buf_truncate :: "nat \<Rightarrow> bytes \<Rightarrow> bytes option" where
  "buf_truncate n b = (if length b = n then Some b else
     do { assert_that (n < length b); Some (take n b) })"

definition buf_moveout_bytes :: "bytes \<Rightarrow> nat \<Rightarrow> nat \<Rightarrow> (bytes \<times> bytes) option" where
  "buf_moveout_bytes b offset dstsize =
     do { assert_that (dstsize \<noteq> 0); assert_that (offset + dstsize \<le> length b);
          Some (take dstsize (drop offset b), drop (offset + dstsize) b) }"

definition buf_moveout_buffer :: "bytes \<Rightarrow> bytes \<Rightarrow> nat \<Rightarrow> nat \<Rightarrow> (bytes \<times> bytes) option" where
  "buf_moveout_buffer dst b offset dstsize =
     do { assert_that (dstsize \<noteq> 0); assert_that (offset + dstsize \<le> length b);
          Some (dst @ take dstsize (drop offset b), drop (offset + dstsize) b) }"

definition buf_moveout_all :: "bytes \<Rightarrow> bytes \<Rightarrow> bytes \<times> bytes" where
  "buf_moveout_all dst b = (dst @ b, [])"

definition buf_pop :: "bytes \<Rightarrow> (byte \<times> bytes) option" where
  "buf_pop b = do { assert_that (b \<noteq> []); Some (hd b, tl b) }"

section \<open>Splitting and joining\<close>

text \<open>Buffer::split calls \<^verbatim>\<open>find\<close>, \<^verbatim>\<open>skip(off, &buf)\<close> and \<^verbatim>\<open>skip(1)\<close> until no
  separator is left.\<close>

function buf_split_loop :: "byte \<Rightarrow> bool \<Rightarrow> bytes \<Rightarrow> bytes list" where
  "buf_split_loop ch include_empty b =
     (case buf_find ch 0 b of
        None \<Rightarrow> (if b \<noteq> [] then [b] else if include_empty then [[]] else [])
      | Some off \<Rightarrow>
          (if off \<noteq> 0 then [take off b] else if include_empty then [[]] else [])
          @ buf_split_loop ch include_empty (drop (Suc off) b))"
  by pat_completeness auto
termination
  by (relation "measure (\<lambda>(ch, ie, b). length b)")
    (auto simp: buf_find_def dest: first_index_SomeD)

declare buf_split_loop.simps [simp del]

definition buf_split :: "byte \<Rightarrow> bool \<Rightarrow> bytes \<Rightarrow> bytes list" where
  "buf_split ch include_empty b =
     (if b = [] then (if include_empty then [[]] else [])
      else buf_split_loop ch include_empty b)"

fun buf_join_loop :: "bytes \<Rightarrow> bytes list \<Rightarrow> bytes" where
  "buf_join_loop sep [] = []"
| "buf_join_loop sep [b] = b"
| "buf_join_loop sep (b # c # bs) = b @ sep @ buf_join_loop sep (c # bs)"

definition buf_join :: "bytes list \<Rightarrow> bytes \<Rightarrow> bytes" where
  "buf_join vec sep =
     (case vec of [] \<Rightarrow> [] | [b] \<Rightarrow> b
      | _ \<Rightarrow> if sep = [] then concat vec else buf_join_loop sep vec)"

section \<open>The operations when their assertions hold\<close>

lemma buf_append_bytes_Some [buf_simps]: "xs \<noteq> [] \<Longrightarrow> buf_append_bytes b xs = Some (b @ xs)"
  by (simp add: buf_append_bytes_def)

lemma buf_append_segment_Some [buf_simps]: "s \<noteq> [] \<Longrightarrow> buf_append_segment b s = Some (b @ s)"
  by (simp add: buf_append_segment_def)

lemma buf_append_len_Some [buf_simps]:
  "0 < n \<Longrightarrow> n \<le> length c \<Longrightarrow> buf_append_len b c n = Some (b @ take n c)"
  by (simp add: buf_append_len_def)

lemma buf_copyout_Some [buf_simps]:
  "0 < n \<Longrightarrow> k + n \<le> length b \<Longrightarrow> buf_copyout b k n = Some (take n (drop k b))"
  by (simp add: buf_copyout_def)

lemma buf_copyout_segment_Some [buf_simps]:
  "0 < n \<Longrightarrow> n \<le> BUFFER_SEGMENT_SIZE \<Longrightarrow> n \<le> length b \<Longrightarrow>
     buf_copyout_segment b n = Some (take n b)"
  by (simp add: buf_copyout_segment_def)

lemma buf_peek_Some [buf_simps]: "b \<noteq> [] \<Longrightarrow> buf_peek b = Some (hd b)"
  by (simp add: buf_peek_def)

lemma buf_skip_Some [buf_simps]: "0 < n \<Longrightarrow> b \<noteq> [] \<Longrightarrow> buf_skip n b = Some (drop n b)"
  by (simp add: buf_skip_def)

lemma buf_moveout_bytes_Some [buf_simps]:
  "0 < n \<Longrightarrow> k + n \<le> length b \<Longrightarrow>
     buf_moveout_bytes b k n = Some (take n (drop k b), drop (k + n) b)"
  by (simp add: buf_moveout_bytes_def)

lemma buf_moveout_buffer_Some [buf_simps]:
  "0 < n \<Longrightarrow> k + n \<le> length b \<Longrightarrow>
     buf_moveout_buffer d b k n = Some (d @ take n (drop k b), drop (k + n) b)"
  by (simp add: buf_moveout_buffer_def)

section \<open>Searching\<close>

lemma buf_find_None_iff: "buf_find ch 0 b = None \<longleftrightarrow> ch \<notin> set b"
  by (auto simp: buf_find_def first_index_None_iff)

lemma buf_find_limit_None_iff:
  "0 < n \<Longrightarrow> buf_find ch n b = None \<longleftrightarrow> ch \<notin> set (take n b)"
  by (auto simp: buf_find_def first_index_None_iff)

lemma buf_find_SomeD:
  assumes "buf_find ch limit b = Some i"
  shows "i < length b" "b ! i = ch" "ch \<notin> set (take i b)" "0 < limit \<Longrightarrow> i < limit"
  using first_index_SomeD [OF assms [unfolded buf_find_def]]
  by (auto simp: min_def split: if_splits)

lemma buf_find_split:
  assumes "buf_find ch limit b = Some i"
  shows "b = take i b @ ch # drop (Suc i) b"
  using buf_find_SomeD [OF assms] by (metis id_take_nth_drop)

lemma buf_find_append_hit: "ch \<notin> set xs \<Longrightarrow> buf_find ch 0 (xs @ ch # ys) = Some (length xs)"
  by (subst buf_find_def, simp, subst first_index_append_hit) auto

section \<open>Splitting inverts joining\<close>

lemma buf_split_loop_join:
  "buf_join_loop [ch] (buf_split_loop ch True b) = b \<and> buf_split_loop ch True b \<noteq> []"
proof (induction ch True b rule: buf_split_loop.induct)
  case (1 ch b)
  show ?case
  proof (cases "buf_find ch 0 b")
    case None
    then show ?thesis by (simp add: buf_split_loop.simps [of ch True b])
  next
    case (Some off)
    obtain c cs where tl: "buf_split_loop ch True (drop (Suc off) b) = c # cs"
      using 1 [OF Some] by (cases "buf_split_loop ch True (drop (Suc off) b)") auto
    have "take off b @ ch # drop (Suc off) b = b"
      using buf_find_split [OF Some] by simp
    with 1 [OF Some] tl Some show ?thesis
      by (cases "off = 0") (simp_all add: buf_split_loop.simps [of ch True b])
  qed
qed

lemma buf_split_loop_no_sep: "x \<in> set (buf_split_loop ch ie b) \<Longrightarrow> ch \<notin> set x"
proof (induction ch ie b rule: buf_split_loop.induct)
  case (1 ch ie b)
  show ?case
  proof (cases "buf_find ch 0 b")
    case None
    with 1 show ?thesis
      by (auto simp: buf_split_loop.simps [of ch ie b] buf_find_None_iff split: if_splits)
  next
    case (Some off)
    with 1 buf_find_SomeD(3) [OF Some] show ?thesis
      by (auto simp: buf_split_loop.simps [of ch ie b] split: if_splits)
  qed
qed

text \<open>Without the empty pieces it returns the others.\<close>

lemma buf_split_loop_filter: "buf_split_loop ch False b = filter (\<lambda>x. x \<noteq> []) (buf_split_loop ch True b)"
proof (induction ch True b rule: buf_split_loop.induct)
  case (1 ch b)
  show ?case
  proof (cases "buf_find ch 0 b")
    case None
    then show ?thesis by (simp add: buf_split_loop.simps [of ch _ b])
  next
    case (Some off)
    then have "off \<noteq> 0 \<Longrightarrow> take off b \<noteq> []" using buf_find_split [OF Some] by auto
    with 1 [OF Some] Some show ?thesis by (simp add: buf_split_loop.simps [of ch _ b])
  qed
qed

lemma buf_split_pieces:
  obtains pieces where "buf_split ch ie b = (if ie then pieces else filter (\<lambda>x. x \<noteq> []) pieces)"
    "buf_join_loop [ch] pieces = b" "\<forall>x\<in>set pieces. ch \<notin> set x"
proof (cases "b = []")
  case True
  then show ?thesis by (intro that [of "[[]]"]) (simp_all add: buf_split_def)
next
  case False
  then show ?thesis using buf_split_loop_join [of ch b] buf_split_loop_no_sep [of _ ch True b] buf_split_loop_filter [of ch b]
    by (intro that [of "buf_split_loop ch True b"]) (auto simp: buf_split_def)
qed

end
