(* ===== verification/Buffer_Heap.thy ===== *)
theory Buffer_Heap
  imports Buffer_Spec "HOL-Library.Multiset"
begin

text \<open>
  Class BufferSegment (common/buffer.h) and its reference count (common/refcount.h) on an
  explicit store.  A segment is a record at an address; \<^verbatim>\<open>create\<close> allocates, \<^verbatim>\<open>unref\<close>
  frees with the last reference, and a use of a freed segment is \<open>None\<close>, as is a failed
  assertion.  Operations that change a segment copy it first when it is shared.  The
  invariant \<open>heap_ok h R\<close> says that the reference counts are the multiplicities in the
  multiset \<open>R\<close> of all references held; every operation is specified by what it does to
  the segment owned by the caller, with the references of others (the frame) untouched.
\<close>

section \<open>The store\<close>

record segment =
  sg_data :: bytes
  sg_offset :: nat
  sg_length :: nat
  sg_ref :: nat

text \<open>\<open>hp_malloc\<close> gives the unspecified contents of the memory of each allocation.\<close>

record heap =
  hp_segs :: "nat \<rightharpoonup> segment"
  hp_next :: nat
  hp_malloc :: "nat \<Rightarrow> bytes"

definition heap_put :: "nat \<Rightarrow> segment \<Rightarrow> heap \<Rightarrow> heap" where
  "heap_put a s h = h\<lparr>hp_segs := (hp_segs h)(a \<mapsto> s)\<rparr>"

definition heap_del :: "nat \<Rightarrow> heap \<Rightarrow> heap" where
  "heap_del a h = h\<lparr>hp_segs := (hp_segs h)(a := None)\<rparr>"

text \<open>\<^verbatim>\<open>memcpy\<close> into an array; writing outside of it is \<open>None\<close>.\<close>

definition mem_write :: "nat \<Rightarrow> bytes \<Rightarrow> bytes \<Rightarrow> bytes option" where
  "mem_write off buf data = do {
     assert_that (off + length buf \<le> length data);
     Some (take off data @ buf @ drop (off + length buf) data) }"

section \<open>class RefCount\<close>

definition refcount_new :: nat where "refcount_new = 1"

definition refcount_exclusive :: "nat \<Rightarrow> bool" where "refcount_exclusive r \<longleftrightarrow> r = 1"

definition refcount_hold :: "nat \<Rightarrow> nat" where "refcount_hold r = r + 1"

text \<open>Returns the new count and whether the reference was the last one.\<close>

definition refcount_drop :: "nat \<Rightarrow> nat \<times> bool" where "refcount_drop r = (r - 1, r = 1)"

section \<open>class BufferSegment\<close>

text \<open>The bytes from \<^verbatim>\<open>data()\<close> to \<^verbatim>\<open>end()\<close>.\<close>

definition seg_data :: "segment \<Rightarrow> bytes" where
  "seg_data s = take (sg_length s) (drop (sg_offset s) (sg_data s))"

definition seg_avail :: "segment \<Rightarrow> nat" where
  "seg_avail s = BUFFER_SEGMENT_SIZE - sg_length s"

definition seg_create_empty :: "heap \<Rightarrow> nat \<times> heap" where
  "seg_create_empty h =
     (let a = hp_next h in
      (a, (heap_put a \<lparr>sg_data = hp_malloc h a, sg_offset = 0, sg_length = 0, sg_ref = refcount_new\<rparr> h)
            \<lparr>hp_next := a + 1\<rparr>))"

definition seg_create :: "bytes \<Rightarrow> heap \<Rightarrow> (nat \<times> heap) option" where
  "seg_create buf h = do {
     assert_that (buf \<noteq> []);
     assert_that (length buf \<le> BUFFER_SEGMENT_SIZE);
     let (a, h) = seg_create_empty h;
     s \<leftarrow> hp_segs h a;
     data \<leftarrow> mem_write 0 buf (sg_data s);
     Some (a, heap_put a (s\<lparr>sg_data := data, sg_length := length buf\<rparr>) h) }"

definition seg_ref :: "nat \<Rightarrow> heap \<Rightarrow> heap option" where
  "seg_ref a h = do { s \<leftarrow> hp_segs h a; Some (heap_put a (s\<lparr>sg_ref := refcount_hold (sg_ref s)\<rparr>) h) }"

definition seg_unref :: "nat \<Rightarrow> heap \<Rightarrow> heap option" where
  "seg_unref a h = do {
     s \<leftarrow> hp_segs h a;
     let (r, last) = refcount_drop (sg_ref s);
     Some (if last then heap_del a h else heap_put a (s\<lparr>sg_ref := r\<rparr>) h) }"

definition seg_exclusive :: "nat \<Rightarrow> heap \<Rightarrow> bool option" where
  "seg_exclusive a h = do { s \<leftarrow> hp_segs h a; Some (refcount_exclusive (sg_ref s)) }"

definition seg_copy :: "nat \<Rightarrow> heap \<Rightarrow> (nat \<times> heap) option" where
  "seg_copy a h = do {
     s \<leftarrow> hp_segs h a;
     assert_that (sg_length s \<noteq> 0);
     seg_create (seg_data s) h }"

definition seg_pullup :: "nat \<Rightarrow> heap \<Rightarrow> heap option" where
  "seg_pullup a h = do {
     s \<leftarrow> hp_segs h a;
     assert_that (sg_length s \<noteq> 0);
     assert_that (refcount_exclusive (sg_ref s));
     (if sg_offset s = 0 then Some h
      else do {
        data \<leftarrow> mem_write 0 (seg_data s) (sg_data s);
        Some (heap_put a (s\<lparr>sg_data := data, sg_offset := 0\<rparr>) h) }) }"

definition seg_set_length :: "nat \<Rightarrow> nat \<Rightarrow> heap \<Rightarrow> heap option" where
  "seg_set_length a len h = do {
     s \<leftarrow> hp_segs h a;
     assert_that (refcount_exclusive (sg_ref s));
     assert_that (sg_offset s = 0);
     assert_that (len \<le> BUFFER_SEGMENT_SIZE);
     Some (heap_put a (s\<lparr>sg_length := len\<rparr>) h) }"

text \<open>The part of \<^verbatim>\<open>append\<close> for a segment that is held exclusively.  Otherwise \<^verbatim>\<open>append\<close> calls
  itself on a copy, which is.\<close>

definition seg_write_tail :: "nat \<Rightarrow> bytes \<Rightarrow> heap \<Rightarrow> heap option" where
  "seg_write_tail a buf h = do {
     s \<leftarrow> hp_segs h a;
     assert_that (refcount_exclusive (sg_ref s));
     data \<leftarrow> mem_write (sg_offset s + sg_length s) buf (sg_data s);
     Some (heap_put a (s\<lparr>sg_data := data, sg_length := sg_length s + length buf\<rparr>) h) }"

definition seg_append_in_place :: "nat \<Rightarrow> bytes \<Rightarrow> heap \<Rightarrow> heap option" where
  "seg_append_in_place a buf h = do {
     s \<leftarrow> hp_segs h a;
     h \<leftarrow> (if seg_avail s - sg_offset s < length buf then seg_pullup a h else Some h);
     seg_write_tail a buf h }"

definition seg_append :: "nat \<Rightarrow> bytes \<Rightarrow> heap \<Rightarrow> (nat \<times> heap) option" where
  "seg_append a buf h = do {
     assert_that (buf \<noteq> []);
     s \<leftarrow> hp_segs h a;
     assert_that (length buf \<le> seg_avail s);
     (if \<not> refcount_exclusive (sg_ref s) then do {
        (a', h) \<leftarrow> seg_copy a h;
        h \<leftarrow> seg_unref a h;
        s \<leftarrow> hp_segs h a';
        assert_that (length buf \<le> seg_avail s);
        h \<leftarrow> seg_append_in_place a' buf h;
        Some (a', h) }
      else do {
        h \<leftarrow> seg_append_in_place a buf h;
        Some (a, h) }) }"

definition seg_copyout :: "nat \<Rightarrow> nat \<Rightarrow> nat \<Rightarrow> heap \<Rightarrow> bytes option" where
  "seg_copyout a offset dstsize h = do {
     s \<leftarrow> hp_segs h a;
     assert_that (dstsize \<noteq> 0);
     assert_that (offset + dstsize \<le> sg_length s);
     Some (take dstsize (drop offset (seg_data s))) }"

definition seg_skip :: "nat \<Rightarrow> nat \<Rightarrow> heap \<Rightarrow> (nat \<times> heap) option" where
  "seg_skip a bytes h = do {
     s \<leftarrow> hp_segs h a;
     assert_that (bytes \<noteq> 0);
     assert_that (bytes < sg_length s);
     (if \<not> refcount_exclusive (sg_ref s) then do {
        (a', h) \<leftarrow> seg_create (drop bytes (seg_data s)) h;
        h \<leftarrow> seg_unref a h;
        Some (a', h) }
      else Some (a, heap_put a (s\<lparr>sg_offset := sg_offset s + bytes, sg_length := sg_length s - bytes\<rparr>) h)) }"

definition seg_trim :: "nat \<Rightarrow> nat \<Rightarrow> heap \<Rightarrow> (nat \<times> heap) option" where
  "seg_trim a bytes h = do {
     s \<leftarrow> hp_segs h a;
     assert_that (bytes \<noteq> 0);
     assert_that (bytes < sg_length s);
     (if \<not> refcount_exclusive (sg_ref s) then do {
        (a', h) \<leftarrow> seg_create (take (sg_length s - bytes) (seg_data s)) h;
        h \<leftarrow> seg_unref a h;
        Some (a', h) }
      else Some (a, heap_put a (s\<lparr>sg_length := sg_length s - bytes\<rparr>) h)) }"

definition seg_truncate :: "nat \<Rightarrow> nat \<Rightarrow> heap \<Rightarrow> (nat \<times> heap) option" where
  "seg_truncate a len h = do { s \<leftarrow> hp_segs h a; seg_trim a (sg_length s - len) h }"

text \<open>\<^verbatim>\<open>memmove\<close> within the array, for a segment held exclusively.\<close>

definition seg_cut_in_place :: "nat \<Rightarrow> nat \<Rightarrow> nat \<Rightarrow> heap \<Rightarrow> heap option" where
  "seg_cut_in_place a offset bytes h = do {
     s \<leftarrow> hp_segs h a;
     data \<leftarrow> mem_write (sg_offset s + offset) (drop (offset + bytes) (seg_data s)) (sg_data s);
     Some (heap_put a (s\<lparr>sg_data := data, sg_length := sg_length s - bytes\<rparr>) h) }"

definition seg_cut :: "nat \<Rightarrow> nat \<Rightarrow> nat \<Rightarrow> heap \<Rightarrow> (nat \<times> heap) option" where
  "seg_cut a offset bytes h = do {
     s \<leftarrow> hp_segs h a;
     assert_that (bytes \<noteq> 0);
     assert_that (offset + bytes < sg_length s);
     (if offset = 0 then seg_skip a bytes h
      else if offset + bytes = sg_length s then seg_trim a bytes h
      else if \<not> refcount_exclusive (sg_ref s) then do {
        (a', h) \<leftarrow> seg_create (take offset (seg_data s)) h;
        (a', h) \<leftarrow> seg_append a' (drop (offset + bytes) (seg_data s)) h;
        h \<leftarrow> seg_unref a h;
        Some (a', h) }
      else do {
        h \<leftarrow> seg_cut_in_place a offset bytes h;
        Some (a, h) }) }"

definition seg_equal_bytes :: "nat \<Rightarrow> bytes \<Rightarrow> heap \<Rightarrow> bool option" where
  "seg_equal_bytes a buf h = do {
     s \<leftarrow> hp_segs h a;
     assert_that (buf \<noteq> []);
     (if length buf \<noteq> sg_length s then Some False else Some (seg_data s = buf)) }"

definition seg_equal :: "nat \<Rightarrow> nat \<Rightarrow> heap \<Rightarrow> bool option" where
  "seg_equal a b h = do {
     t \<leftarrow> hp_segs h b;
     assert_that (sg_length t \<noteq> 0);
     seg_equal_bytes a (seg_data t) h }"

section \<open>The invariant\<close>

definition seg_ok :: "segment \<Rightarrow> bool" where
  "seg_ok s \<longleftrightarrow> length (sg_data s) = BUFFER_SEGMENT_SIZE \<and> sg_offset s + sg_length s \<le> BUFFER_SEGMENT_SIZE"

definition heap_ok :: "heap \<Rightarrow> nat multiset \<Rightarrow> bool" where
  "heap_ok h R \<longleftrightarrow>
     (\<forall>a. case hp_segs h a of
            None \<Rightarrow> a \<notin># R
          | Some s \<Rightarrow> seg_ok s \<and> a \<in># R \<and> sg_ref s = count R a) \<and>
     (\<forall>a. hp_next h \<le> a \<longrightarrow> hp_segs h a = None) \<and>
     (\<forall>a. length (hp_malloc h a) = BUFFER_SEGMENT_SIZE)"

definition seg_bytes :: "heap \<Rightarrow> nat \<Rightarrow> bytes" where
  "seg_bytes h a = (case hp_segs h a of None \<Rightarrow> [] | Some s \<Rightarrow> seg_data s)"

text \<open>What holders of other references see does not change.\<close>

definition keeps :: "nat multiset \<Rightarrow> heap \<Rightarrow> heap \<Rightarrow> bool" where
  "keeps F h h' \<longleftrightarrow> (\<forall>a\<in>#F. seg_bytes h' a = seg_bytes h a)"

lemma keeps_refl [simp]: "keeps F h h"
  by (simp add: keeps_def)

lemma keeps_trans: "keeps F h h1 \<Longrightarrow> keeps F h1 h2 \<Longrightarrow> keeps F h h2"
  by (simp add: keeps_def)

lemma keeps_subset: "keeps G h h' \<Longrightarrow> set_mset F \<subseteq> set_mset G \<Longrightarrow> keeps F h h'"
  by (auto simp: keeps_def)

lemma keepsD: "keeps F h h' \<Longrightarrow> a \<in># F \<Longrightarrow> seg_bytes h' a = seg_bytes h a"
  by (simp add: keeps_def)

lemma seg_bytes_Some [heap_simps]: "hp_segs h a = Some s \<Longrightarrow> seg_bytes h a = seg_data s"
  by (simp add: seg_bytes_def)

lemma length_seg_data: "seg_ok s \<Longrightarrow> length (seg_data s) = sg_length s"
  by (auto simp: seg_data_def seg_ok_def)

lemma heap_put_segs [simp]: "hp_segs (heap_put a s h) = (hp_segs h)(a \<mapsto> s)"
    "hp_next (heap_put a s h) = hp_next h" "hp_malloc (heap_put a s h) = hp_malloc h"
  by (simp_all add: heap_put_def)

lemma heap_del_segs [simp]: "hp_segs (heap_del a h) = (hp_segs h)(a := None)"
    "hp_next (heap_del a h) = hp_next h" "hp_malloc (heap_del a h) = hp_malloc h"
  by (simp_all add: heap_del_def)

text \<open>Changing one segment and the references to it.\<close>

lemma heap_ok_cell:
  "heap_ok h R \<Longrightarrow> case hp_segs h a of None \<Rightarrow> a \<notin># R | Some s \<Rightarrow> seg_ok s \<and> a \<in># R \<and> sg_ref s = count R a"
  unfolding heap_ok_def by blast

lemma heap_ok_bounds:
  "heap_ok h R \<Longrightarrow> hp_next h \<le> a \<Longrightarrow> hp_segs h a = None"
  "heap_ok h R \<Longrightarrow> length (hp_malloc h a) = BUFFER_SEGMENT_SIZE"
  unfolding heap_ok_def by blast+

lemma heap_okI:
  assumes "\<And>a. case hp_segs h a of None \<Rightarrow> a \<notin># R | Some s \<Rightarrow> seg_ok s \<and> a \<in># R \<and> sg_ref s = count R a"
    and "\<And>a. hp_next h \<le> a \<Longrightarrow> hp_segs h a = None"
    and "\<And>a. length (hp_malloc h a) = BUFFER_SEGMENT_SIZE"
  shows "heap_ok h R"
  unfolding heap_ok_def using assms by blast

lemma heap_ok_get:
  assumes "heap_ok h R" and "a \<in># R"
  obtains s where "hp_segs h a = Some s" "seg_ok s" "sg_ref s = count R a" "seg_bytes h a = seg_data s"
    "length (seg_data s) = sg_length s"
proof (cases "hp_segs h a")
  case None
  then show ?thesis using heap_ok_cell [OF assms(1), of a] assms(2) by simp
next
  case (Some s)
  then have "seg_ok s" "sg_ref s = count R a" using heap_ok_cell [OF assms(1), of a] by auto
  with Some show ?thesis using that length_seg_data by (auto simp: heap_simps)
qed

lemma length_seg_bytes: "heap_ok h R \<Longrightarrow> hp_segs h a = Some s \<Longrightarrow> length (seg_bytes h a) = sg_length s"
  using heap_ok_cell [of h R a] by (simp add: heap_simps length_seg_data)

lemma heap_ok_next: "heap_ok h R \<Longrightarrow> a \<in># R \<Longrightarrow> a < hp_next h"
  using heap_ok_cell [of h R a] heap_ok_bounds(1) [of h R a] by (cases "hp_next h \<le> a") auto

lemma heap_ok_put:
  assumes ok: "heap_ok h R" and a: "a < hp_next h" and s: "seg_ok s" "sg_ref s = count R' a" "a \<in># R'"
    and R': "\<And>x. x \<noteq> a \<Longrightarrow> count R' x = count R x"
  shows "heap_ok (heap_put a s h) R'"
proof (rule heap_okI)
  fix x
  have "x \<in># R' \<longleftrightarrow> x \<in># R" if "x \<noteq> a" using R' [OF that] by (metis count_eq_zero_iff)
  then show "case hp_segs (heap_put a s h) x of None \<Rightarrow> x \<notin># R' | Some s \<Rightarrow> seg_ok s \<and> x \<in># R' \<and> sg_ref s = count R' x"
    using s heap_ok_cell [OF ok, of x] R' [of x] by (cases "x = a") (simp_all split: option.splits)
qed (use a heap_ok_bounds [OF ok] in simp_all)

lemma heap_ok_del:
  assumes ok: "heap_ok h R" and R': "a \<notin># R'" "\<And>x. x \<noteq> a \<Longrightarrow> count R' x = count R x"
  shows "heap_ok (heap_del a h) R'"
proof (rule heap_okI)
  fix x
  have "x \<in># R' \<longleftrightarrow> x \<in># R" if "x \<noteq> a" using R'(2) [OF that] by (metis count_eq_zero_iff)
  then show "case hp_segs (heap_del a h) x of None \<Rightarrow> x \<notin># R' | Some s \<Rightarrow> seg_ok s \<and> x \<in># R' \<and> sg_ref s = count R' x"
    using R'(1) heap_ok_cell [OF ok, of x] R'(2) [of x] by (cases "x = a") (simp_all split: option.splits)
qed (use heap_ok_bounds [OF ok] in simp_all)

lemma seg_bytes_put [simp]: "seg_bytes (heap_put a s h) x = (if x = a then seg_data s else seg_bytes h x)"
  by (simp add: seg_bytes_def)

lemma seg_bytes_del [simp]: "seg_bytes (heap_del a h) x = (if x = a then [] else seg_bytes h x)"
  by (simp add: seg_bytes_def)

lemma seg_bytes_same: "seg_data s' = seg_data s \<Longrightarrow> hp_segs h a = Some s \<Longrightarrow> seg_bytes (heap_put a s' h) = seg_bytes h"
  by (auto simp: seg_bytes_def)

lemma seg_data_ref [simp]: "seg_data (s\<lparr>sg_ref := r\<rparr>) = seg_data s" "seg_ok (s\<lparr>sg_ref := r\<rparr>) = seg_ok s"
  by (simp_all add: seg_data_def seg_ok_def)

section \<open>References\<close>

lemma seg_ref_ok:
  assumes ok: "heap_ok h R" and a: "a \<in># R"
  obtains h' where "seg_ref a h = Some h'" "heap_ok h' (add_mset a R)" "seg_bytes h' = seg_bytes h"
proof -
  obtain s where s: "hp_segs h a = Some s" "seg_ok s" "sg_ref s = count R a" by (rule heap_ok_get [OF ok a])
  have "heap_ok (heap_put a (s\<lparr>sg_ref := refcount_hold (sg_ref s)\<rparr>) h) (add_mset a R)"
    by (rule heap_ok_put [OF ok heap_ok_next [OF ok a]]) (use s in \<open>simp_all add: refcount_hold_def\<close>)
  then show ?thesis using s(1)
    by (intro that [of "heap_put a (s\<lparr>sg_ref := refcount_hold (sg_ref s)\<rparr>) h"])
      (simp_all add: seg_ref_def seg_bytes_same)
qed

lemma seg_unref_ok:
  assumes ok: "heap_ok h (add_mset a R)"
  obtains h' where "seg_unref a h = Some h'" "heap_ok h' R" "keeps R h h'"
proof -
  obtain s where s: "hp_segs h a = Some s" "seg_ok s" "sg_ref s = Suc (count R a)"
    using heap_ok_get [OF ok, of a] by auto
  have a: "a < hp_next h" using heap_ok_next [OF ok] by simp
  show ?thesis
  proof (cases "a \<in># R")
    case True
    then have "sg_ref s \<noteq> 1" using s(3) by simp
    moreover have "heap_ok (heap_put a (s\<lparr>sg_ref := sg_ref s - 1\<rparr>) h) R"
      by (rule heap_ok_put [OF ok a]) (use s True in simp_all)
    ultimately show ?thesis using s(1)
      by (intro that [of "heap_put a (s\<lparr>sg_ref := sg_ref s - 1\<rparr>) h"])
        (auto simp: seg_unref_def refcount_drop_def seg_bytes_same keeps_def)
  next
    case False
    then have "sg_ref s = 1" using s(3) by (simp add: not_in_iff)
    moreover have "heap_ok (heap_del a h) R" by (rule heap_ok_del [OF ok False]) simp
    ultimately show ?thesis using s(1) False
      by (intro that [of "heap_del a h"]) (auto simp: seg_unref_def refcount_drop_def keeps_def)
  qed
qed

lemma seg_create_ok:
  assumes ok: "heap_ok h R" and buf: "buf \<noteq> []" "length buf \<le> BUFFER_SEGMENT_SIZE"
  obtains a h' s where "seg_create buf h = Some (a, h')" "heap_ok h' (add_mset a R)"
    "seg_bytes h' a = buf" "a \<notin># R" "keeps R h h'" "hp_segs h' a = Some s" "sg_offset s = 0"
proof -
  define a where "a = hp_next h"
  have fresh: "a \<notin># R" using heap_ok_next [OF ok] unfolding a_def by blast
  have malloc: "length (hp_malloc h a) = BUFFER_SEGMENT_SIZE" by (rule heap_ok_bounds(2) [OF ok])
  define s where "s = \<lparr>sg_data = buf @ drop (length buf) (hp_malloc h a), sg_offset = 0, sg_length = length buf, sg_ref = 1\<rparr>"
  define h' where "h' = heap_put a s (h\<lparr>hp_next := a + 1\<rparr>)"
  have "seg_create buf h = Some (a, h')"
    using buf malloc
    by (simp add: seg_create_def seg_create_empty_def mem_write_def h'_def s_def a_def Let_def heap_put_def refcount_new_def)
  moreover have "heap_ok h' (add_mset a R)"
  proof -
    have "heap_ok (h\<lparr>hp_next := a + 1\<rparr>) R"
      by (rule heap_okI) (use heap_ok_cell [OF ok] heap_ok_bounds [OF ok] in \<open>simp_all add: a_def\<close>)
    then show ?thesis unfolding h'_def
      by (rule heap_ok_put) (use buf malloc fresh in \<open>simp_all add: s_def seg_ok_def not_in_iff\<close>)
  qed
  moreover have "seg_bytes h' a = buf" by (simp add: h'_def s_def seg_data_def)
  moreover have "keeps R h h'" using fresh by (auto simp: keeps_def h'_def seg_bytes_def)
  moreover have "hp_segs h' a = Some s" "sg_offset s = 0" by (simp_all add: h'_def s_def)
  ultimately show ?thesis using fresh that by blast
qed

section \<open>Operations on a segment the caller holds a reference to\<close>

text \<open>\<open>replaces f a h F a' h'\<close>: an operation that consumed the caller's reference to \<open>a\<close> and
  returned one to \<open>a'\<close>, whose bytes are \<open>f\<close> of the old ones.\<close>

definition replaces :: "(bytes \<Rightarrow> bytes) \<Rightarrow> nat \<Rightarrow> heap \<Rightarrow> nat multiset \<Rightarrow> nat \<Rightarrow> heap \<Rightarrow> bool" where
  "replaces f a h F a' h' \<longleftrightarrow>
     heap_ok h' (add_mset a' F) \<and> seg_bytes h' a' = f (seg_bytes h a) \<and> keeps F h h'"

lemma heap_ok_excl:
  assumes "heap_ok h (add_mset a F)" and "hp_segs h a = Some s"
  shows "refcount_exclusive (sg_ref s) \<longleftrightarrow> a \<notin># F"
proof -
  have "sg_ref s = Suc (count F a)" using heap_ok_cell [OF assms(1), of a] assms(2) by simp
  then show ?thesis by (simp add: refcount_exclusive_def not_in_iff)
qed

text \<open>In place: the segment is exclusive, so no other reference sees the change.\<close>

lemma replaces_in_place:
  assumes ok: "heap_ok h (add_mset a F)" and s: "hp_segs h a = Some s" and F: "a \<notin># F"
    and s': "seg_ok s'" "sg_ref s' = sg_ref s" "seg_data s' = f (seg_data s)"
  shows "replaces f a h F a (heap_put a s' h)"
proof -
  have "sg_ref s = count (add_mset a F) a" using heap_ok_cell [OF ok, of a] s by simp
  then have "heap_ok (heap_put a s' h) (add_mset a F)"
    using heap_ok_next [OF ok, of a] s' by (intro heap_ok_put [OF ok]) simp_all
  then show ?thesis using s s' F by (auto simp: replaces_def keeps_def heap_simps)
qed

text \<open>By a copy: a new segment, and the reference to the old one is dropped.\<close>

lemma replaces_unref:
  assumes ok: "heap_ok h1 (add_mset a' (add_mset a F))" and b: "seg_bytes h1 a' = f (seg_bytes h a)" "keeps F h h1"
  obtains h2 where "seg_unref a h1 = Some h2" "replaces f a h F a' h2"
proof -
  have ok1: "heap_ok h1 (add_mset a (add_mset a' F))" using ok by (simp add: add_mset_commute)
  obtain h2 where u: "seg_unref a h1 = Some h2" "heap_ok h2 (add_mset a' F)" "keeps (add_mset a' F) h1 h2"
    by (rule seg_unref_ok [OF ok1])
  have "seg_bytes h2 a' = f (seg_bytes h a)" using keepsD [OF u(3), of a'] b by simp
  moreover have "keeps F h h2" using keeps_subset [OF u(3), of F] keeps_trans [OF b(2)] by auto
  ultimately show ?thesis using u by (intro that [OF u(1)]) (simp add: replaces_def)
qed

lemma replaces_by_copy:
  assumes ok: "heap_ok h (add_mset a F)" and buf: "buf = f (seg_bytes h a)" "buf \<noteq> []" "length buf \<le> BUFFER_SEGMENT_SIZE"
  obtains a' h1 h2 where "seg_create buf h = Some (a', h1)" "seg_unref a h1 = Some h2" "replaces f a h F a' h2"
    "a' \<notin># F"
proof -
  obtain a' h1 where c: "seg_create buf h = Some (a', h1)" "heap_ok h1 (add_mset a' (add_mset a F))"
      "seg_bytes h1 a' = buf" "a' \<notin># add_mset a F" "keeps (add_mset a F) h h1"
    by (rule seg_create_ok [OF ok buf(2,3)])
  have "keeps F h h1" by (rule keeps_subset [OF c(5)]) auto
  then obtain h2 where "seg_unref a h1 = Some h2" "replaces f a h F a' h2"
    using replaces_unref [OF c(2), of f h] c(3) buf(1) by auto
  with c(1,4) show ?thesis by (intro that) auto
qed

lemma seg_skip_ok:
  assumes ok: "heap_ok h (add_mset a F)" and n: "0 < n" "n < length (seg_bytes h a)"
  obtains a' h' where "seg_skip a n h = Some (a', h')" "replaces (drop n) a h F a' h'"
proof -
  obtain s where s: "hp_segs h a = Some s" "seg_ok s" "seg_bytes h a = seg_data s" "length (seg_data s) = sg_length s"
    using heap_ok_get [OF ok, of a] by auto
  show ?thesis
  proof (cases "a \<in># F")
    case False
    let ?s = "s\<lparr>sg_offset := sg_offset s + n, sg_length := sg_length s - n\<rparr>"
    have "replaces (drop n) a h F a (heap_put a ?s h)"
      by (rule replaces_in_place [OF ok s(1) False])
        (use s n in \<open>auto simp: seg_ok_def seg_data_def drop_take add.commute\<close>)
    then show ?thesis using s n False heap_ok_excl [OF ok s(1)] by (intro that) (simp_all add: seg_skip_def)
  next
    case True
    have "drop n (seg_data s) \<noteq> []" "length (drop n (seg_data s)) \<le> BUFFER_SEGMENT_SIZE"
      using s n by (auto simp: seg_ok_def)
    then obtain a' h1 h2 where "seg_create (drop n (seg_data s)) h = Some (a', h1)" "seg_unref a h1 = Some h2"
        "replaces (drop n) a h F a' h2" "a' \<notin># F"
      using s(3) by (elim replaces_by_copy [OF ok, rotated 1]) simp_all
    then show ?thesis using s n True heap_ok_excl [OF ok s(1)] by (intro that) (simp_all add: seg_skip_def)
  qed
qed

lemma seg_trim_ok:
  assumes ok: "heap_ok h (add_mset a F)" and n: "0 < n" "n < length (seg_bytes h a)"
  obtains a' h' where "seg_trim a n h = Some (a', h')" "replaces (\<lambda>bs. take (length bs - n) bs) a h F a' h'"
proof -
  let ?f = "\<lambda>bs :: bytes. take (length bs - n) bs"
  obtain s where s: "hp_segs h a = Some s" "seg_ok s" "seg_bytes h a = seg_data s" "length (seg_data s) = sg_length s"
    using heap_ok_get [OF ok, of a] by auto
  show ?thesis
  proof (cases "a \<in># F")
    case False
    let ?s = "s\<lparr>sg_length := sg_length s - n\<rparr>"
    have "replaces ?f a h F a (heap_put a ?s h)"
      by (rule replaces_in_place [OF ok s(1) False]) (use s n in \<open>auto simp: seg_ok_def seg_data_def min_def\<close>)
    then show ?thesis using s n False heap_ok_excl [OF ok s(1)] by (intro that) (simp_all add: seg_trim_def)
  next
    case True
    have "take (sg_length s - n) (seg_data s) \<noteq> []" "length (take (sg_length s - n) (seg_data s)) \<le> BUFFER_SEGMENT_SIZE"
      using s n by (auto simp: seg_ok_def)
    then obtain a' h1 h2 where "seg_create (take (sg_length s - n) (seg_data s)) h = Some (a', h1)"
        "seg_unref a h1 = Some h2" "replaces ?f a h F a' h2" "a' \<notin># F"
      using s(3,4) by (elim replaces_by_copy [OF ok, where f = ?f, rotated 1]) simp_all
    then show ?thesis using s n True heap_ok_excl [OF ok s(1)] by (intro that) (simp_all add: seg_trim_def)
  qed
qed

lemma seg_truncate_ok:
  assumes ok: "heap_ok h (add_mset a F)" and n: "0 < n" "n < length (seg_bytes h a)"
  obtains a' h' where "seg_truncate a n h = Some (a', h')" "replaces (take n) a h F a' h'"
proof -
  obtain s where s: "hp_segs h a = Some s" "seg_bytes h a = seg_data s" "length (seg_data s) = sg_length s"
    using heap_ok_get [OF ok, of a] by auto
  have m: "0 < sg_length s - n" "sg_length s - n < length (seg_bytes h a)" using n s by auto
  obtain a' h' where t: "seg_trim a (sg_length s - n) h = Some (a', h')"
      "replaces (\<lambda>bs. take (length bs - (sg_length s - n)) bs) a h F a' h'"
    by (rule seg_trim_ok [OF ok m])
  then have "replaces (take n) a h F a' h'" using n s by (simp add: replaces_def)
  with t s show ?thesis by (intro that) (simp_all add: seg_truncate_def)
qed

lemma seg_pullup_ok:
  assumes ok: "heap_ok h (add_mset a F)" and F: "a \<notin># F" and ne: "seg_bytes h a \<noteq> []"
  obtains h' s where "seg_pullup a h = Some h'" "replaces id a h F a h'" "hp_segs h' a = Some s" "sg_offset s = 0"
proof -
  obtain s where s: "hp_segs h a = Some s" "seg_ok s" "seg_bytes h a = seg_data s" "length (seg_data s) = sg_length s"
    using heap_ok_get [OF ok, of a] by auto
  have ex: "refcount_exclusive (sg_ref s)" using heap_ok_excl [OF ok s(1)] F by simp
  have ne: "sg_length s \<noteq> 0" using s(3,4) ne length_greater_0_conv [of "seg_data s"] by simp
  show ?thesis
  proof (cases "sg_offset s = 0")
    case True
    then show ?thesis using s ne ex ok by (intro that [of h s]) (auto simp: seg_pullup_def replaces_def)
  next
    case False
    let ?s = "s\<lparr>sg_data := seg_data s @ drop (sg_length s) (sg_data s), sg_offset := 0\<rparr>"
    have "replaces id a h F a (heap_put a ?s h)"
      by (rule replaces_in_place [OF ok s(1) F]) (use s in \<open>auto simp: seg_ok_def seg_data_def\<close>)
    then show ?thesis using s ne ex False
      by (intro that [of "heap_put a ?s h" ?s]) (auto simp: seg_pullup_def mem_write_def seg_ok_def)
  qed
qed

lemma replaces_trans:
  "replaces f a h F a1 h1 \<Longrightarrow> replaces g a1 h1 F a2 h2 \<Longrightarrow> replaces (g \<circ> f) a h F a2 h2"
  by (auto simp: replaces_def intro: keeps_trans)

lemma seg_write_tail_ok:
  assumes ok: "heap_ok h (add_mset a F)" and F: "a \<notin># F" and s: "hp_segs h a = Some s"
    and room: "sg_offset s + sg_length s + length buf \<le> BUFFER_SEGMENT_SIZE"
  obtains h' where "seg_write_tail a buf h = Some h'" "replaces (\<lambda>bs. bs @ buf) a h F a h'"
proof -
  have sok: "seg_ok s" using heap_ok_cell [OF ok, of a] s by simp
  let ?d = "take (sg_offset s + sg_length s) (sg_data s) @ buf @ drop (sg_offset s + sg_length s + length buf) (sg_data s)"
  let ?s = "s\<lparr>sg_data := ?d, sg_length := sg_length s + length buf\<rparr>"
  have "seg_data ?s = seg_data s @ buf" using sok room by (simp add: seg_data_def seg_ok_def drop_take)
  then have "replaces (\<lambda>bs. bs @ buf) a h F a (heap_put a ?s h)"
    using sok room by (intro replaces_in_place [OF ok s F]) (auto simp: seg_ok_def)
  then show ?thesis using s sok room heap_ok_excl [OF ok s] F
    by (intro that) (simp_all add: seg_write_tail_def mem_write_def seg_ok_def)
qed

lemma seg_append_in_place_ok:
  assumes ok: "heap_ok h (add_mset a F)" and F: "a \<notin># F"
    and room: "length (seg_bytes h a) + length buf \<le> BUFFER_SEGMENT_SIZE" and ne: "seg_bytes h a \<noteq> []"
  obtains h' where "seg_append_in_place a buf h = Some h'" "replaces (\<lambda>bs. bs @ buf) a h F a h'"
proof -
  obtain s where s: "hp_segs h a = Some s" "seg_ok s" "seg_bytes h a = seg_data s" "length (seg_data s) = sg_length s"
    using heap_ok_get [OF ok, of a] by auto
  show ?thesis
  proof (cases "seg_avail s - sg_offset s < length buf")
    case False
    then have "sg_offset s + sg_length s + length buf \<le> BUFFER_SEGMENT_SIZE"
      using s(2) room s(3,4) unfolding seg_avail_def seg_ok_def by linarith
    then obtain h' where "seg_write_tail a buf h = Some h'" "replaces (\<lambda>bs. bs @ buf) a h F a h'"
      by (rule seg_write_tail_ok [OF ok F s(1)])
    then show ?thesis using s(1) False by (intro that) (simp_all add: seg_append_in_place_def)
  next
    case True
    obtain h1 s1 where p: "seg_pullup a h = Some h1" "replaces id a h F a h1" "hp_segs h1 a = Some s1" "sg_offset s1 = 0"
      by (rule seg_pullup_ok [OF ok F ne])
    have ok1: "heap_ok h1 (add_mset a F)" using p(2) by (simp add: replaces_def)
    have "sg_length s1 = length (seg_bytes h a)"
      using length_seg_bytes [OF ok1 p(3)] p(2) by (simp add: replaces_def)
    then have "sg_offset s1 + sg_length s1 + length buf \<le> BUFFER_SEGMENT_SIZE" using p(4) room by simp
    then obtain h' where w: "seg_write_tail a buf h1 = Some h'" "replaces (\<lambda>bs. bs @ buf) a h1 F a h'"
      by (rule seg_write_tail_ok [OF ok1 F p(3)])
    have "replaces (\<lambda>bs. bs @ buf) a h F a h'" using replaces_trans [OF p(2) w(2)] by (simp add: comp_def)
    then show ?thesis using s(1) True p(1) w(1) by (intro that) (simp_all add: seg_append_in_place_def)
  qed
qed

lemma seg_append_ok:
  assumes ok: "heap_ok h (add_mset a F)" and buf: "buf \<noteq> []" and ne: "seg_bytes h a \<noteq> []"
    and room: "length (seg_bytes h a) + length buf \<le> BUFFER_SEGMENT_SIZE"
  obtains a' h' where "seg_append a buf h = Some (a', h')" "replaces (\<lambda>bs. bs @ buf) a h F a' h'" "a \<notin># F \<Longrightarrow> a' = a"
proof -
  obtain s where s: "hp_segs h a = Some s" "seg_ok s" "seg_bytes h a = seg_data s" "length (seg_data s) = sg_length s"
    using heap_ok_get [OF ok, of a] by auto
  have av: "length buf \<le> seg_avail s" using room s by (simp add: seg_avail_def)
  have len: "sg_length s \<noteq> 0" using s(3,4) ne length_greater_0_conv [of "seg_data s"] by simp
  show ?thesis
  proof (cases "a \<in># F")
    case False
    obtain h' where "seg_append_in_place a buf h = Some h'" "replaces (\<lambda>bs. bs @ buf) a h F a h'"
      by (rule seg_append_in_place_ok [OF ok False room ne])
    then show ?thesis using s av buf False heap_ok_excl [OF ok s(1)] by (intro that) (simp_all add: seg_append_def)
  next
    case True
    have "seg_data s \<noteq> []" "length (seg_data s) \<le> BUFFER_SEGMENT_SIZE" using s ne by (auto simp: seg_ok_def)
    then obtain a' h1 h2 where c: "seg_create (seg_data s) h = Some (a', h1)" "seg_unref a h1 = Some h2"
        "replaces id a h F a' h2" "a' \<notin># F"
      using s(3) by (elim replaces_by_copy [OF ok, where f = id, rotated 1]) simp_all
    have ok2: "heap_ok h2 (add_mset a' F)" and b2: "seg_bytes h2 a' = seg_bytes h a" using c(3) by (simp_all add: replaces_def)
    obtain s2 where s2: "hp_segs h2 a' = Some s2" "seg_bytes h2 a' = seg_data s2" "length (seg_data s2) = sg_length s2"
      using heap_ok_get [OF ok2, of a'] by auto
    have av2: "length buf \<le> seg_avail s2" using room s2 b2 unfolding seg_avail_def by simp
    obtain h3 where "seg_append_in_place a' buf h2 = Some h3" "replaces (\<lambda>bs. bs @ buf) a' h2 F a' h3"
      by (rule seg_append_in_place_ok [OF ok2 c(4), of buf]) (use room ne b2 in simp_all)
    moreover have "replaces (\<lambda>bs. bs @ buf) a h F a' h3" using replaces_trans [OF c(3) calculation(2)] by (simp add: comp_def)
    ultimately show ?thesis
      using s(1) s2(1) c(1,2) av av2 buf True heap_ok_excl [OF ok s(1)] len
      by (intro that [of a' h3]) (simp_all add: seg_append_def seg_copy_def)
  qed
qed

lemma seg_cut_in_place_ok:
  assumes ok: "heap_ok h (add_mset a F)" and F: "a \<notin># F" and n: "k + n < length (seg_bytes h a)"
  obtains h' where "seg_cut_in_place a k n h = Some h'" "replaces (\<lambda>bs. take k bs @ drop (k + n) bs) a h F a h'"
proof -
  obtain s where s: "hp_segs h a = Some s" "seg_ok s" "seg_bytes h a = seg_data s" "length (seg_data s) = sg_length s"
    using heap_ok_get [OF ok, of a] by auto
  define rest where "rest = drop (k + n) (seg_data s)"
  have rest: "length rest = sg_length s - (k + n)" "k + n < sg_length s" using s n by (simp_all add: rest_def)
  define d where "d = take (sg_offset s + k) (sg_data s) @ rest @ drop (sg_offset s + k + length rest) (sg_data s)"
  let ?s = "s\<lparr>sg_data := d, sg_length := sg_length s - n\<rparr>"
  have "drop (sg_offset s) d = take k (drop (sg_offset s) (sg_data s)) @ rest @ drop (sg_offset s + k + length rest) (sg_data s)"
    using s(2) rest by (simp add: d_def drop_take seg_ok_def)
  moreover have "length (take k (drop (sg_offset s) (sg_data s))) = k" using s(2) rest by (auto simp: seg_ok_def)
  moreover have "take k (seg_data s) = take k (drop (sg_offset s) (sg_data s))" using rest by (simp add: seg_data_def min_def)
  ultimately have "seg_data ?s = take k (seg_data s) @ rest" using rest by (simp add: seg_data_def)
  moreover have "seg_ok ?s" using s(2) rest by (auto simp: seg_ok_def d_def)
  ultimately have "replaces (\<lambda>bs. take k bs @ drop (k + n) bs) a h F a (heap_put a ?s h)"
    by (intro replaces_in_place [OF ok s(1) F]) (simp_all add: rest_def)
  moreover have "mem_write (sg_offset s + k) rest (sg_data s) = Some d"
    using s(2) rest by (auto simp: mem_write_def seg_ok_def d_def)
  ultimately show ?thesis using s(1)
    by (intro that [of "heap_put a ?s h"]) (simp_all add: seg_cut_in_place_def flip: rest_def)
qed

lemma seg_cut_ok:
  assumes ok: "heap_ok h (add_mset a F)" and n: "0 < n" "k + n < length (seg_bytes h a)"
  obtains a' h' where "seg_cut a k n h = Some (a', h')" "replaces (\<lambda>bs. take k bs @ drop (k + n) bs) a h F a' h'"
proof -
  let ?f = "\<lambda>bs :: bytes. take k bs @ drop (k + n) bs"
  obtain s where s: "hp_segs h a = Some s" "seg_ok s" "seg_bytes h a = seg_data s" "length (seg_data s) = sg_length s"
    using heap_ok_get [OF ok, of a] by auto
  have lt: "k + n < sg_length s" using n s by simp
  consider "k = 0" | "k \<noteq> 0" "a \<notin># F" | "k \<noteq> 0" "a \<in># F" by blast
  then show ?thesis
  proof cases
    case 1
    obtain a' h' where "seg_skip a n h = Some (a', h')" "replaces (drop n) a h F a' h'"
      by (rule seg_skip_ok [OF ok n(1)]) (use n in simp)
    then show ?thesis using s(1) lt n(1) 1 by (intro that [of a' h']) (simp_all add: seg_cut_def replaces_def)
  next
    case 2
    obtain h' where "seg_cut_in_place a k n h = Some h'" "replaces ?f a h F a h'"
      by (rule seg_cut_in_place_ok [OF ok 2(2) n(2)])
    then show ?thesis using s(1) lt n(1) 2 heap_ok_excl [OF ok s(1)]
      by (intro that [of a h']) (simp_all add: seg_cut_def)
  next
    case 3
    have buf: "take k (seg_data s) \<noteq> []" "length (take k (seg_data s)) \<le> BUFFER_SEGMENT_SIZE" "drop (k + n) (seg_data s) \<noteq> []"
      using 3 lt s by (auto simp: seg_ok_def)
    obtain a1 h1 where c: "seg_create (take k (seg_data s)) h = Some (a1, h1)" "heap_ok h1 (add_mset a1 (add_mset a F))"
        "seg_bytes h1 a1 = take k (seg_data s)" "a1 \<notin># add_mset a F" "keeps (add_mset a F) h h1"
      by (rule seg_create_ok [OF ok buf(1,2)])
    obtain h2 where ap: "seg_append a1 (drop (k + n) (seg_data s)) h1 = Some (a1, h2)"
        "replaces (\<lambda>bs. bs @ drop (k + n) (seg_data s)) a1 h1 (add_mset a F) a1 h2"
    proof (rule seg_append_ok [OF c(2) buf(3)])
      show "seg_bytes h1 a1 \<noteq> []" using c(3) buf(1) by simp
      show "length (seg_bytes h1 a1) + length (drop (k + n) (seg_data s)) \<le> BUFFER_SEGMENT_SIZE"
        using c(3) s(2,4) lt unfolding seg_ok_def by simp linarith
    qed (use c(4) in auto)
    have "seg_bytes h2 a1 = ?f (seg_bytes h a)" using ap(2) c(3) s(3) by (simp add: replaces_def)
    moreover have "heap_ok h2 (add_mset a1 (add_mset a F))" "keeps F h h2"
      using ap(2) c(5) keeps_trans [of F h h1 h2] by (auto simp: replaces_def keeps_def)
    ultimately obtain h3 where "seg_unref a h2 = Some h3" "replaces ?f a h F a1 h3"
      by (elim replaces_unref [rotated 1, where f = ?f]) auto
    then show ?thesis using s(1) lt n(1) 3 heap_ok_excl [OF ok s(1)] c(1) ap(1)
      by (intro that [of a1 h3]) (simp_all add: seg_cut_def)
  qed
qed

end
