(* ===== verification/Buffer.thy ===== *)
theory Buffer
  imports Buffer_Heap
begin

text \<open>
  Class Buffer (common/buffer.h): a list of references to segments and a cached length.
  Each operation is translated loop by loop over the store of the theory Buffer_Heap;
  a failed assertion and a use of a freed segment are \<open>None\<close>.  A Buffer argument that may be \<^verbatim>\<open>NULL\<close> is an option.  Two Buffer arguments are
  two different objects.
\<close>

record buffer =
  bf_length :: nat
  bf_data :: "nat list"

definition buffer_new :: buffer where
  "buffer_new = \<lparr>bf_length = 0, bf_data = []\<rparr>"

definition buffer_empty :: "buffer \<Rightarrow> bool" where
  "buffer_empty b \<longleftrightarrow> bf_data b = []"

text \<open>The length and the data of a segment (\<^verbatim>\<open>data()\<close> asserts that there are any).\<close>

definition seg_size :: "nat \<Rightarrow> heap \<Rightarrow> nat option" where
  "seg_size a h = do { s \<leftarrow> hp_segs h a; Some (sg_length s) }"

definition seg_view :: "nat \<Rightarrow> heap \<Rightarrow> (nat \<times> bytes) option" where
  "seg_view a h = do { s \<leftarrow> hp_segs h a; Some (sg_length s, seg_data s) }"

definition seg_read :: "nat \<Rightarrow> heap \<Rightarrow> bytes option" where
  "seg_read a h = do { s \<leftarrow> hp_segs h a; assert_that (sg_length s \<noteq> 0); Some (seg_data s) }"

section \<open>append\<close>

definition buffer_append_segment :: "buffer \<Rightarrow> nat \<Rightarrow> heap \<Rightarrow> (buffer \<times> heap) option" where
  "buffer_append_segment b a h = do {
     n \<leftarrow> seg_size a h;
     assert_that (n \<noteq> 0);
     h \<leftarrow> seg_ref a h;
     Some (\<lparr>bf_length = bf_length b + n, bf_data = bf_data b @ [a]\<rparr>, h) }"

fun buffer_append_segments :: "buffer \<Rightarrow> nat list \<Rightarrow> heap \<Rightarrow> (buffer \<times> heap) option" where
  "buffer_append_segments b [] h = Some (b, h)"
| "buffer_append_segments b (a # as) h = do {
     (b, h) \<leftarrow> buffer_append_segment b a h;
     buffer_append_segments b as h }"

definition buffer_append_buffer :: "buffer \<Rightarrow> buffer \<Rightarrow> heap \<Rightarrow> (buffer \<times> heap) option" where
  "buffer_append_buffer b buf h = buffer_append_segments b (bf_data buf) h"

text \<open>A new segment with the given bytes: created, appended, released.\<close>

definition buffer_append_new :: "buffer \<Rightarrow> bytes \<Rightarrow> heap \<Rightarrow> (buffer \<times> heap) option" where
  "buffer_append_new b buf h = do {
     (a, h) \<leftarrow> seg_create buf h;
     (b, h) \<leftarrow> buffer_append_segment b a h;
     h \<leftarrow> seg_unref a h;
     Some (b, h) }"

text \<open>The loop over complete segments; also returns the bytes that are left.\<close>

function buffer_append_complete :: "buffer \<Rightarrow> bytes \<Rightarrow> heap \<Rightarrow> (buffer \<times> bytes \<times> heap) option" where
  "buffer_append_complete b buf h =
     (if length buf < BUFFER_SEGMENT_SIZE then Some (b, buf, h)
      else do {
        (b, h) \<leftarrow> buffer_append_new b (take BUFFER_SEGMENT_SIZE buf) h;
        buffer_append_complete b (drop BUFFER_SEGMENT_SIZE buf) h })"
  by pat_completeness auto
termination
  by (relation "measure (\<lambda>(b, buf, h). length buf)") (auto simp: BUFFER_SEGMENT_SIZE_def)

declare buffer_append_complete.simps [simp del]

definition buffer_append_bytes :: "buffer \<Rightarrow> bytes \<Rightarrow> heap \<Rightarrow> (buffer \<times> heap) option" where
  "buffer_append_bytes b buf h = do {
     assert_that (buf \<noteq> []);
     room \<leftarrow>
       (if length buf < BUFFER_SEGMENT_SIZE \<and> \<not> buffer_empty b then do {
          s \<leftarrow> hp_segs h (last (bf_data b));
          Some (refcount_exclusive (sg_ref s) \<and> length buf \<le> seg_avail s) }
        else Some False);
     (if room then do {
        (a, h) \<leftarrow> seg_append (last (bf_data b)) buf h;
        Some (\<lparr>bf_length = bf_length b + length buf, bf_data = butlast (bf_data b) @ [a]\<rparr>, h) }
      else do {
        (b, rest, h) \<leftarrow> buffer_append_complete b buf h;
        (if rest = [] then Some (b, h) else buffer_append_new b rest h) }) }"

section \<open>clear\<close>

fun buffer_clear_loop :: "nat list \<Rightarrow> nat \<Rightarrow> heap \<Rightarrow> (nat \<times> heap) option" where
  "buffer_clear_loop [] len h = Some (len, h)"
| "buffer_clear_loop (a # as) len h = do {
     n \<leftarrow> seg_size a h;
     assert_that (n \<le> len);
     h \<leftarrow> seg_unref a h;
     buffer_clear_loop as (len - n) h }"

definition buffer_clear :: "buffer \<Rightarrow> heap \<Rightarrow> (buffer \<times> heap) option" where
  "buffer_clear b h = do {
     (len, h) \<leftarrow> buffer_clear_loop (bf_data b) (bf_length b) h;
     assert_that (len = 0);
     Some (\<lparr>bf_length = len, bf_data = []\<rparr>, h) }"

section \<open>copyout and extract\<close>

fun buffer_copyout_loop :: "nat list \<Rightarrow> nat \<Rightarrow> nat \<Rightarrow> heap \<Rightarrow> bytes option" where
  "buffer_copyout_loop [] offset dstsize h = Some []"
| "buffer_copyout_loop (a # as) offset dstsize h = do {
     n \<leftarrow> seg_size a h;
     (if n \<le> offset then buffer_copyout_loop as (offset - n) dstsize h
      else let seglen = n - offset in
        if seglen < dstsize then do {
          x \<leftarrow> seg_copyout a offset seglen h;
          y \<leftarrow> buffer_copyout_loop as 0 (dstsize - seglen) h;
          Some (x @ y) }
        else seg_copyout a offset dstsize h) }"

definition buffer_copyout :: "buffer \<Rightarrow> nat \<Rightarrow> nat \<Rightarrow> heap \<Rightarrow> bytes option" where
  "buffer_copyout b offset dstsize h = do {
     assert_that (offset + dstsize \<le> bf_length b);
     buffer_copyout_loop (bf_data b) offset dstsize h }"

definition buffer_copyout_front :: "buffer \<Rightarrow> heap \<Rightarrow> (nat \<times> heap) option" where
  "buffer_copyout_front b h = do {
     assert_that (\<not> buffer_empty b);
     h \<leftarrow> seg_ref (hd (bf_data b)) h;
     Some (hd (bf_data b), h) }"

definition buffer_copyout_segment :: "buffer \<Rightarrow> nat \<Rightarrow> heap \<Rightarrow> (nat \<times> heap) option" where
  "buffer_copyout_segment b len h = do {
     assert_that (len \<noteq> 0);
     assert_that (len \<le> BUFFER_SEGMENT_SIZE);
     assert_that (len \<le> bf_length b);
     let src = hd (bf_data b);
     n \<leftarrow> seg_size src h;
     (if n = len then do { h \<leftarrow> seg_ref src h; Some (src, h) }
      else if len < n then do { h \<leftarrow> seg_ref src h; seg_truncate src len h }
      else do {
        (a, h) \<leftarrow> seg_copy src h;
        s \<leftarrow> hp_segs h a;
        assert_that (refcount_exclusive (sg_ref s));
        x \<leftarrow> buffer_copyout b (sg_length s) (len - sg_length s) h;
        data \<leftarrow> mem_write (sg_offset s + sg_length s) x (sg_data s);
        h \<leftarrow> seg_set_length a len (heap_put a (s\<lparr>sg_data := data\<rparr>) h);
        Some (a, h) }) }"

definition buffer_extract :: "buffer \<Rightarrow> nat \<Rightarrow> nat \<Rightarrow> heap \<Rightarrow> bytes option" where
  "buffer_extract b sz offset h = do {
     assert_that (offset + sz \<le> bf_length b);
     buffer_copyout b offset sz h }"

fun buffer_extract_loop :: "nat list \<Rightarrow> heap \<Rightarrow> bytes option" where
  "buffer_extract_loop [] h = Some []"
| "buffer_extract_loop (a # as) h = do {
     x \<leftarrow> seg_read a h; y \<leftarrow> buffer_extract_loop as h; Some (x @ y) }"

definition buffer_extract_string :: "buffer \<Rightarrow> heap \<Rightarrow> bytes option" where
  "buffer_extract_string b h = buffer_extract_loop (bf_data b) h"

section \<open>moveout of whole segments, peek and pop\<close>

fun buffer_unref_loop :: "nat list \<Rightarrow> heap \<Rightarrow> (bytes \<times> heap) option" where
  "buffer_unref_loop [] h = Some ([], h)"
| "buffer_unref_loop (a # as) h = do {
     x \<leftarrow> seg_read a h;
     h \<leftarrow> seg_unref a h;
     (y, h) \<leftarrow> buffer_unref_loop as h;
     Some (x @ y, h) }"

definition buffer_moveout_string :: "buffer \<Rightarrow> heap \<Rightarrow> (bytes \<times> buffer \<times> heap) option" where
  "buffer_moveout_string b h = do {
     (x, h) \<leftarrow> buffer_unref_loop (bf_data b) h;
     Some (x, \<lparr>bf_length = 0, bf_data = []\<rparr>, h) }"

text \<open>\<^verbatim>\<open>moveout(Buffer *dst)\<close>: returns \<^verbatim>\<open>dst\<close> and the emptied buffer.\<close>

definition buffer_moveout_all :: "buffer \<Rightarrow> buffer \<Rightarrow> buffer \<times> buffer" where
  "buffer_moveout_all dst b =
     (if buffer_empty dst then (\<lparr>bf_length = bf_length b, bf_data = bf_data b\<rparr>, \<lparr>bf_length = 0, bf_data = []\<rparr>)
      else (\<lparr>bf_length = bf_length dst + bf_length b, bf_data = bf_data dst @ bf_data b\<rparr>,
            \<lparr>bf_length = 0, bf_data = []\<rparr>))"

definition buffer_moveout_segment :: "buffer \<Rightarrow> heap \<Rightarrow> (nat \<times> buffer) option" where
  "buffer_moveout_segment b h = do {
     assert_that (\<not> buffer_empty b);
     let a = hd (bf_data b);
     n \<leftarrow> seg_size a h;
     Some (a, \<lparr>bf_length = bf_length b - n, bf_data = tl (bf_data b)\<rparr>) }"

definition buffer_peek :: "buffer \<Rightarrow> heap \<Rightarrow> byte option" where
  "buffer_peek b h = do {
     assert_that (bf_length b \<noteq> 0);
     x \<leftarrow> seg_read (hd (bf_data b)) h;
     Some (hd x) }"

definition buffer_pop :: "buffer \<Rightarrow> heap \<Rightarrow> (byte \<times> buffer \<times> heap) option" where
  "buffer_pop b h = do {
     assert_that (bf_length b \<noteq> 0);
     let a = hd (bf_data b);
     x \<leftarrow> seg_read a h;
     n \<leftarrow> seg_size a h;
     (if n = 1 then do {
        h \<leftarrow> seg_unref a h;
        Some (hd x, \<lparr>bf_length = bf_length b - 1, bf_data = tl (bf_data b)\<rparr>, h) }
      else do {
        (a, h) \<leftarrow> seg_skip a 1 h;
        Some (hd x, \<lparr>bf_length = bf_length b - 1, bf_data = a # tl (bf_data b)\<rparr>, h) }) }"

section \<open>find and prefix\<close>

fun buffer_find_loop :: "byte \<Rightarrow> nat list \<Rightarrow> nat \<Rightarrow> nat \<Rightarrow> heap \<Rightarrow> nat option option" where
  "buffer_find_loop ch [] offset limit h = Some None"
| "buffer_find_loop ch (a # as) offset limit h = do {
     x \<leftarrow> seg_read a h;
     let len = (if limit < length x then limit else length x);
     (case first_index ((=) ch) (take len x) of
        None \<Rightarrow>
          if limit - len = 0 then Some None else buffer_find_loop ch as (offset + len) (limit - len) h
      | Some i \<Rightarrow> Some (Some (offset + i))) }"

definition buffer_find :: "byte \<Rightarrow> nat \<Rightarrow> buffer \<Rightarrow> heap \<Rightarrow> nat option option" where
  "buffer_find ch limit b h =
     buffer_find_loop ch (bf_data b) 0 (if limit = 0 then bf_length b else limit) h"

fun buffer_find_any_loop :: "(byte \<Rightarrow> bool) \<Rightarrow> nat list \<Rightarrow> nat \<Rightarrow> heap \<Rightarrow> (nat \<times> byte) option option" where
  "buffer_find_any_loop mem [] offset h = Some None"
| "buffer_find_any_loop mem (a # as) offset h = do {
     x \<leftarrow> seg_read a h;
     (case first_index mem x of
        None \<Rightarrow> buffer_find_any_loop mem as (offset + length x) h
      | Some i \<Rightarrow> Some (Some (offset + i, x ! i))) }"

definition buffer_find_any :: "bytes \<Rightarrow> buffer \<Rightarrow> heap \<Rightarrow> (nat \<times> byte) option option" where
  "buffer_find_any s b h = buffer_find_any_loop (\<lambda>c. c \<in> set s) (bf_data b) 0 h"

text \<open>The loop of \<^verbatim>\<open>prefix(const uint8_t *, size_t)\<close>: \<open>p\<close> is what is left of the prefix, \<open>q\<close> of
  the current segment, \<open>big\<close> the segments after it.\<close>

function buffer_prefix_loop :: "bytes \<Rightarrow> bytes \<Rightarrow> nat list \<Rightarrow> heap \<Rightarrow> bool option" where
  "buffer_prefix_loop p q big h =
     (if p = [] \<or> q = [] then None
      else let cmplen = min (length p) (length q); p' = drop cmplen p; q' = drop cmplen q in
        if take cmplen q \<noteq> take cmplen p then Some False
        else if q' = [] then
          (case big of
             [] \<Rightarrow> Some True
           | a # big \<Rightarrow> do {
               q \<leftarrow> seg_read a h;
               (if p' = [] then Some True else buffer_prefix_loop p' q big h) })
        else if p' = [] then Some True
        else buffer_prefix_loop p' q' big h)"
  by pat_completeness auto
termination
  by (relation "measure (\<lambda>(p, q, big, h). length p)") (auto simp: min_def split: if_splits)

declare buffer_prefix_loop.simps [simp del]

definition buffer_prefix :: "bytes \<Rightarrow> buffer \<Rightarrow> heap \<Rightarrow> bool option" where
  "buffer_prefix p b h = do {
     assert_that (0 < length p);
     (if bf_length b < length p then Some False
      else do {
        q \<leftarrow> seg_read (hd (bf_data b)) h;
        buffer_prefix_loop p q (tl (bf_data b)) h }) }"

text \<open>The inner loop of \<^verbatim>\<open>prefix(const Buffer *)\<close> compares one segment of the prefix; it
  returns what is left of the segments compared with, or \<open>None\<close> inside for a difference.\<close>

function buffer_prefix_segment ::
  "bytes \<Rightarrow> bytes \<Rightarrow> nat list \<Rightarrow> heap \<Rightarrow> (bytes \<times> nat list) option option" where
  "buffer_prefix_segment p q big h =
     (if p = [] \<or> q = [] then None
      else let cmplen = min (length p) (length q); p' = drop cmplen p; q' = drop cmplen q in
        if take cmplen q \<noteq> take cmplen p then Some None
        else if q' = [] then
          (case big of
             [] \<Rightarrow> Some (Some ([], []))
           | a # big \<Rightarrow> do {
               q \<leftarrow> seg_read a h;
               (if p' = [] then Some (Some (q, big)) else buffer_prefix_segment p' q big h) })
        else if p' = [] then Some (Some (q', big))
        else buffer_prefix_segment p' q' big h)"
  by pat_completeness auto
termination
  by (relation "measure (\<lambda>(p, q, big, h). length p)") (auto simp: min_def split: if_splits)

declare buffer_prefix_segment.simps [simp del]

fun buffer_prefix_segments :: "nat list \<Rightarrow> bytes \<Rightarrow> nat list \<Rightarrow> heap \<Rightarrow> bool option" where
  "buffer_prefix_segments [] q big h = Some True"
| "buffer_prefix_segments (a # pfx) q big h = do {
     p \<leftarrow> seg_read a h;
     assert_that (q \<noteq> []);
     r \<leftarrow> buffer_prefix_segment p q big h;
     (case r of None \<Rightarrow> Some False | Some (q, big) \<Rightarrow> buffer_prefix_segments pfx q big h) }"

definition buffer_prefix_buffer :: "buffer \<Rightarrow> buffer \<Rightarrow> heap \<Rightarrow> bool option" where
  "buffer_prefix_buffer buf b h = do {
     assert_that (0 < bf_length buf);
     (if bf_length b < bf_length buf then Some False
      else do {
        q \<leftarrow> seg_read (hd (bf_data b)) h;
        buffer_prefix_segments (bf_data buf) q (tl (bf_data b)) h }) }"

definition buffer_equal_buffer :: "buffer \<Rightarrow> buffer \<Rightarrow> heap \<Rightarrow> bool option" where
  "buffer_equal_buffer b buf h =
     (if bf_length b \<noteq> bf_length buf then Some False
      else if buffer_empty b then Some True
      else buffer_prefix_buffer buf b h)"

definition buffer_equal_bytes :: "buffer \<Rightarrow> bytes \<Rightarrow> heap \<Rightarrow> bool option" where
  "buffer_equal_bytes b buf h = do {
     assert_that (buf \<noteq> []);
     (if length buf \<noteq> bf_length b then Some False else buffer_prefix buf b h) }"

definition buffer_equal_string :: "buffer \<Rightarrow> bytes \<Rightarrow> heap \<Rightarrow> bool option" where
  "buffer_equal_string b str h =
     (if length str \<noteq> bf_length b then Some False
      else if buffer_empty b then Some True
      else buffer_prefix str b h)"

section \<open>skip, trim and cut\<close>

text \<open>What is removed goes to the Buffer \<^verbatim>\<open>clip\<close> if there is one.\<close>

definition clip_segment :: "buffer option \<Rightarrow> nat \<Rightarrow> heap \<Rightarrow> (buffer option \<times> heap) option" where
  "clip_segment clip a h =
     (case clip of None \<Rightarrow> Some (None, h)
      | Some c \<Rightarrow> do { (c, h) \<leftarrow> buffer_append_segment c a h; Some (Some c, h) })"

definition clip_bytes :: "buffer option \<Rightarrow> bytes \<Rightarrow> heap \<Rightarrow> (buffer option \<times> heap) option" where
  "clip_bytes clip x h =
     (case clip of None \<Rightarrow> Some (None, h)
      | Some c \<Rightarrow> do { (c, h) \<leftarrow> buffer_append_bytes c x h; Some (Some c, h) })"

definition clip_all :: "buffer option \<Rightarrow> buffer \<Rightarrow> heap \<Rightarrow> (buffer \<times> buffer option \<times> heap) option" where
  "clip_all clip b h =
     (case clip of
        Some c \<Rightarrow> (let (c, b) = buffer_moveout_all c b in Some (b, Some c, h))
      | None \<Rightarrow> do { (b, h) \<leftarrow> buffer_clear b h; Some (b, None, h) })"

fun buffer_skip_loop ::
  "nat list \<Rightarrow> nat \<Rightarrow> nat \<Rightarrow> buffer option \<Rightarrow> heap \<Rightarrow> (nat list \<times> nat \<times> buffer option \<times> heap) option" where
  "buffer_skip_loop [] bytes skipped clip h = Some ([], skipped, clip, h)"
| "buffer_skip_loop (a # as) bytes skipped clip h =
     (if skipped = bytes then Some (a # as, skipped, clip, h)
      else do {
        (n, x) \<leftarrow> seg_view a h;
        (if n \<le> bytes - skipped then do {
           (clip, h) \<leftarrow> clip_segment clip a h;
           h \<leftarrow> seg_unref a h;
           buffer_skip_loop as bytes (skipped + n) clip h }
         else do {
           (clip, h) \<leftarrow> clip_bytes clip (take (bytes - skipped) x) h;
           (a, h) \<leftarrow> seg_skip a (bytes - skipped) h;
           Some (a # as, bytes, clip, h) }) })"

definition buffer_skip ::
  "buffer \<Rightarrow> nat \<Rightarrow> buffer option \<Rightarrow> heap \<Rightarrow> (buffer \<times> buffer option \<times> heap) option" where
  "buffer_skip b bytes clip h = do {
     assert_that (bytes \<noteq> 0);
     assert_that (\<not> buffer_empty b);
     (if bytes = bf_length b then clip_all clip b h
      else do {
        (data, skipped, clip, h) \<leftarrow> buffer_skip_loop (bf_data b) bytes 0 clip h;
        Some (\<lparr>bf_length = bf_length b - skipped, bf_data = data\<rparr>, clip, h) }) }"

text \<open>The loop of \<^verbatim>\<open>trim\<close> takes segments off the end; the list is given last segment first.
  On an empty list the code would decrement \<^verbatim>\<open>end()\<close>.\<close>

fun buffer_trim_loop ::
  "nat list \<Rightarrow> nat \<Rightarrow> nat \<Rightarrow> buffer option \<Rightarrow> heap \<Rightarrow> (nat list \<times> nat \<times> buffer option \<times> heap) option" where
  "buffer_trim_loop [] bytes trimmed clip h = None"
| "buffer_trim_loop (a # as) bytes trimmed clip h =
     (if trimmed = bytes then Some (a # as, trimmed, clip, h)
      else do {
        (n, x) \<leftarrow> seg_view a h;
        (if n \<le> bytes - trimmed then do {
           (clip, h) \<leftarrow> clip_segment clip a h;
           h \<leftarrow> seg_unref a h;
           buffer_trim_loop as bytes (trimmed + n) clip h }
         else do {
           (clip, h) \<leftarrow> clip_bytes clip (drop (n - (bytes - trimmed)) x) h;
           (a, h) \<leftarrow> seg_trim a (bytes - trimmed) h;
           Some (a # as, bytes, clip, h) }) })"

definition buffer_trim ::
  "buffer \<Rightarrow> nat \<Rightarrow> buffer option \<Rightarrow> heap \<Rightarrow> (buffer \<times> buffer option \<times> heap) option" where
  "buffer_trim b bytes clip h = do {
     assert_that (bytes \<noteq> 0);
     assert_that (\<not> buffer_empty b);
     (if bytes = bf_length b then clip_all clip b h
      else do {
        (data, trimmed, clip, h) \<leftarrow> buffer_trim_loop (rev (bf_data b)) bytes 0 clip h;
        Some (\<lparr>bf_length = bf_length b - trimmed, bf_data = rev data\<rparr>, clip, h) }) }"

text \<open>The loop of \<^verbatim>\<open>cut\<close>, with the segments before and from the iterator \<^verbatim>\<open>it\<close>.  What \<^verbatim>\<open>it\<close>
  denotes after \<^verbatim>\<open>data_.insert(it, seg)\<close> is not defined by C++ (an insertion into a \<^verbatim>\<open>std::deque\<close>
  invalidates the iterators) and depends on the library: \<open>it_after i n\<close> is the index at which it then
  stands, for an insertion before index \<open>i\<close> of \<open>n\<close> elements, \<open>None\<close> if it cannot be used any more.\<close>

type_synonym it_after = "nat \<Rightarrow> nat \<Rightarrow> nat option"

function buffer_cut_loop ::
  "it_after \<Rightarrow> nat list \<Rightarrow> nat list \<Rightarrow> nat \<Rightarrow> nat \<Rightarrow> buffer option \<Rightarrow> heap \<Rightarrow>
     (nat list \<times> nat \<times> nat \<times> buffer option \<times> heap) option" where
  "buffer_cut_loop it_after pre [] offset bytes clip h = Some (pre, offset, bytes, clip, h)"
| "buffer_cut_loop it_after pre (a # as) offset bytes clip h = do {
     assert_that (bytes \<noteq> 0);
     (n, x) \<leftarrow> seg_view a h;
     (if n \<le> offset then buffer_cut_loop it_after (pre @ [a]) as (offset - n) bytes clip h
      else if n \<le> offset + bytes then
        (if offset = 0 then do {
           (clip, h) \<leftarrow> clip_segment clip a h;
           h \<leftarrow> seg_unref a h;
           (if bytes - n = 0 then Some (pre @ as, offset, 0, clip, h)
            else buffer_cut_loop it_after pre as offset (bytes - n) clip h) }
         else do {
           (clip, h) \<leftarrow> clip_bytes clip (drop offset x) h;
           (a, h) \<leftarrow> seg_truncate a offset h;
           m \<leftarrow> seg_size a h;
           assert_that (m = offset);
           (if bytes - (n - offset) = 0 then Some (pre @ a # as, 0, 0, clip, h)
            else do {
              i \<leftarrow> it_after (length pre) (length pre + length as);
              assert_that (i \<le> length (pre @ a # as));
              buffer_cut_loop it_after (take i (pre @ a # as)) (drop i (pre @ a # as)) 0
                (bytes - (n - offset)) clip h }) })
      else do {
        (clip, h) \<leftarrow> clip_bytes clip (take bytes (drop offset x)) h;
        (a, h) \<leftarrow> seg_cut a offset bytes h;
        Some (pre @ a # as, 0, 0, clip, h) }) }"
  by pat_completeness auto
termination
  by (relation "measures [\<lambda>(it_after, pre, as, offset, bytes, clip, h). if offset = 0 then 0 else 1,
      \<lambda>(it_after, pre, as, offset, bytes, clip, h). length as]") auto

definition buffer_cut ::
  "it_after \<Rightarrow> buffer \<Rightarrow> nat \<Rightarrow> nat \<Rightarrow> buffer option \<Rightarrow> heap \<Rightarrow> (buffer \<times> buffer option \<times> heap) option" where
  "buffer_cut it_after b offset bytes clip h = do {
     assert_that (offset \<le> bf_length b);
     assert_that (bytes \<noteq> 0);
     assert_that (offset + bytes \<le> bf_length b);
     (if offset = 0 then buffer_skip b bytes clip h
      else if offset + bytes = bf_length b then buffer_trim b bytes clip h
      else do {
        (data, offset', bytes', clip, h) \<leftarrow> buffer_cut_loop it_after [] (bf_data b) offset bytes clip h;
        assert_that (offset' = 0);
        assert_that (bytes' = 0);
        Some (\<lparr>bf_length = bf_length b - bytes, bf_data = data\<rparr>, clip, h) }) }"

definition buffer_truncate :: "buffer \<Rightarrow> nat \<Rightarrow> heap \<Rightarrow> (buffer \<times> heap) option" where
  "buffer_truncate b len h =
     (if bf_length b = len then Some (b, h)
      else do {
        assert_that (len < bf_length b);
        (b, _, h) \<leftarrow> buffer_trim b (bf_length b - len) None h;
        Some (b, h) })"

section \<open>Operations built from the others\<close>

definition buffer_append_len :: "buffer \<Rightarrow> buffer \<Rightarrow> nat \<Rightarrow> heap \<Rightarrow> (buffer \<times> heap) option" where
  "buffer_append_len b buf len h = do {
     assert_that (len \<noteq> 0);
     assert_that (len \<le> bf_length buf);
     (b, h) \<leftarrow> buffer_append_buffer b buf h;
     (if bf_length buf \<noteq> len then do {
        (b, _, h) \<leftarrow> buffer_trim b (bf_length buf - len) None h;
        Some (b, h) }
      else Some (b, h)) }"

definition buffer_copy :: "buffer \<Rightarrow> heap \<Rightarrow> (buffer \<times> heap) option" where
  "buffer_copy source h =
     (if \<not> buffer_empty source then buffer_append_buffer buffer_new source h else Some (buffer_new, h))"

definition buffer_assign :: "buffer \<Rightarrow> buffer \<Rightarrow> heap \<Rightarrow> (buffer \<times> heap) option" where
  "buffer_assign b source h = do {
     (b, h) \<leftarrow> buffer_clear b h;
     buffer_append_buffer b source h }"

definition buffer_moveout_bytes :: "buffer \<Rightarrow> nat \<Rightarrow> nat \<Rightarrow> heap \<Rightarrow> (bytes \<times> buffer \<times> heap) option" where
  "buffer_moveout_bytes b offset dstsize h = do {
     assert_that (dstsize \<noteq> 0);
     assert_that (offset + dstsize \<le> bf_length b);
     x \<leftarrow> buffer_copyout b offset dstsize h;
     (b, _, h) \<leftarrow> buffer_skip b (offset + dstsize) None h;
     Some (x, b, h) }"

definition buffer_moveout_buffer ::
  "buffer \<Rightarrow> buffer \<Rightarrow> nat \<Rightarrow> nat \<Rightarrow> heap \<Rightarrow> (buffer \<times> buffer \<times> heap) option" where
  "buffer_moveout_buffer dst b offset dstsize h = do {
     assert_that (dstsize \<noteq> 0);
     assert_that (offset + dstsize \<le> bf_length b);
     (b, h) \<leftarrow> (if offset \<noteq> 0 then do { (b, _, h) \<leftarrow> buffer_skip b offset None h; Some (b, h) } else Some (b, h));
     (b, clip, h) \<leftarrow> buffer_skip b dstsize (Some dst) h;
     dst \<leftarrow> clip;
     Some (dst, b, h) }"

definition buffer_moveout_prefix ::
  "buffer \<Rightarrow> buffer \<Rightarrow> nat \<Rightarrow> heap \<Rightarrow> (buffer \<times> buffer \<times> heap) option" where
  "buffer_moveout_prefix dst b dstsize h = do {
     assert_that (dstsize \<noteq> 0);
     assert_that (dstsize \<le> bf_length b);
     (if dstsize = bf_length b then (let (dst, b) = buffer_moveout_all dst b in Some (dst, b, h))
      else buffer_moveout_buffer dst b 0 dstsize h) }"

section \<open>split and join\<close>

text \<open>\<^verbatim>\<open>vec.push_back(buf)\<close> copies; a local Buffer is cleared by its destructor.\<close>

definition buffer_push_back :: "buffer list \<Rightarrow> buffer \<Rightarrow> heap \<Rightarrow> (buffer list \<times> buffer \<times> heap) option" where
  "buffer_push_back vec b h = do {
     (c, h) \<leftarrow> buffer_copy b h;
     (b, h) \<leftarrow> buffer_clear b h;
     Some (vec @ [c], b, h) }"

partial_function (option) buffer_split_loop ::
  "byte \<Rightarrow> bool \<Rightarrow> buffer \<Rightarrow> buffer list \<Rightarrow> heap \<Rightarrow> (buffer list \<times> buffer \<times> heap) option" where
  "buffer_split_loop ch include_empty b vec h = do {
     found \<leftarrow> buffer_find ch 0 b h;
     (case found of
        None \<Rightarrow>
          if \<not> buffer_empty b then buffer_push_back vec b h
          else if include_empty then Some (vec @ [buffer_new], b, h)
          else Some (vec, b, h)
      | Some off \<Rightarrow> do {
          (vec, b, h) \<leftarrow>
            (if off \<noteq> 0 then do {
               (b, clip, h) \<leftarrow> buffer_skip b off (Some buffer_new) h;
               buf \<leftarrow> clip;
               (vec, _, h) \<leftarrow> buffer_push_back vec buf h;
               Some (vec, b, h) }
             else if include_empty then Some (vec @ [buffer_new], b, h)
             else Some (vec, b, h));
          (b, _, h) \<leftarrow> buffer_skip b 1 None h;
          buffer_split_loop ch include_empty b vec h }) }"

definition buffer_split ::
  "byte \<Rightarrow> bool \<Rightarrow> buffer \<Rightarrow> heap \<Rightarrow> (buffer list \<times> buffer \<times> heap) option" where
  "buffer_split ch include_empty b h =
     (if buffer_empty b then Some (if include_empty then [buffer_new] else [], b, h)
      else buffer_split_loop ch include_empty b [] h)"

fun buffer_join_all :: "buffer \<Rightarrow> buffer list \<Rightarrow> heap \<Rightarrow> (buffer \<times> heap) option" where
  "buffer_join_all buf [] h = Some (buf, h)"
| "buffer_join_all buf (b # vec) h = do {
     (buf, h) \<leftarrow> buffer_append_buffer buf b h;
     buffer_join_all buf vec h }"

fun buffer_join_delim :: "buffer \<Rightarrow> buffer \<Rightarrow> buffer list \<Rightarrow> heap \<Rightarrow> (buffer \<times> heap) option" where
  "buffer_join_delim delim buf [] h = None"
| "buffer_join_delim delim buf (b # vec) h = do {
     (buf, h) \<leftarrow> buffer_append_buffer buf b h;
     (if vec = [] then Some (buf, h)
      else do {
        (buf, h) \<leftarrow> buffer_append_buffer buf delim h;
        buffer_join_delim delim buf vec h }) }"

definition buffer_join :: "buffer list \<Rightarrow> bytes \<Rightarrow> heap \<Rightarrow> (buffer \<times> heap) option" where
  "buffer_join vec sep h =
     (if vec = [] then Some (buffer_new, h)
      else if length vec = 1 then buffer_copy (hd vec) h
      else if sep = [] then buffer_join_all buffer_new vec h
      else do {
        (delim, h) \<leftarrow> buffer_append_bytes buffer_new sep h;
        (buf, h) \<leftarrow> buffer_join_delim delim buffer_new vec h;
        (_, h) \<leftarrow> buffer_clear delim h;
        Some (buf, h) })"

end
