(* ===== verification/Buffer_Refine.thy ===== *)
theory Buffer_Refine
  imports Buffer
begin

text \<open>
  The operations of class Buffer on the store implement the operations on contents of the
  theory Buffer_Spec.  \<open>owns h b F\<close> says that Buffer \<open>b\<close> is well-formed and that its
  segment list and the frame \<open>F\<close> (the references of all other Buffers, of caches and
  windows) account for all reference counts.  Each refinement lemma has the same shape:
  when the operation on contents succeeds, the code fails no assertion, frees nothing
  that is still referenced, leaves the bytes seen through \<open>F\<close> as they are, and the new
  contents are those of the specification.
\<close>

section \<open>Contents\<close>

definition bytes_of :: "heap \<Rightarrow> nat list \<Rightarrow> bytes" where
  "bytes_of h as = concat (map (seg_bytes h) as)"

definition contents :: "heap \<Rightarrow> buffer \<Rightarrow> bytes" where
  "contents h b = bytes_of h (bf_data b)"

definition solid :: "heap \<Rightarrow> nat list \<Rightarrow> bool" where
  "solid h as \<longleftrightarrow> (\<forall>a\<in>set as. seg_bytes h a \<noteq> [])"

definition buffer_wf :: "heap \<Rightarrow> buffer \<Rightarrow> bool" where
  "buffer_wf h b \<longleftrightarrow> solid h (bf_data b) \<and> bf_length b = length (contents h b)"

definition owns :: "heap \<Rightarrow> buffer \<Rightarrow> nat multiset \<Rightarrow> bool" where
  "owns h b F \<longleftrightarrow> heap_ok h (mset (bf_data b) + F) \<and> buffer_wf h b"

lemma bytes_of_simps [simp]:
  "bytes_of h [] = []" "bytes_of h (a # as) = seg_bytes h a @ bytes_of h as"
  "bytes_of h (as @ bs) = bytes_of h as @ bytes_of h bs"
  by (simp_all add: bytes_of_def)

lemma solid_simps [simp]:
  "solid h []" "solid h (a # as) \<longleftrightarrow> seg_bytes h a \<noteq> [] \<and> solid h as"
  "solid h (as @ bs) \<longleftrightarrow> solid h as \<and> solid h bs" "solid h (rev as) \<longleftrightarrow> solid h as"
  by (auto simp: solid_def)

lemma keeps_bytes_of:
  assumes "keeps F h h'" and "set as \<subseteq> set_mset F"
  shows "bytes_of h' as = bytes_of h as" "solid h' as \<longleftrightarrow> solid h as"
proof -
  have "seg_bytes h' a = seg_bytes h a" if "a \<in> set as" for a using assms that keepsD by blast
  then show "bytes_of h' as = bytes_of h as" "solid h' as \<longleftrightarrow> solid h as"
    by (simp_all add: bytes_of_def solid_def cong: map_cong)
qed

lemma same_bytes_of:
  "seg_bytes h' = seg_bytes h \<Longrightarrow> bytes_of h' = bytes_of h \<and> solid h' = solid h"
  by (intro conjI ext) (simp_all add: bytes_of_def solid_def)

lemma same_keeps: "seg_bytes h' = seg_bytes h \<Longrightarrow> keeps F h h'"
  by (simp add: keeps_def)

lemma bytes_of_eq_Nil: "solid h as \<Longrightarrow> bytes_of h as = [] \<longleftrightarrow> as = []"
  by (cases as) auto

lemma buffer_empty_iff: "buffer_wf h b \<Longrightarrow> buffer_empty b \<longleftrightarrow> contents h b = []"
  by (simp add: buffer_wf_def buffer_empty_def contents_def bytes_of_eq_Nil)

lemma seg_access_ok:
  assumes "heap_ok h R" and "a \<in># R"
  shows "seg_view a h = Some (length (seg_bytes h a), seg_bytes h a)"
    and "seg_size a h = Some (length (seg_bytes h a))"
    and "seg_bytes h a \<noteq> [] \<Longrightarrow> seg_read a h = Some (seg_bytes h a)"
proof -
  obtain s where "hp_segs h a = Some s" "seg_bytes h a = seg_data s" "length (seg_data s) = sg_length s"
    using heap_ok_get [OF assms] by blast
  then show "seg_view a h = Some (length (seg_bytes h a), seg_bytes h a)"
    and "seg_size a h = Some (length (seg_bytes h a))"
    and "seg_bytes h a \<noteq> [] \<Longrightarrow> seg_read a h = Some (seg_bytes h a)"
    by (auto simp: seg_view_def seg_size_def seg_read_def simp flip: length_greater_0_conv)
qed

section \<open>append\<close>

lemma buffer_append_segment_ok:
  assumes ok: "heap_ok h R" and a: "a \<in># R" "seg_bytes h a \<noteq> []"
  obtains h' where "buffer_append_segment b a h =
      Some (\<lparr>bf_length = bf_length b + length (seg_bytes h a), bf_data = bf_data b @ [a]\<rparr>, h')"
    "heap_ok h' (add_mset a R)" "seg_bytes h' = seg_bytes h"
proof -
  obtain h' where "seg_ref a h = Some h'" "heap_ok h' (add_mset a R)" "seg_bytes h' = seg_bytes h"
    by (rule seg_ref_ok [OF ok a(1)])
  then show ?thesis using a by (intro that [of h']) (simp_all add: buffer_append_segment_def seg_access_ok [OF ok])
qed

lemma buffer_append_segments_ok:
  assumes "heap_ok h R" and "set as \<subseteq> set_mset R" and "solid h as"
  shows "\<exists>h'. buffer_append_segments b as h =
      Some (\<lparr>bf_length = bf_length b + length (bytes_of h as), bf_data = bf_data b @ as\<rparr>, h') \<and>
    heap_ok h' (mset as + R) \<and> seg_bytes h' = seg_bytes h"
  using assms
proof (induction as arbitrary: b h R)
  case Nil
  then show ?case by simp
next
  case (Cons a as)
  let ?b = "\<lparr>bf_length = bf_length b + length (seg_bytes h a), bf_data = bf_data b @ [a]\<rparr>"
  obtain h1 where h1: "buffer_append_segment b a h = Some (?b, h1)" "heap_ok h1 (add_mset a R)" "seg_bytes h1 = seg_bytes h"
    using Cons.prems by (elim buffer_append_segment_ok [of h R a b]) auto
  have "bytes_of h1 = bytes_of h" "solid h1 = solid h" using same_bytes_of [OF h1(3)] by simp_all
  with Cons.IH [OF h1(2), of ?b] Cons.prems h1 show ?case by (auto simp: add.assoc)
qed

lemma buffer_append_buffer_ok:
  assumes own: "owns h b (mset (bf_data c) + F)" and c: "buffer_wf h c"
  obtains b' h' where "buffer_append_buffer b c h = Some (b', h')" "owns h' b' (mset (bf_data c) + F)"
    "contents h' b' = contents h b @ contents h c" "seg_bytes h' = seg_bytes h"
    "bf_data b' = bf_data b @ bf_data c"
proof -
  let ?b = "\<lparr>bf_length = bf_length b + length (contents h c), bf_data = bf_data b @ bf_data c\<rparr>"
  let ?R = "mset (bf_data b) + (mset (bf_data c) + F)"
  have ok: "heap_ok h ?R" and b: "buffer_wf h b" using own by (simp_all add: owns_def)
  obtain h' where h': "buffer_append_buffer b c h = Some (?b, h')" "heap_ok h' (mset (bf_data c) + ?R)"
      "seg_bytes h' = seg_bytes h"
    using buffer_append_segments_ok [OF ok, of "bf_data c" b] c
    by (auto simp: buffer_append_buffer_def contents_def buffer_wf_def)
  have "buffer_wf h' ?b" using b c same_bytes_of [OF h'(3)] by (auto simp: buffer_wf_def contents_def)
  then have "owns h' ?b (mset (bf_data c) + F)" using h'(2) by (simp add: owns_def ac_simps)
  with h' show ?thesis using same_bytes_of [OF h'(3)] by (intro that [of ?b h']) (simp_all add: contents_def)
qed

lemma buffer_append_new_ok:
  assumes own: "owns h b F" and buf: "buf \<noteq> []" "length buf \<le> BUFFER_SEGMENT_SIZE"
  obtains b' h' where "buffer_append_new b buf h = Some (b', h')" "owns h' b' F"
    "contents h' b' = contents h b @ buf" "keeps F h h'"
proof -
  let ?R = "mset (bf_data b) + F"
  have ok: "heap_ok h ?R" and wf: "buffer_wf h b" using own by (simp_all add: owns_def)
  obtain a h1 where c: "seg_create buf h = Some (a, h1)" "heap_ok h1 (add_mset a ?R)" "seg_bytes h1 a = buf" "a \<notin># ?R"
      "keeps ?R h h1"
    by (rule seg_create_ok [OF ok buf])
  define b' where "b' = \<lparr>bf_length = bf_length b + length buf, bf_data = bf_data b @ [a]\<rparr>"
  obtain h2 where ap: "buffer_append_segment b a h1 = Some (b', h2)" "heap_ok h2 (add_mset a (add_mset a ?R))"
      "seg_bytes h2 = seg_bytes h1"
    using buf(1) c(3) by (auto simp: b'_def intro: buffer_append_segment_ok [OF c(2), of a b])
  obtain h3 where u: "seg_unref a h2 = Some h3" "heap_ok h3 (add_mset a ?R)" "keeps (add_mset a ?R) h2 h3"
    by (rule seg_unref_ok [OF ap(2)])
  have k: "keeps ?R h h3"
    using c(5) u(3) ap(3) by (auto simp: keeps_def)
  have a3: "seg_bytes h3 a = buf" using keepsD [OF u(3), of a] ap(3) c(3) by simp
  have "buffer_wf h3 b'" "contents h3 b' = contents h b @ buf"
    using wf keeps_bytes_of [OF k, of "bf_data b"] a3 buf(1) by (auto simp: buffer_wf_def contents_def b'_def)
  moreover have "heap_ok h3 (mset (bf_data b') + F)" using u(2) by (simp add: b'_def)
  moreover have "keeps F h h3" by (rule keeps_subset [OF k]) auto
  ultimately show ?thesis using c(1) ap(1) u(1)
    by (intro that [of b' h3]) (simp_all add: buffer_append_new_def owns_def)
qed

lemma buffer_append_complete_ok:
  assumes "owns h b F"
  shows "\<exists>b' rest h'. buffer_append_complete b buf h = Some (b', rest, h') \<and> owns h' b' F \<and>
    contents h' b' @ rest = contents h b @ buf \<and> length rest < BUFFER_SEGMENT_SIZE \<and> keeps F h h'"
  using assms
proof (induction "length buf" arbitrary: b buf h rule: less_induct)
  case less
  show ?case
  proof (cases "length buf < BUFFER_SEGMENT_SIZE")
    case True
    then show ?thesis using less.prems by (subst buffer_append_complete.simps) simp
  next
    case False
    then have t: "take BUFFER_SEGMENT_SIZE buf \<noteq> []" "length (take BUFFER_SEGMENT_SIZE buf) \<le> BUFFER_SEGMENT_SIZE"
      by (auto simp: BUFFER_SEGMENT_SIZE_def)
    obtain b1 h1 where n: "buffer_append_new b (take BUFFER_SEGMENT_SIZE buf) h = Some (b1, h1)" "owns h1 b1 F"
        "contents h1 b1 = contents h b @ take BUFFER_SEGMENT_SIZE buf" "keeps F h h1"
      by (rule buffer_append_new_ok [OF less.prems t])
    have "length (drop BUFFER_SEGMENT_SIZE buf) < length buf" using False by (simp add: BUFFER_SEGMENT_SIZE_def)
    from less.hyps [OF this n(2)] obtain b' rest h' where
      "buffer_append_complete b1 (drop BUFFER_SEGMENT_SIZE buf) h1 = Some (b', rest, h')" "owns h' b' F"
      "contents h' b' @ rest = contents h1 b1 @ drop BUFFER_SEGMENT_SIZE buf" "length rest < BUFFER_SEGMENT_SIZE" "keeps F h1 h'"
      by blast
    then show ?thesis using n False keeps_trans [OF n(4)] by (subst buffer_append_complete.simps) auto
  qed
qed

text \<open>Appending in place to the last segment: the other segments of the Buffer are part of the
  frame.\<close>

lemma buffer_append_last_ok:
  assumes own: "owns h b F" and ne: "bf_data b \<noteq> []" and buf: "buf \<noteq> []"
    and room: "length (seg_bytes h (last (bf_data b))) + length buf \<le> BUFFER_SEGMENT_SIZE"
  obtains a h' where "seg_append (last (bf_data b)) buf h = Some (a, h')"
    "owns h' \<lparr>bf_length = bf_length b + length buf, bf_data = butlast (bf_data b) @ [a]\<rparr> F"
    "contents h' \<lparr>bf_length = bf_length b + length buf, bf_data = butlast (bf_data b) @ [a]\<rparr> = contents h b @ buf"
    "keeps F h h'"
proof -
  obtain xs x where d: "bf_data b = xs @ [x]" using ne by (cases "bf_data b" rule: rev_cases) auto
  let ?F = "mset xs + F"
  have ok: "heap_ok h (add_mset x ?F)" and wf: "buffer_wf h b" using own d by (simp_all add: owns_def)
  have x: "seg_bytes h x \<noteq> []" using wf d by (simp add: buffer_wf_def)
  obtain a h' where a: "seg_append x buf h = Some (a, h')" "replaces (\<lambda>bs. bs @ buf) x h ?F a h'"
    using seg_append_ok [OF ok buf x, of thesis] room d by auto
  have k: "keeps ?F h h'" and ok': "heap_ok h' (add_mset a ?F)" and bs: "seg_bytes h' a = seg_bytes h x @ buf"
    using a(2) by (simp_all add: replaces_def)
  let ?b = "\<lparr>bf_length = bf_length b + length buf, bf_data = xs @ [a]\<rparr>"
  have "contents h' ?b = contents h b @ buf" "buffer_wf h' ?b"
    using wf d keeps_bytes_of [OF k, of xs] bs x by (auto simp: contents_def buffer_wf_def)
  moreover have "keeps F h h'" by (rule keeps_subset [OF k]) auto
  ultimately show ?thesis using a(1) ok' d by (intro that [of a h']) (simp_all add: owns_def)
qed

lemma buffer_append_bytes_ok:
  assumes own: "owns h b F" and buf: "buf \<noteq> []"
  obtains b' h' where "buffer_append_bytes b buf h = Some (b', h')" "owns h' b' F"
    "contents h' b' = contents h b @ buf" "keeps F h h'"
proof -
  define room where "room = (if length buf < BUFFER_SEGMENT_SIZE \<and> \<not> buffer_empty b then do {
          s \<leftarrow> hp_segs h (last (bf_data b));
          Some (refcount_exclusive (sg_ref s) \<and> length buf \<le> seg_avail s) } else Some False)"
  show ?thesis
  proof (cases "room = Some True")
    case True
    then have ne: "bf_data b \<noteq> []" by (auto simp: room_def buffer_empty_def split: if_splits)
    obtain s where s: "hp_segs h (last (bf_data b)) = Some s" "length buf \<le> seg_avail s"
      using True by (auto simp: room_def bind_eq_Some_conv split: if_splits)
    have "length (seg_bytes h (last (bf_data b))) = sg_length s" "sg_length s \<le> BUFFER_SEGMENT_SIZE"
      using own s(1) length_seg_bytes [of h _ _ s] heap_ok_cell [of h "mset (bf_data b) + F" "last (bf_data b)"]
      by (auto simp: owns_def seg_ok_def)
    then have "length (seg_bytes h (last (bf_data b))) + length buf \<le> BUFFER_SEGMENT_SIZE"
      using s(2) by (simp add: seg_avail_def)
    from buffer_append_last_ok [OF own ne buf this] obtain a h' where
      "seg_append (last (bf_data b)) buf h = Some (a, h')"
      "owns h' \<lparr>bf_length = bf_length b + length buf, bf_data = butlast (bf_data b) @ [a]\<rparr> F"
      "contents h' \<lparr>bf_length = bf_length b + length buf, bf_data = butlast (bf_data b) @ [a]\<rparr> = contents h b @ buf"
      "keeps F h h'" by blast
    then show ?thesis using True buf by (intro that) (simp_all add: buffer_append_bytes_def flip: room_def)
  next
    case False
    have "room \<noteq> None"
    proof (cases "bf_data b = []")
      case False
      then have "last (bf_data b) \<in># mset (bf_data b) + F" by simp
      then obtain s where "hp_segs h (last (bf_data b)) = Some s" using own heap_ok_get unfolding owns_def by blast
      then show ?thesis by (auto simp: room_def)
    qed (simp add: room_def buffer_empty_def)
    with False have r: "room = Some False" by auto
    obtain b1 rest h1 where c: "buffer_append_complete b buf h = Some (b1, rest, h1)" "owns h1 b1 F"
        "contents h1 b1 @ rest = contents h b @ buf" "length rest < BUFFER_SEGMENT_SIZE" "keeps F h h1"
      using buffer_append_complete_ok [OF own] by blast
    show ?thesis
    proof (cases "rest = []")
      case True
      then show ?thesis using c r buf by (intro that [of b1 h1]) (simp_all add: buffer_append_bytes_def flip: room_def)
    next
      case False
      obtain b2 h2 where "buffer_append_new b1 rest h1 = Some (b2, h2)" "owns h2 b2 F"
          "contents h2 b2 = contents h1 b1 @ rest" "keeps F h1 h2"
        by (rule buffer_append_new_ok [OF c(2) False]) (use c(4) in simp)
      then show ?thesis using c r buf False keeps_trans [OF c(5)]
        by (intro that [of b2 h2]) (simp_all add: buffer_append_bytes_def flip: room_def)
    qed
  qed
qed

section \<open>clear\<close>

lemma buffer_clear_loop_ok:
  assumes "heap_ok h (mset as + F)"
  shows "\<exists>h'. buffer_clear_loop as (length (bytes_of h as) + n) h = Some (n, h') \<and> heap_ok h' F \<and> keeps F h h'"
  using assms
proof (induction as arbitrary: h)
  case (Cons a as)
  have ok: "heap_ok h (add_mset a (mset as + F))" using Cons.prems by simp
  obtain h1 where u: "seg_unref a h = Some h1" "heap_ok h1 (mset as + F)" "keeps (mset as + F) h h1"
    by (rule seg_unref_ok [OF ok])
  have "bytes_of h1 as = bytes_of h as" by (rule keeps_bytes_of [OF u(3)]) auto
  moreover have "keeps F h h1" by (rule keeps_subset [OF u(3)]) auto
  ultimately show ?case
    using Cons.IH [OF u(2)] u(1) seg_access_ok [OF ok, of a] keeps_trans [of F h h1] by auto
qed simp

lemma buffer_clear_ok:
  assumes own: "owns h b F"
  obtains h' where "buffer_clear b h = Some (buffer_new, h')" "heap_ok h' F" "keeps F h h'"
proof -
  obtain h' where "buffer_clear_loop (bf_data b) (bf_length b) h = Some (0, h')" "heap_ok h' F" "keeps F h h'"
    using buffer_clear_loop_ok [of h "bf_data b" F 0] own by (auto simp: owns_def buffer_wf_def contents_def)
  then show ?thesis by (intro that [of h']) (simp_all add: buffer_clear_def buffer_new_def)
qed

section \<open>copyout\<close>

lemma seg_copyout_ok:
  assumes "heap_ok h R" and "a \<in># R" and "0 < n" and "k + n \<le> length (seg_bytes h a)"
  shows "seg_copyout a k n h = Some (take n (drop k (seg_bytes h a)))"
proof -
  obtain s where "hp_segs h a = Some s" "seg_bytes h a = seg_data s" "length (seg_data s) = sg_length s"
    using heap_ok_get [OF assms(1,2)] by blast
  then show ?thesis using assms(3,4) by (simp add: seg_copyout_def)
qed

lemma buffer_copyout_loop_ok:
  assumes "heap_ok h R" and "set as \<subseteq> set_mset R" and "0 < n" and "k + n \<le> length (bytes_of h as)"
  shows "buffer_copyout_loop as k n h = Some (take n (drop k (bytes_of h as)))"
  using assms(2-)
proof (induction as arbitrary: k n)
  case (Cons a as)
  let ?x = "seg_bytes h a"
  have a: "a \<in># R" using Cons.prems by simp
  consider "length ?x \<le> k" | "k < length ?x" "length ?x - k < n" | "k < length ?x" "n \<le> length ?x - k" by linarith
  then show ?case
  proof cases
    case 1
    then show ?thesis using Cons.IH [of n "k - length ?x"] Cons.prems seg_access_ok [OF assms(1) a] by simp
  next
    case 2
    moreover from this have "seg_copyout a k (length ?x - k) h = Some (drop k ?x)"
      using seg_copyout_ok [OF assms(1) a, of "length ?x - k" k] by simp
    ultimately show ?thesis
      using Cons.IH [of "n - (length ?x - k)" 0] Cons.prems seg_access_ok [OF assms(1) a] by (simp add: Let_def)
  next
    case 3
    then show ?thesis using seg_copyout_ok [OF assms(1) a, of n k] Cons.prems seg_access_ok [OF assms(1) a]
      by (simp add: Let_def)
  qed
qed simp

lemma buffer_copyout_ok:
  assumes own: "owns h b F" and spec: "buf_copyout (contents h b) offset n = Some x"
  shows "buffer_copyout b offset n h = Some x"
  using buffer_copyout_loop_ok [of h "mset (bf_data b) + F" "bf_data b" n offset] own spec
  by (auto simp: buffer_copyout_def buf_copyout_def owns_def buffer_wf_def contents_def)

lemma owns_front:
  assumes "owns h b F" and "contents h b \<noteq> []"
  obtains a as where "bf_data b = a # as" "heap_ok h (add_mset a (mset as + F))" "seg_bytes h a \<noteq> []" "solid h as"
    "contents h b = seg_bytes h a @ bytes_of h as"
  using assms by (cases "bf_data b") (auto simp: owns_def buffer_wf_def contents_def)

lemma owns_with:
  assumes own: "owns h b F" and ok: "heap_ok h' (add_mset a (mset (bf_data b) + F))"
    and k: "keeps (mset (bf_data b) + F) h h'"
  shows "owns h' b (add_mset a F)" "contents h' b = contents h b" "keeps F h h'"
proof -
  have "bytes_of h' (bf_data b) = bytes_of h (bf_data b)" "solid h' (bf_data b) = solid h (bf_data b)"
    using keeps_bytes_of [OF k, of "bf_data b"] by auto
  then show "owns h' b (add_mset a F)" "contents h' b = contents h b"
    using ok own by (simp_all add: owns_def buffer_wf_def contents_def)
  show "keeps F h h'" by (rule keeps_subset [OF k]) auto
qed

text \<open>Filling a fresh copy of the first segment up to the requested length.\<close>

lemma seg_fill_ok:
  assumes ok: "heap_ok h (add_mset a R)" and a: "a \<notin># R" and s: "hp_segs h a = Some s" "sg_offset s = 0"
    and rest: "length rest = n - sg_length s" "sg_length s \<le> n" "n \<le> BUFFER_SEGMENT_SIZE"
  obtains data h' where "mem_write (sg_offset s + sg_length s) rest (sg_data s) = Some data"
    "seg_set_length a n (heap_put a (s\<lparr>sg_data := data\<rparr>) h) = Some h'"
    "replaces (\<lambda>bs. bs @ rest) a h R a h'"
proof -
  have sok: "seg_ok s" "refcount_exclusive (sg_ref s)" using heap_ok_cell [OF ok, of a] s(1) heap_ok_excl [OF ok s(1)] a by auto
  define data where "data = take (sg_length s) (sg_data s) @ rest @ drop n (sg_data s)"
  let ?s = "s\<lparr>sg_data := data, sg_length := n\<rparr>"
  have "seg_data ?s = seg_data s @ rest" using s(2) rest sok(1) by (simp add: seg_data_def data_def seg_ok_def)
  then have "replaces (\<lambda>bs. bs @ rest) a h R a (heap_put a ?s h)"
    using sok rest s(2) by (intro replaces_in_place [OF ok s(1) a]) (auto simp: seg_ok_def data_def)
  then show ?thesis using sok s rest
    by (intro that [of data "heap_put a ?s h"])
      (auto simp: mem_write_def data_def seg_ok_def seg_set_length_def heap_put_def)
qed

lemma buffer_copyout_gather_ok:
  assumes own: "owns h b F" and n: "n \<le> BUFFER_SEGMENT_SIZE" "n \<le> length (contents h b)"
    and d: "bf_data b = a # as" and lt: "length (seg_bytes h a) < n"
  obtains a' h' where "buffer_copyout_segment b n h = Some (a', h')" "heap_ok h' (add_mset a' (mset (bf_data b) + F))"
    "seg_bytes h' a' = take n (contents h b)" "keeps (mset (bf_data b) + F) h h'"
proof -
  let ?R = "mset (bf_data b) + F" and ?x = "seg_bytes h a"
  have ok: "heap_ok h ?R" and aR: "a \<in># ?R" and ne: "?x \<noteq> []" and len: "bf_length b = length (contents h b)"
    using own d by (auto simp: owns_def buffer_wf_def)
  obtain s where s: "hp_segs h a = Some s" "?x = seg_data s" "length (seg_data s) = sg_length s" "seg_ok s"
    using heap_ok_get [OF ok aR] by blast
  have x: "length ?x \<le> BUFFER_SEGMENT_SIZE" "sg_length s \<noteq> 0" 
    using s ne lt n by (auto simp flip: length_greater_0_conv)
  obtain a' h1 s1 where k: "seg_create ?x h = Some (a', h1)" "heap_ok h1 (add_mset a' ?R)" "seg_bytes h1 a' = ?x"
      "a' \<notin># ?R" "keeps ?R h h1" "hp_segs h1 a' = Some s1" "sg_offset s1 = 0"
    by (rule seg_create_ok [OF ok ne x(1)])
  have l1: "sg_length s1 = length ?x" using length_seg_bytes [OF k(2,6)] k(3) by simp
  have ex: "refcount_exclusive (sg_ref s1)" using heap_ok_excl [OF k(2,6)] k(4) by simp
  define rest where "rest = take (n - length ?x) (bytes_of h as)"
  have c: "contents h b = ?x @ bytes_of h as" using d by (simp add: contents_def)
  have co: "buffer_copyout b (length ?x) (n - length ?x) h1 = Some rest"
    by (rule buffer_copyout_ok [OF owns_with(1) [OF own k(2,5)]])
      (use owns_with(2) [OF own k(2,5)] c lt n in \<open>simp add: buf_copyout_def rest_def\<close>)
  have "length rest = n - sg_length s1" "sg_length s1 \<le> n" using n c lt l1 by (simp_all add: rest_def)
  then obtain data h2 where f: "mem_write (sg_offset s1 + sg_length s1) rest (sg_data s1) = Some data"
      "seg_set_length a' n (heap_put a' (s1\<lparr>sg_data := data\<rparr>) h1) = Some h2" "replaces (\<lambda>bs. bs @ rest) a' h1 ?R a' h2"
    using n(1) by (rule seg_fill_ok [OF k(2,4,6,7)])
  have "buffer_copyout_segment b n h = Some (a', h2)"
    using lt n len d seg_access_ok [OF ok aR] s k(1,6) x ex co f(1,2) l1
    by (simp add: buffer_copyout_segment_def seg_copy_def)
  moreover have "heap_ok h2 (add_mset a' ?R)" "keeps ?R h h2" "seg_bytes h2 a' = take n (contents h b)"
    using f(3) k(3,5) c lt by (auto simp: replaces_def rest_def intro: keeps_trans)
  ultimately show ?thesis by (intro that)
qed

text \<open>The segment returned is a reference of the caller's: shared with the Buffer, or a copy.\<close>

lemma buffer_copyout_segment_ok:
  assumes own: "owns h b F" and spec: "buf_copyout_segment (contents h b) n = Some x"
  obtains a' h' where "buffer_copyout_segment b n h = Some (a', h')" "owns h' b (add_mset a' F)"
    "seg_bytes h' a' = x" "contents h' b = contents h b" "keeps F h h'"
proof -
  let ?R = "mset (bf_data b) + F"
  have n: "0 < n" "n \<le> BUFFER_SEGMENT_SIZE" "n \<le> length (contents h b)" and x: "x = take n (contents h b)"
    using spec by (auto simp: buf_copyout_segment_def split: if_splits)
  then have "contents h b \<noteq> []" by auto
  then obtain a as where d: "bf_data b = a # as" and c: "contents h b = seg_bytes h a @ bytes_of h as"
    using owns_front [OF own] by metis
  have ok: "heap_ok h ?R" and aR: "a \<in># ?R" and len: "bf_length b = length (contents h b)"
    using own d by (auto simp: owns_def buffer_wf_def)
  obtain h1 where r: "seg_ref a h = Some h1" "heap_ok h1 (add_mset a ?R)" "seg_bytes h1 = seg_bytes h"
    by (rule seg_ref_ok [OF ok aR])
  consider "length (seg_bytes h a) = n" | "n < length (seg_bytes h a)" | "length (seg_bytes h a) < n" by linarith
  then have "\<exists>a' h'. buffer_copyout_segment b n h = Some (a', h') \<and> heap_ok h' (add_mset a' ?R) \<and>
      seg_bytes h' a' = x \<and> keeps ?R h h'"
  proof cases
    case 1
    then show ?thesis using n len d r x c same_keeps [OF r(3)] seg_access_ok [OF ok aR]
      by (simp add: buffer_copyout_segment_def)
  next
    case 2
    have lt: "n < length (seg_bytes h1 a)" using 2 r(3) by simp
    obtain a' h' where t: "seg_truncate a n h1 = Some (a', h')" "replaces (take n) a h1 ?R a' h'"
      by (rule seg_truncate_ok [OF r(2) n(1) lt])
    then show ?thesis using n len d r 2 x c seg_access_ok [OF ok aR]
      by (auto simp: buffer_copyout_segment_def replaces_def keeps_def)
  next
    case 3
    show ?thesis using buffer_copyout_gather_ok [OF own n(2,3) d 3] x by metis
  qed
  then show ?thesis using that owns_with [OF own] by blast
qed

section \<open>Clipping\<close>

definition clip_refs :: "buffer option \<Rightarrow> nat multiset" where
  "clip_refs clip = (case clip of None \<Rightarrow> {#} | Some c \<Rightarrow> mset (bf_data c))"

definition clip_wf :: "heap \<Rightarrow> buffer option \<Rightarrow> bool" where
  "clip_wf h clip \<longleftrightarrow> (case clip of None \<Rightarrow> True | Some c \<Rightarrow> buffer_wf h c)"

text \<open>\<open>clipped h clip x h' clip'\<close>: \<open>x\<close> was appended to the Buffer \<^verbatim>\<open>clip\<close>, if there is one.\<close>

definition clipped :: "heap \<Rightarrow> buffer option \<Rightarrow> bytes \<Rightarrow> heap \<Rightarrow> buffer option \<Rightarrow> bool" where
  "clipped h clip x h' clip' \<longleftrightarrow>
     (case clip of
        None \<Rightarrow> clip' = None
      | Some c \<Rightarrow> (\<exists>c'. clip' = Some c' \<and> buffer_wf h' c' \<and> contents h' c' = contents h c @ x))"

lemma clip_simps [simp]:
  "clip_refs None = {#}" "clip_refs (Some c) = mset (bf_data c)" "clip_wf h None" "clip_wf h (Some c) = buffer_wf h c"
  by (simp_all add: clip_refs_def clip_wf_def)

lemma clipped_simps [simp]:
  "clipped h None x h' clip' \<longleftrightarrow> clip' = None"
  "clipped h (Some c) x h' clip' \<longleftrightarrow> (\<exists>c'. clip' = Some c' \<and> buffer_wf h' c' \<and> contents h' c' = contents h c @ x)"
  by (simp_all add: clipped_def)

lemma clipped_wf: "clipped h clip x h' clip' \<Longrightarrow> clip_wf h' clip'"
  by (cases clip) auto

lemma clipped_trans:
  "clipped h clip x h1 clip1 \<Longrightarrow> clipped h1 clip1 y h2 clip2 \<Longrightarrow> clipped h clip (x @ y) h2 clip2"
  by (cases clip) auto

lemma keeps_buffer:
  assumes "keeps R h h'" and "set (bf_data b) \<subseteq> set_mset R"
  shows "contents h' b = contents h b" "buffer_wf h' b \<longleftrightarrow> buffer_wf h b"
  using keeps_bytes_of [OF assms] by (simp_all add: contents_def buffer_wf_def)

lemma clipped_keeps:
  "clipped h clip x h1 clip1 \<Longrightarrow> keeps R h1 h2 \<Longrightarrow> set_mset (clip_refs clip1) \<subseteq> set_mset R \<Longrightarrow>
     clipped h clip x h2 clip1"
  by (cases clip) (auto simp: keeps_buffer)

lemma clipped_refl: "clip_wf h clip \<Longrightarrow> clipped h clip [] h clip"
  by (cases clip) auto

lemma clip_segment_ok:
  assumes ok: "heap_ok h (clip_refs clip + R)" and a: "a \<in># R" "seg_bytes h a \<noteq> []" and wf: "clip_wf h clip"
  obtains clip' h' where "clip_segment clip a h = Some (clip', h')" "heap_ok h' (clip_refs clip' + R)"
    "seg_bytes h' = seg_bytes h" "clipped h clip (seg_bytes h a) h' clip'"
proof (cases clip)
  case None
  then show ?thesis using ok by (intro that [of None h]) (simp_all add: clip_segment_def)
next
  case (Some c)
  have aR: "a \<in># clip_refs clip + R" using a by simp
  let ?c = "\<lparr>bf_length = bf_length c + length (seg_bytes h a), bf_data = bf_data c @ [a]\<rparr>"
  obtain h' where h': "buffer_append_segment c a h = Some (?c, h')" "heap_ok h' (add_mset a (clip_refs clip + R))"
      "seg_bytes h' = seg_bytes h"
    by (rule buffer_append_segment_ok [OF ok aR a(2), of c])
  moreover have "buffer_wf h' ?c" "contents h' ?c = contents h c @ seg_bytes h a"
    using wf Some same_bytes_of [OF h'(3)] a(2) h'(3) by (simp_all add: buffer_wf_def contents_def)
  ultimately show ?thesis using Some by (intro that [of "Some ?c" h']) (simp_all add: clip_segment_def)
qed

lemma clip_bytes_ok:
  assumes ok: "heap_ok h (clip_refs clip + R)" and x: "x \<noteq> []" and wf: "clip_wf h clip"
  obtains clip' h' where "clip_bytes clip x h = Some (clip', h')" "heap_ok h' (clip_refs clip' + R)"
    "keeps R h h'" "clipped h clip x h' clip'"
proof (cases clip)
  case None
  then show ?thesis using ok by (intro that [of None h]) (simp_all add: clip_bytes_def)
next
  case (Some c)
  then have "owns h c R" using ok wf by (simp add: owns_def)
  then obtain c' h' where "buffer_append_bytes c x h = Some (c', h')" "owns h' c' R"
      "contents h' c' = contents h c @ x" "keeps R h h'"
    using x by (rule buffer_append_bytes_ok)
  then show ?thesis using Some by (intro that [of "Some c'" h']) (simp_all add: clip_bytes_def owns_def)
qed

text \<open>Moving the front segment to the clip and dropping the Buffer's reference.\<close>

lemma clip_front_ok:
  assumes ok: "heap_ok h (clip_refs clip + add_mset a R)" and a: "seg_bytes h a \<noteq> []" and wf: "clip_wf h clip"
  obtains clip' h1 h2 where "clip_segment clip a h = Some (clip', h1)" "seg_unref a h1 = Some h2"
    "heap_ok h2 (clip_refs clip' + R)" "keeps R h h2" "clipped h clip (seg_bytes h a) h2 clip'"
proof -
  have aR: "a \<in># add_mset a R" by simp
  obtain clip' h1 where c: "clip_segment clip a h = Some (clip', h1)" "heap_ok h1 (clip_refs clip' + add_mset a R)"
      "seg_bytes h1 = seg_bytes h" "clipped h clip (seg_bytes h a) h1 clip'"
    by (rule clip_segment_ok [OF ok aR a wf])
  have ok1: "heap_ok h1 (add_mset a (clip_refs clip' + R))" using c(2) by simp
  obtain h2 where u: "seg_unref a h1 = Some h2" "heap_ok h2 (clip_refs clip' + R)" "keeps (clip_refs clip' + R) h1 h2"
    by (rule seg_unref_ok [OF ok1])
  have "keeps R h h2" using u(3) c(3) by (auto simp: keeps_def)
  moreover have "clipped h clip (seg_bytes h a) h2 clip'" by (rule clipped_keeps [OF c(4) u(3)]) auto
  ultimately show ?thesis using c(1) u by (intro that)
qed

text \<open>Copying a part of a segment to the clip and then changing the segment.\<close>

lemma clip_part_ok:
  assumes ok: "heap_ok h (clip_refs clip + add_mset a R)" and x: "x \<noteq> []" and wf: "clip_wf h clip"
    and op: "\<And>h1 G. heap_ok h1 (add_mset a G) \<Longrightarrow> seg_bytes h1 a = seg_bytes h a \<Longrightarrow>
      \<exists>a' h2. op h1 = Some (a', h2) \<and> replaces f a h1 G a' h2"
  obtains clip' h1 a' h2 where "clip_bytes clip x h = Some (clip', h1)" "op h1 = Some (a', h2)"
    "heap_ok h2 (clip_refs clip' + add_mset a' R)" "seg_bytes h2 a' = f (seg_bytes h a)" "keeps R h h2"
    "clipped h clip x h2 clip'"
proof -
  obtain clip1 h1 where c: "clip_bytes clip x h = Some (clip1, h1)"
      "heap_ok h1 (clip_refs clip1 + add_mset a R)" "keeps (add_mset a R) h h1" "clipped h clip x h1 clip1"
    by (rule clip_bytes_ok [OF ok x wf])
  have ok1: "heap_ok h1 (add_mset a (clip_refs clip1 + R))" and x1: "seg_bytes h1 a = seg_bytes h a"
    using c(2) keepsD [OF c(3), of a] by simp_all
  obtain a' h2 where sk: "op h1 = Some (a', h2)" "replaces f a h1 (clip_refs clip1 + R) a' h2"
    using op [OF ok1 x1] by blast
  have k2: "keeps (clip_refs clip1 + R) h1 h2" and x2: "seg_bytes h2 a' = f (seg_bytes h a)"
    and ok2: "heap_ok h2 (clip_refs clip1 + add_mset a' R)"
    using sk(2) x1 by (simp_all add: replaces_def)
  have "keeps R h h2" using c(3) k2 by (auto simp: keeps_def)
  moreover have "clipped h clip x h2 clip1" by (rule clipped_keeps [OF c(4) k2]) auto
  ultimately show ?thesis using c(1) sk(1) ok2 x2 by (intro that)
qed

section \<open>skip\<close>

lemma buffer_skip_loop_ok:
  assumes "heap_ok h (clip_refs clip + (mset as + F))" and "solid h as" and "clip_wf h clip" and "skipped \<le> bytes"
  shows "\<exists>as' clip' h'. buffer_skip_loop as bytes skipped clip h =
      Some (as', skipped + min (bytes - skipped) (length (bytes_of h as)), clip', h') \<and>
    heap_ok h' (clip_refs clip' + (mset as' + F)) \<and> solid h' as' \<and>
    bytes_of h' as' = drop (bytes - skipped) (bytes_of h as) \<and>
    clipped h clip (take (bytes - skipped) (bytes_of h as)) h' clip' \<and> keeps F h h'"
  using assms
proof (induction as arbitrary: skipped clip h)
  case Nil
  then show ?case by (simp add: clipped_refl)
next
  case (Cons a as)
  let ?x = "seg_bytes h a" and ?R = "mset as + F"
  have ok: "heap_ok h (clip_refs clip + add_mset a ?R)" using Cons.prems by simp
  have a: "?x \<noteq> []" "seg_view a h = Some (length ?x, ?x)" using Cons.prems(2) seg_access_ok [OF ok, of a] by simp_all
  consider "skipped = bytes" | "skipped \<noteq> bytes" "length ?x \<le> bytes - skipped"
    | "skipped < bytes" "bytes - skipped < length ?x" using Cons.prems(4) by linarith
  then show ?case
  proof cases
    case 1
    then show ?thesis using Cons.prems by (simp add: clipped_refl)
  next
    case 2
    obtain clip1 h1 h2 where c: "clip_segment clip a h = Some (clip1, h1)" "seg_unref a h1 = Some h2"
        "heap_ok h2 (clip_refs clip1 + ?R)" "keeps ?R h h2" "clipped h clip ?x h2 clip1"
      by (rule clip_front_ok [OF ok a(1) Cons.prems(3)])
    have as: "bytes_of h2 as = bytes_of h as" "solid h2 as = solid h as"
      using keeps_bytes_of [OF c(4), of as] by auto
    have F: "keeps F h h2" by (rule keeps_subset [OF c(4)]) auto
    have "skipped + length ?x \<le> bytes" using 2 Cons.prems(4) by linarith
    from Cons.IH [OF c(3) _ clipped_wf [OF c(5)] this] as Cons.prems(2) obtain as' clip' h' where
      r: "buffer_skip_loop as bytes (skipped + length ?x) clip1 h2 =
          Some (as', skipped + length ?x + min (bytes - (skipped + length ?x)) (length (bytes_of h as)), clip', h')"
        "heap_ok h' (clip_refs clip' + (mset as' + F))" "solid h' as'"
        "bytes_of h' as' = drop (bytes - (skipped + length ?x)) (bytes_of h as)"
        "clipped h2 clip1 (take (bytes - (skipped + length ?x)) (bytes_of h as)) h' clip'" "keeps F h2 h'"
      by auto
    have "clipped h clip (take (bytes - skipped) (?x @ bytes_of h as)) h' clip'"
      using clipped_trans [OF c(5) r(5)] 2 by simp
    then show ?thesis using 2 a c(1,2) r keeps_trans [OF F r(6)] by (auto simp: min_def)
  next
    case 3
    let ?n = "bytes - skipped"
    have t: "take ?n ?x \<noteq> []" "0 < ?n" using 3 a(1) by auto
    obtain clip1 h1 a' h2 where c: "clip_bytes clip (take ?n ?x) h = Some (clip1, h1)" "seg_skip a ?n h1 = Some (a', h2)"
        "heap_ok h2 (clip_refs clip1 + add_mset a' ?R)" "seg_bytes h2 a' = drop ?n ?x" "keeps ?R h h2"
        "clipped h clip (take ?n ?x) h2 clip1"
      using clip_part_ok [OF ok t(1) Cons.prems(3), of "seg_skip a ?n" "drop ?n" thesis] seg_skip_ok 3(2) t(2) by metis
    have as: "bytes_of h2 as = bytes_of h as" "solid h2 as = solid h as" using keeps_bytes_of [OF c(5), of as] by auto
    have "keeps F h h2" by (rule keeps_subset [OF c(5)]) auto
    then show ?thesis using 3 a c as Cons.prems(2) by (auto simp: min_def)
  qed
qed

lemma owns_all_moved:
  assumes "owns h b (mset (bf_data c) + F)" and "buffer_wf h c"
  shows "owns h (fst (buffer_moveout_all c b)) F" "snd (buffer_moveout_all c b) = buffer_new"
    "contents h (fst (buffer_moveout_all c b)) = contents h c @ contents h b"
  using assms
  by (auto simp: buffer_moveout_all_def buffer_new_def owns_def buffer_wf_def contents_def buffer_empty_def add.assoc
      add.left_commute)

lemma clip_all_ok:
  assumes own: "owns h b (clip_refs clip + F)" and wf: "clip_wf h clip"
  obtains clip' h' where "clip_all clip b h = Some (buffer_new, clip', h')" "heap_ok h' (clip_refs clip' + F)"
    "clipped h clip (contents h b) h' clip'" "keeps F h h'"
proof (cases clip)
  case None
  then obtain h' where "buffer_clear b h = Some (buffer_new, h')" "heap_ok h' F" "keeps F h h'"
    using own by (auto elim: buffer_clear_ok)
  then show ?thesis using None by (intro that [of None h']) (simp_all add: clip_all_def)
next
  case (Some c)
  then have "owns h b (mset (bf_data c) + F)" "buffer_wf h c" using own wf by simp_all
  note m = owns_all_moved [OF this]
  show ?thesis using Some m
    by (intro that [of "Some (fst (buffer_moveout_all c b))" h])
      (auto simp: clip_all_def owns_def split: prod.splits)
qed

lemma owns_new: "heap_ok h F \<Longrightarrow> owns h buffer_new F" "contents h buffer_new = []"
  by (simp_all add: owns_def buffer_wf_def contents_def buffer_new_def)

lemma buffer_skip_ok:
  assumes own: "owns h b (clip_refs clip + F)" and wf: "clip_wf h clip" and spec: "buf_skip n (contents h b) = Some x"
  obtains b' clip' h' where "buffer_skip b n clip h = Some (b', clip', h')" "owns h' b' (clip_refs clip' + F)"
    "contents h' b' = x" "clipped h clip (take n (contents h b)) h' clip'" "keeps F h h'"
proof -
  have n: "0 < n" "contents h b \<noteq> []" and x: "x = drop n (contents h b)"
    using spec by (auto simp: buf_skip_def split: if_splits)
  have bwf: "buffer_wf h b" and len: "bf_length b = length (contents h b)" and ne: "\<not> buffer_empty b"
    using own n(2) buffer_empty_iff by (auto simp: owns_def buffer_wf_def)
  show ?thesis
  proof (cases "n = bf_length b")
    case True
    obtain clip' h' where "clip_all clip b h = Some (buffer_new, clip', h')" "heap_ok h' (clip_refs clip' + F)"
        "clipped h clip (contents h b) h' clip'" "keeps F h h'"
      by (rule clip_all_ok [OF own wf])
    then show ?thesis using True n ne x len owns_new
      by (intro that [of buffer_new clip' h']) (simp_all add: buffer_skip_def)
  next
    case False
    have ok: "heap_ok h (clip_refs clip + (mset (bf_data b) + F))" using own by (simp add: owns_def ac_simps)
    obtain as' clip' h' where r: "buffer_skip_loop (bf_data b) n 0 clip h =
        Some (as', min n (length (contents h b)), clip', h')" "heap_ok h' (clip_refs clip' + (mset as' + F))" "solid h' as'"
        "bytes_of h' as' = x" "clipped h clip (take n (contents h b)) h' clip'" "keeps F h h'"
      using buffer_skip_loop_ok [OF ok _ wf, of 0 n] bwf x by (auto simp: buffer_wf_def contents_def)
    let ?b = "\<lparr>bf_length = bf_length b - min n (length (contents h b)), bf_data = as'\<rparr>"
    have "owns h' ?b (clip_refs clip' + F)" "contents h' ?b = x"
      using r(2-4) len x by (auto simp: owns_def buffer_wf_def contents_def ac_simps)
    then show ?thesis using r(1,5,6) False n ne by (intro that [of ?b clip' h']) (simp_all add: buffer_skip_def)
  qed
qed

section \<open>trim\<close>

text \<open>What \<^verbatim>\<open>trim\<close> gives to the clip: whole segments, the last one first, and then a part of
  the next.\<close>

fun trim_clip :: "heap \<Rightarrow> nat list \<Rightarrow> nat \<Rightarrow> bytes" where
  "trim_clip h [] n = []"
| "trim_clip h (a # as) n =
     (if n = 0 then []
      else if length (seg_bytes h a) \<le> n then seg_bytes h a @ trim_clip h as (n - length (seg_bytes h a))
      else drop (length (seg_bytes h a) - n) (seg_bytes h a))"

lemma trim_clip_cong: "(\<And>a. a \<in> set as \<Longrightarrow> seg_bytes h' a = seg_bytes h a) \<Longrightarrow> trim_clip h' as n = trim_clip h as n"
  by (induction as arbitrary: n) auto

lemma buffer_trim_loop_ok:
  assumes "heap_ok h (clip_refs clip + (mset as + F))" and "solid h as" and "clip_wf h clip" and "trimmed \<le> bytes"
    and "bytes - trimmed < length (bytes_of h (rev as))"
  shows "\<exists>as' clip' h'. buffer_trim_loop as bytes trimmed clip h = Some (as', bytes, clip', h') \<and>
    heap_ok h' (clip_refs clip' + (mset as' + F)) \<and> solid h' as' \<and>
    bytes_of h' (rev as') = take (length (bytes_of h (rev as)) - (bytes - trimmed)) (bytes_of h (rev as)) \<and>
    clipped h clip (trim_clip h as (bytes - trimmed)) h' clip' \<and> keeps F h h'"
  using assms
proof (induction as arbitrary: trimmed clip h)
  case Nil
  then show ?case by simp
next
  case (Cons a as)
  let ?x = "seg_bytes h a" and ?R = "mset as + F"
  have ok: "heap_ok h (clip_refs clip + add_mset a ?R)" using Cons.prems by simp
  have a: "?x \<noteq> []" "seg_view a h = Some (length ?x, ?x)" using Cons.prems(2) seg_access_ok [OF ok, of a] by simp_all
  consider "trimmed = bytes" | "trimmed \<noteq> bytes" "length ?x \<le> bytes - trimmed"
    | "trimmed < bytes" "bytes - trimmed < length ?x" using Cons.prems(4) by linarith
  then show ?case
  proof cases
    case 1
    then show ?thesis using Cons.prems by (simp add: clipped_refl)
  next
    case 2
    obtain clip1 h1 h2 where c: "clip_segment clip a h = Some (clip1, h1)" "seg_unref a h1 = Some h2"
        "heap_ok h2 (clip_refs clip1 + ?R)" "keeps ?R h h2" "clipped h clip ?x h2 clip1"
      by (rule clip_front_ok [OF ok a(1) Cons.prems(3)])
    have as: "bytes_of h2 (rev as) = bytes_of h (rev as)" "solid h2 as = solid h as"
      using keeps_bytes_of [OF c(4), of "rev as"] by auto
    have tc: "trim_clip h2 as n = trim_clip h as n" for n by (rule trim_clip_cong) (use keepsD [OF c(4)] in auto)
    have F: "keeps F h h2" by (rule keeps_subset [OF c(4)]) auto
    have le: "trimmed + length ?x \<le> bytes" "bytes - (trimmed + length ?x) < length (bytes_of h2 (rev as))"
      using 2 Cons.prems(4,5) as(1) by auto
    have sol: "solid h2 as" using as(2) Cons.prems(2) by simp
    obtain as' clip' h' where
      r: "buffer_trim_loop as bytes (trimmed + length ?x) clip1 h2 = Some (as', bytes, clip', h')"
        "heap_ok h' (clip_refs clip' + (mset as' + F))" "solid h' as'"
        "bytes_of h' (rev as') = take (length (bytes_of h (rev as)) - (bytes - (trimmed + length ?x))) (bytes_of h (rev as))"
        "clipped h2 clip1 (trim_clip h as (bytes - (trimmed + length ?x))) h' clip'" "keeps F h2 h'"
      using Cons.IH [OF c(3) sol clipped_wf [OF c(5)] le] unfolding as(1) tc by blast
    have "clipped h clip (trim_clip h (a # as) (bytes - trimmed)) h' clip'"
      using clipped_trans [OF c(5) r(5)] 2 Cons.prems(4) by simp
    moreover have "length (bytes_of h (rev as)) - (bytes - (trimmed + length ?x)) =
        length (bytes_of h (rev as)) + length ?x - (bytes - trimmed)" using le 2 by linarith
    ultimately show ?thesis using 2 a c(1,2) r(1-4) keeps_trans [OF F r(6)] le by auto
  next
    case 3
    let ?n = "bytes - trimmed" let ?f = "\<lambda>bs :: bytes. take (length bs - ?n) bs"
    have t: "drop (length ?x - ?n) ?x \<noteq> []" "0 < ?n" using 3 a(1) by auto
    have op: "\<exists>a' h2. seg_trim a ?n h1 = Some (a', h2) \<and> replaces ?f a h1 G a' h2"
      if "heap_ok h1 (add_mset a G)" "seg_bytes h1 a = ?x" for h1 G
      by (rule seg_trim_ok [OF that(1) t(2)]) (use that(2) 3(2) in auto)
    obtain clip1 h1 a' h2 where c: "clip_bytes clip (drop (length ?x - ?n) ?x) h = Some (clip1, h1)"
        "seg_trim a ?n h1 = Some (a', h2)" "heap_ok h2 (clip_refs clip1 + add_mset a' ?R)" "seg_bytes h2 a' = ?f ?x"
        "keeps ?R h h2" "clipped h clip (drop (length ?x - ?n) ?x) h2 clip1"
      by (rule clip_part_ok [OF ok t(1) Cons.prems(3) op])
    have as: "bytes_of h2 (rev as) = bytes_of h (rev as)" "solid h2 as = solid h as"
      using keeps_bytes_of [OF c(5), of "rev as"] by auto
    have "keeps F h h2" by (rule keeps_subset [OF c(5)]) auto
    then show ?thesis using 3 a c as Cons.prems(2) by (auto simp: min_def)
  qed
qed

lemma buffer_trim_ok:
  assumes own: "owns h b (clip_refs clip + F)" and wf: "clip_wf h clip" and spec: "buf_trim n (contents h b) = Some x"
  obtains b' clip' h' where "buffer_trim b n clip h = Some (b', clip', h')" "owns h' b' (clip_refs clip' + F)"
    "contents h' b' = x" "keeps F h h'"
    "clipped h clip (if n = length (contents h b) then contents h b else trim_clip h (rev (bf_data b)) n) h' clip'"
proof -
  have n: "0 < n" "contents h b \<noteq> []" "n \<le> length (contents h b)" and x: "x = take (length (contents h b) - n) (contents h b)"
    using spec by (auto simp: buf_trim_def split: if_splits)
  have bwf: "buffer_wf h b" and len: "bf_length b = length (contents h b)" and ne: "\<not> buffer_empty b"
    using own n(2) buffer_empty_iff by (auto simp: owns_def buffer_wf_def)
  show ?thesis
  proof (cases "n = bf_length b")
    case True
    obtain clip' h' where "clip_all clip b h = Some (buffer_new, clip', h')" "heap_ok h' (clip_refs clip' + F)"
        "clipped h clip (contents h b) h' clip'" "keeps F h h'"
      by (rule clip_all_ok [OF own wf])
    then show ?thesis using True n ne x len owns_new
      by (intro that [of buffer_new clip' h']) (simp_all add: buffer_trim_def)
  next
    case False
    have ok: "heap_ok h (clip_refs clip + (mset (rev (bf_data b)) + F))" using own by (simp add: owns_def ac_simps)
    have lt: "n - 0 < length (bytes_of h (rev (rev (bf_data b))))" using False n len by (simp add: contents_def)
    obtain as' clip' h' where r: "buffer_trim_loop (rev (bf_data b)) n 0 clip h = Some (as', n, clip', h')"
        "heap_ok h' (clip_refs clip' + (mset as' + F))" "solid h' as'" "bytes_of h' (rev as') = x"
        "clipped h clip (trim_clip h (rev (bf_data b)) n) h' clip'" "keeps F h h'"
      using buffer_trim_loop_ok [OF ok _ wf _ lt] bwf x by (auto simp: buffer_wf_def contents_def)
    let ?b = "\<lparr>bf_length = bf_length b - n, bf_data = rev as'\<rparr>"
    have "owns h' ?b (clip_refs clip' + F)" "contents h' ?b = x"
      using r(2-4) len x by (auto simp: owns_def buffer_wf_def contents_def ac_simps)
    then show ?thesis using r(1,5,6) False n ne len by (intro that [of ?b clip' h']) (simp_all add: buffer_trim_def)
  qed
qed

text \<open>Without a clip.\<close>

lemma buffer_trim_None_ok:
  assumes own: "owns h b F" and spec: "buf_trim n (contents h b) = Some x"
  obtains b' h' where "buffer_trim b n None h = Some (b', None, h')" "owns h' b' F" "contents h' b' = x" "keeps F h h'"
proof -
  have own': "owns h b (clip_refs None + F)" using own by simp
  obtain b' clip' h' where r: "buffer_trim b n None h = Some (b', clip', h')" "owns h' b' (clip_refs clip' + F)"
    "contents h' b' = x" "keeps F h h'"
    "clipped h None (if n = length (contents h b) then contents h b else trim_clip h (rev (bf_data b)) n) h' clip'"
    by (rule buffer_trim_ok [OF own' _ spec]) simp
  then show ?thesis by (intro that [of b' h']) simp_all
qed

lemma buffer_skip_None_ok:
  assumes own: "owns h b F" and spec: "buf_skip n (contents h b) = Some x"
  obtains b' h' where "buffer_skip b n None h = Some (b', None, h')" "owns h' b' F" "contents h' b' = x" "keeps F h h'"
proof -
  have own': "owns h b (clip_refs None + F)" using own by simp
  obtain b' clip' h' where r: "buffer_skip b n None h = Some (b', clip', h')" "owns h' b' (clip_refs clip' + F)"
    "contents h' b' = x" "clipped h None (take n (contents h b)) h' clip'" "keeps F h h'"
    by (rule buffer_skip_ok [OF own' _ spec]) simp
  then show ?thesis by (intro that [of b' h']) simp_all
qed

lemma buffer_truncate_ok:
  assumes own: "owns h b F" and spec: "buf_truncate n (contents h b) = Some x"
  obtains b' h' where "buffer_truncate b n h = Some (b', h')" "owns h' b' F" "contents h' b' = x" "keeps F h h'"
proof (cases "bf_length b = n")
  case True
  then show ?thesis using own spec
    by (intro that [of b h]) (auto simp: buffer_truncate_def buf_truncate_def owns_def buffer_wf_def split: if_splits)
next
  case False
  have len: "bf_length b = length (contents h b)" using own by (simp add: owns_def buffer_wf_def)
  have "buf_trim (bf_length b - n) (contents h b) = Some x"
    using False spec len by (auto simp: buf_truncate_def buf_trim_def split: if_splits)
  then obtain b' h' where "buffer_trim b (bf_length b - n) None h = Some (b', None, h')" "owns h' b' F"
      "contents h' b' = x" "keeps F h h'"
    by (rule buffer_trim_None_ok [OF own])
  then show ?thesis using False spec len
    by (intro that [of b' h']) (auto simp: buffer_truncate_def buf_truncate_def split: if_splits)
qed

end
