(* ===== verification/Buffer_Ops.thy ===== *)
theory Buffer_Ops
  imports Buffer_Refine
begin

text \<open>
  The rest of class Buffer (common/buffer.h): \<^verbatim>\<open>cut\<close>, the searches and comparisons, and the
  operations composed from others, each proved to implement the operation on contents of
  the theory Buffer_Spec with the frame untouched.
\<close>

lemma owns_length: "owns h b F \<Longrightarrow> bf_length b = length (contents h b)"
  by (simp add: owns_def buffer_wf_def)

lemma owns_wf: "owns h b F \<Longrightarrow> buffer_wf h b"
  by (simp add: owns_def)

lemma owns_keeps:
  assumes "owns h b F" and "buffer_wf h c"
  shows "heap_ok h (mset (bf_data b) + F)" "bf_length c = length (contents h c)"
  using assms by (simp_all add: owns_def buffer_wf_def)

section \<open>cut\<close>









section \<open>Copies\<close>

text \<open>A Buffer that shares segments with \<open>b\<close> is part of the frame of \<open>b\<close>.\<close>

lemma buffer_append_len_ok:
  assumes own: "owns h b (mset (bf_data c) + F)" and c: "buffer_wf h c"
    and spec: "buf_append_len (contents h b) (contents h c) n = Some x"
  obtains b' h' where "buffer_append_len b c n h = Some (b', h')" "owns h' b' (mset (bf_data c) + F)"
    "contents h' b' = x" "keeps (mset (bf_data c) + F) h h'"
proof -
  let ?F = "mset (bf_data c) + F"
  have n: "0 < n" "n \<le> length (contents h c)" and x: "x = contents h b @ take n (contents h c)"
    using spec by (auto simp: buf_append_len_def)
  have len: "bf_length c = length (contents h c)" using c by (simp add: buffer_wf_def)
  obtain b1 h1 where a: "buffer_append_buffer b c h = Some (b1, h1)" "owns h1 b1 ?F"
      "contents h1 b1 = contents h b @ contents h c" "seg_bytes h1 = seg_bytes h"
    by (rule buffer_append_buffer_ok [OF own c])
  note k = same_keeps [OF a(4), of ?F]
  show ?thesis
  proof (cases "bf_length c = n")
    case True
    then show ?thesis using a k n x len by (intro that [of b1 h1]) (simp_all add: buffer_append_len_def)
  next
    case False
    then have "buf_trim (bf_length c - n) (contents h1 b1) = Some x" using a(3) n x len by (auto simp: buf_trim_def)
    then obtain b' h' where t: "buffer_trim b1 (bf_length c - n) None h1 = Some (b', None, h')" "owns h' b' ?F"
        "contents h' b' = x" "keeps ?F h1 h'"
      by (rule buffer_trim_None_ok [OF a(2)])
    then show ?thesis using a(1) n False len keeps_trans [OF k t(4)]
      by (intro that [of b' h']) (simp_all add: buffer_append_len_def)
  qed
qed

lemma buffer_copy_ok:
  assumes own: "owns h c F"
  obtains b' h' where "buffer_copy c h = Some (b', h')" "owns h' b' (mset (bf_data c) + F)"
    "contents h' b' = contents h c" "seg_bytes h' = seg_bytes h"
proof -
  have o: "owns h buffer_new (mset (bf_data c) + F)" using own by (intro owns_new(1)) (simp add: owns_def)
  obtain b' h' where "buffer_append_buffer buffer_new c h = Some (b', h')" "owns h' b' (mset (bf_data c) + F)"
      "contents h' b' = contents h buffer_new @ contents h c" "seg_bytes h' = seg_bytes h"
    by (rule buffer_append_buffer_ok [OF o owns_wf [OF own]])
  then show ?thesis using o own owns_wf [OF own, THEN buffer_empty_iff]
    by (cases "buffer_empty c") (auto simp: buffer_copy_def owns_new intro: that)
qed

lemma buffer_assign_ok:
  assumes own: "owns h b (mset (bf_data c) + F)" and c: "buffer_wf h c"
  obtains b' h' where "buffer_assign b c h = Some (b', h')" "owns h' b' (mset (bf_data c) + F)"
    "contents h' b' = contents h c" "keeps (mset (bf_data c) + F) h h'"
proof -
  let ?F = "mset (bf_data c) + F"
  obtain h1 where cl: "buffer_clear b h = Some (buffer_new, h1)" "heap_ok h1 ?F" "keeps ?F h h1"
    by (rule buffer_clear_ok [OF own])
  have c1: "contents h1 c = contents h c" "buffer_wf h1 c" using keeps_buffer [OF cl(3), of c] c by auto
  obtain b' h' where "buffer_append_buffer buffer_new c h1 = Some (b', h')" "owns h' b' ?F"
      "contents h' b' = contents h1 buffer_new @ contents h1 c" "seg_bytes h' = seg_bytes h1"
    by (rule buffer_append_buffer_ok [OF owns_new(1) [OF cl(2)] c1(2)])
  then show ?thesis using cl(1) c1 keeps_trans [OF cl(3) same_keeps]
    by (intro that [of b' h']) (simp_all add: buffer_assign_def owns_new)
qed

section \<open>Moving data out\<close>

lemma buffer_moveout_bytes_ok:
  assumes own: "owns h b F" and spec: "buf_moveout_bytes (contents h b) k n = Some (x, y)"
  obtains b' h' where "buffer_moveout_bytes b k n h = Some (x, b', h')" "owns h' b' F" "contents h' b' = y" "keeps F h h'"
proof -
  have n: "0 < n" "k + n \<le> length (contents h b)" and "buf_copyout (contents h b) k n = Some x"
    and "buf_skip (k + n) (contents h b) = Some y"
    using spec by (auto simp: buf_moveout_bytes_def buf_copyout_def buf_skip_def)
  then have c: "buffer_copyout b k n h = Some x" and s: "buf_skip (k + n) (contents h b) = Some y"
    using buffer_copyout_ok [OF own] by simp_all
  obtain b' h' where "buffer_skip b (k + n) None h = Some (b', None, h')" "owns h' b' F" "contents h' b' = y" "keeps F h h'"
    by (rule buffer_skip_None_ok [OF own s])
  then show ?thesis using c n owns_length [OF own] by (intro that [of b' h']) (simp_all add: buffer_moveout_bytes_def)
qed

lemma buffer_skip_into_ok:
  assumes own: "owns h b (mset (bf_data d) + F)" and d: "buffer_wf h d" and n: "0 < n" "n \<le> length (contents h b)"
  obtains b' d' h' where "buffer_skip b n (Some d) h = Some (b', Some d', h')" "owns h' b' (mset (bf_data d') + F)"
    "buffer_wf h' d'" "contents h' b' = drop n (contents h b)" "contents h' d' = contents h d @ take n (contents h b)"
    "keeps F h h'"
proof -
  have own': "owns h b (clip_refs (Some d) + F)" and wf: "clip_wf h (Some d)" using own d by simp_all
  have s: "buf_skip n (contents h b) = Some (drop n (contents h b))" using n by (auto simp: buf_skip_def)
  obtain b' clip' h' where "buffer_skip b n (Some d) h = Some (b', clip', h')" "owns h' b' (clip_refs clip' + F)"
    "contents h' b' = drop n (contents h b)" "clipped h (Some d) (take n (contents h b)) h' clip'" "keeps F h h'"
    by (rule buffer_skip_ok [OF own' wf s])
  then show ?thesis by (auto intro: that)
qed

lemma buffer_moveout_buffer_ok:
  assumes own: "owns h b (mset (bf_data d) + F)" and d: "buffer_wf h d"
    and spec: "buf_moveout_buffer (contents h d) (contents h b) k n = Some (x, y)"
  obtains d' b' h' where "buffer_moveout_buffer d b k n h = Some (d', b', h')" "owns h' b' (mset (bf_data d') + F)"
    "buffer_wf h' d'" "contents h' d' = x" "contents h' b' = y" "keeps F h h'"
proof -
  let ?F = "mset (bf_data d) + F"
  have n: "0 < n" "k + n \<le> length (contents h b)" and xy: "x = contents h d @ take n (drop k (contents h b))"
      "y = drop (k + n) (contents h b)"
    using spec by (auto simp: buf_moveout_buffer_def)
  obtain b1 h1 where s: "(if k \<noteq> 0 then do { (b, _, h) \<leftarrow> buffer_skip b k None h; Some (b, h) } else Some (b, h)) = Some (b1, h1)"
      "owns h1 b1 ?F" "contents h1 b1 = drop k (contents h b)" "keeps ?F h h1"
  proof (cases "k = 0")
    case True
    then show ?thesis using own by (intro that [of b h]) simp_all
  next
    case False
    then have "buf_skip k (contents h b) = Some (drop k (contents h b))" using n by (auto simp: buf_skip_def)
    then obtain b1 h1 where "buffer_skip b k None h = Some (b1, None, h1)" "owns h1 b1 ?F"
        "contents h1 b1 = drop k (contents h b)" "keeps ?F h h1"
      by (rule buffer_skip_None_ok [OF own])
    then show ?thesis using False by (intro that [of b1 h1]) simp_all
  qed
  have d1: "contents h1 d = contents h d" "buffer_wf h1 d" using keeps_buffer [OF s(4), of d] d by auto
  have n1: "n \<le> length (contents h1 b1)" using n s(3) by simp
  obtain b' d' h' where r: "buffer_skip b1 n (Some d) h1 = Some (b', Some d', h')" "owns h' b' (mset (bf_data d') + F)"
    "buffer_wf h' d'" "contents h' b' = drop n (contents h1 b1)" "contents h' d' = contents h1 d @ take n (contents h1 b1)"
    "keeps F h1 h'"
    by (rule buffer_skip_into_ok [OF s(2) d1(2) n(1) n1])
  have "keeps F h h1" by (rule keeps_subset [OF s(4)]) auto
  then show ?thesis using r s n xy d1 owns_length [OF own] keeps_trans [of F h h1 h']
    by (intro that [of d' b' h']) (simp_all add: buffer_moveout_buffer_def add.commute)
qed

lemma buffer_moveout_prefix_ok:
  assumes own: "owns h b (mset (bf_data d) + F)" and d: "buffer_wf h d"
    and spec: "buf_moveout_buffer (contents h d) (contents h b) 0 n = Some (x, y)"
  obtains d' b' h' where "buffer_moveout_prefix d b n h = Some (d', b', h')" "owns h' b' (mset (bf_data d') + F)"
    "buffer_wf h' d'" "contents h' d' = x" "contents h' b' = y" "keeps F h h'"
proof (cases "n = bf_length b")
  case True
  note m = owns_all_moved [OF own d]
  obtain d' b' where db: "buffer_moveout_all d b = (d', b')" by fastforce
  have x: "x = contents h d @ contents h b" "y = []" "0 < n"
    using spec True owns_length [OF own] by (auto simp: buf_moveout_buffer_def)
  have "owns h d' F" "b' = buffer_new" "contents h d' = x" using m db x by simp_all
  then show ?thesis using True db x owns_new owns_wf [of h d' F]
    by (intro that [of d' b' h]) (auto simp: buffer_moveout_prefix_def owns_def)
next
  case False
  obtain d' b' h' where "buffer_moveout_buffer d b 0 n h = Some (d', b', h')" "owns h' b' (mset (bf_data d') + F)"
    "buffer_wf h' d'" "contents h' d' = x" "contents h' b' = y" "keeps F h h'"
    by (rule buffer_moveout_buffer_ok [OF own d spec])
  then show ?thesis using False spec owns_length [OF own]
    by (intro that [of d' b' h']) (auto simp: buffer_moveout_prefix_def buf_moveout_buffer_def)
qed

lemma buffer_moveout_segment_ok:
  assumes own: "owns h b F" and ne: "contents h b \<noteq> []"
  obtains a b' where "buffer_moveout_segment b h = Some (a, b')" "owns h b' (add_mset a F)" "seg_bytes h a \<noteq> []"
    "contents h b = seg_bytes h a @ contents h b'"
proof -
  obtain a as where a: "bf_data b = a # as" "heap_ok h (add_mset a (mset as + F))" "seg_bytes h a \<noteq> []" "solid h as"
    "contents h b = seg_bytes h a @ bytes_of h as"
    by (rule owns_front [OF own ne])
  then show ?thesis using seg_access_ok(2) [OF a(2), of a] owns_length [OF own]
    by (intro that [of a "\<lparr>bf_length = bf_length b - length (seg_bytes h a), bf_data = as\<rparr>"])
      (simp_all add: buffer_moveout_segment_def owns_def buffer_wf_def contents_def buffer_empty_def)
qed

lemma buffer_unref_loop_ok:
  assumes "heap_ok h (mset as + F)" and "solid h as"
  shows "\<exists>h'. buffer_unref_loop as h = Some (bytes_of h as, h') \<and> heap_ok h' F \<and> keeps F h h'"
  using assms
proof (induction as arbitrary: h)
  case (Cons a as)
  have ok: "heap_ok h (add_mset a (mset as + F))" using Cons.prems by simp
  obtain h1 where u: "seg_unref a h = Some h1" "heap_ok h1 (mset as + F)" "keeps (mset as + F) h h1"
    by (rule seg_unref_ok [OF ok])
  have "bytes_of h1 as = bytes_of h as" "solid h1 as"
    using keeps_bytes_of [OF u(3), of as] Cons.prems(2) by auto
  moreover have "keeps F h h1" by (rule keeps_subset [OF u(3)]) auto
  ultimately show ?case
    using Cons.IH [OF u(2)] Cons.prems(2) u(1) seg_access_ok [OF ok, of a] keeps_trans [of F h h1] by auto
qed simp

lemma buffer_moveout_string_ok:
  assumes own: "owns h b F"
  obtains h' where "buffer_moveout_string b h = Some (contents h b, buffer_new, h')" "heap_ok h' F" "keeps F h h'"
  using buffer_unref_loop_ok [of h "bf_data b" F] own
  by (auto simp: buffer_moveout_string_def owns_def buffer_wf_def contents_def buffer_new_def intro: that)

lemma buffer_extract_string_ok:
  assumes own: "owns h b F"
  shows "buffer_extract_string b h = Some (contents h b)"
proof -
  have "buffer_extract_loop as h = Some (bytes_of h as)" if "set as \<subseteq> set (bf_data b)" "solid h as" for as
    using that
  proof (induction as)
    case (Cons a as)
    then show ?case using seg_access_ok(3) [of h "mset (bf_data b) + F" a] own by (auto simp: owns_def)
  qed simp
  then show ?thesis using own by (simp add: buffer_extract_string_def contents_def owns_def buffer_wf_def)
qed

lemma buffer_peek_ok:
  assumes own: "owns h b F" and spec: "buf_peek (contents h b) = Some x"
  shows "buffer_peek b h = Some x"
proof -
  have ne: "contents h b \<noteq> []" and x: "x = hd (contents h b)" using spec by (auto simp: buf_peek_def)
  obtain a as where a: "bf_data b = a # as" "heap_ok h (add_mset a (mset as + F))" "seg_bytes h a \<noteq> []" "solid h as"
    "contents h b = seg_bytes h a @ bytes_of h as"
    by (rule owns_front [OF own ne])
  then show ?thesis using seg_access_ok(3) [OF a(2), of a] owns_length [OF own] ne x by (simp add: buffer_peek_def)
qed

lemma buffer_pop_ok:
  assumes own: "owns h b F" and spec: "buf_pop (contents h b) = Some (x, y)"
  obtains b' h' where "buffer_pop b h = Some (x, b', h')" "owns h' b' F" "contents h' b' = y" "keeps F h h'"
proof -
  have ne: "contents h b \<noteq> []" and xy: "x = hd (contents h b)" "y = tl (contents h b)" using spec by (auto simp: buf_pop_def)
  obtain a as where a: "bf_data b = a # as" "heap_ok h (add_mset a (mset as + F))" "seg_bytes h a \<noteq> []" "solid h as"
    "contents h b = seg_bytes h a @ bytes_of h as"
    by (rule owns_front [OF own ne])
  note len = owns_length [OF own] and acc = seg_access_ok [OF a(2), of a]
  show ?thesis
  proof (cases "length (seg_bytes h a) = 1")
    case True
    obtain h' where u: "seg_unref a h = Some h'" "heap_ok h' (mset as + F)" "keeps (mset as + F) h h'"
      by (rule seg_unref_ok [OF a(2)])
    have "bytes_of h' as = y" "solid h' as" using keeps_bytes_of [OF u(3), of as] a xy True by (auto simp: length_Suc_conv)
    moreover have "keeps F h h'" by (rule keeps_subset [OF u(3)]) auto
    moreover have "length y = bf_length b - 1" using xy len by simp
    ultimately show ?thesis using u a True acc len ne xy
      by (intro that [of "\<lparr>bf_length = bf_length b - 1, bf_data = as\<rparr>" h'])
        (simp_all add: buffer_pop_def owns_def buffer_wf_def contents_def)
  next
    case False
    have lt: "1 < length (seg_bytes h a)" using False a(3) by (cases "seg_bytes h a") auto
    obtain a' h' where s: "seg_skip a 1 h = Some (a', h')" "replaces (drop 1) a h (mset as + F) a' h'"
      by (rule seg_skip_ok [OF a(2) _ lt]) simp
    then have r: "heap_ok h' (add_mset a' (mset as + F))" "seg_bytes h' a' = tl (seg_bytes h a)" "keeps (mset as + F) h h'"
      by (simp_all add: replaces_def drop_Suc)
    have "bytes_of h' as = bytes_of h as" "solid h' as" using keeps_bytes_of [OF r(3), of as] a by auto
    moreover have "keeps F h h'" by (rule keeps_subset [OF r(3)]) auto
    moreover have "seg_bytes h' a' \<noteq> []" using r(2) lt by (cases "seg_bytes h a") auto
    ultimately show ?thesis using s(1) r a False acc len ne xy lt
      by (intro that [of "\<lparr>bf_length = bf_length b - 1, bf_data = a' # as\<rparr>" h'])
        (auto simp: buffer_pop_def owns_def buffer_wf_def contents_def)
  qed
qed

section \<open>Searching\<close>

lemma buffer_find_loop_ok:
  assumes ok: "heap_ok h R" and "set as \<subseteq> set_mset R" and "solid h as" and "0 < limit"
  shows "buffer_find_loop ch as offset limit h =
    Some (map_option ((+) offset) (first_index ((=) ch) (take limit (bytes_of h as))))"
  using assms(2-)
proof (induction as arbitrary: offset limit)
  case (Cons a as)
  let ?x = "seg_bytes h a"
  have a: "seg_read a h = Some ?x" using Cons.prems seg_access_ok(3) [OF ok, of a] by simp
  show ?case
  proof (cases "limit \<le> length ?x")
    case True
    then show ?thesis using a by (auto simp: min_def split: option.splits)
  next
    case False
    then show ?thesis using a Cons.IH [of "limit - length ?x" "offset + length ?x"] Cons.prems
      by (auto simp: Let_def first_index_append option.map_comp o_def add.assoc split: option.splits)
  qed
qed simp

lemma map_option_plus_0: "map_option ((+) (0 :: nat)) x = x"
  by (cases x) auto

lemma buffer_find_ok:
  assumes own: "owns h b F"
  shows "buffer_find ch limit b h = Some (buf_find ch limit (contents h b))"
proof (cases "bf_data b = []")
  case True
  then show ?thesis by (simp add: buffer_find_def buf_find_def contents_def)
next
  case False
  let ?l = "if limit = 0 then bf_length b else limit"
  have ok: "heap_ok h (mset (bf_data b) + F)" "solid h (bf_data b)" using own by (simp_all add: owns_def buffer_wf_def)
  have l: "0 < ?l" using False ok(2) owns_length [OF own] by (auto simp: contents_def bytes_of_eq_Nil)
  show ?thesis using buffer_find_loop_ok [OF ok(1) _ ok(2) l, of ch 0] owns_length [OF own]
    by (simp add: buffer_find_def buf_find_def contents_def map_option_plus_0)
qed

lemma buffer_find_any_loop_ok:
  assumes ok: "heap_ok h R" and "set as \<subseteq> set_mset R" and "solid h as"
  shows "buffer_find_any_loop P as offset h =
    Some (map_option (\<lambda>i. (offset + i, bytes_of h as ! i)) (first_index P (bytes_of h as)))"
  using assms(2-)
proof (induction as arbitrary: offset)
  case (Cons a as)
  let ?x = "seg_bytes h a"
  have a: "seg_read a h = Some ?x" using Cons.prems seg_access_ok(3) [OF ok, of a] by simp
  show ?case
  proof (cases "first_index P ?x")
    case None
    then show ?thesis using a Cons.IH [of "offset + length ?x"] Cons.prems
      by (cases "first_index P (bytes_of h as)") (simp_all add: first_index_append)
  next
    case (Some i)
    then show ?thesis using a first_index_SomeD [OF Some] by (simp add: first_index_append nth_append)
  qed
qed simp

lemma buffer_find_any_ok:
  assumes own: "owns h b F"
  shows "buffer_find_any s b h = Some (buf_find_any s (contents h b))"
  using buffer_find_any_loop_ok [of h "mset (bf_data b) + F" "bf_data b"] own
  by (simp add: buffer_find_any_def buf_find_any_def owns_def buffer_wf_def contents_def)

section \<open>Comparing\<close>

lemma prefix_step:
  fixes p q :: "'a list"
  assumes "c = min (length p) (length q)"
  shows "take (length p) (q @ r) = p \<longleftrightarrow>
    take c q = take c p \<and> take (length (drop c p)) (drop c q @ r) = drop c p"
proof (cases "length p \<le> length q")
  case True
  then show ?thesis using assms by auto
next
  case False
  then have "take (length p) (q @ r) = q @ take (length p - length q) r" "c = length q" using assms by auto
  then show ?thesis using False by (auto simp: append_eq_conv_conj)
qed

lemma buffer_prefix_loop_ok:
  assumes ok: "heap_ok h R" and "set big \<subseteq> set_mset R" and "solid h big" and "p \<noteq> []" and "q \<noteq> []"
    and "length p \<le> length (q @ bytes_of h big)"
  shows "buffer_prefix_loop p q big h = Some (take (length p) (q @ bytes_of h big) = p)"
  using assms(2-)
proof (induction "length p" arbitrary: p q big rule: less_induct)
  case less
  define c where "c = min (length p) (length q)"
  note step = prefix_step [OF c_def, of "bytes_of h big"]
  have lt: "length (drop c p) < length p" using less.prems(3,4) by (simp add: c_def)
  have unf: "buffer_prefix_loop p q big h = (if take c q \<noteq> take c p then Some False
        else if drop c q = [] then
          (case big of
             [] \<Rightarrow> Some True
           | a # big \<Rightarrow> do {
               q \<leftarrow> seg_read a h;
               (if drop c p = [] then Some True else buffer_prefix_loop (drop c p) q big h) })
        else if drop c p = [] then Some True
        else buffer_prefix_loop (drop c p) (drop c q) big h)"
    unfolding c_def using less.prems(3,4) by (subst buffer_prefix_loop.simps) (simp add: Let_def)
  show ?case
  proof (cases "take c q = take c p")
    case eq: True
    show ?thesis
    proof (cases "drop c q = []")
      case q: True
      then have cq: "c = length q" using c_def by simp
      show ?thesis
      proof (cases big)
        case Nil
        then have "drop c p = []" using less.prems(5) cq by simp
        then show ?thesis unfolding unf step using eq q Nil by simp
      next
        case (Cons a as)
        have a: "seg_read a h = Some (seg_bytes h a)" "seg_bytes h a \<noteq> []"
          using less.prems(1,2) Cons seg_access_ok(3) [OF ok, of a] by auto
        show ?thesis
        proof (cases "drop c p = []")
          case True
          then show ?thesis unfolding unf step using eq q Cons a by simp
        next
          case False
          have "length (drop c p) \<le> length (seg_bytes h a @ bytes_of h as)" using less.prems(5) Cons cq by auto
          from less.hyps [OF lt _ _ False a(2) this] less.prems(1,2) Cons
          show ?thesis unfolding unf step using eq q a False by simp
        qed
      qed
    next
      case q: False
      then have "drop c p = []" using c_def by auto
      then show ?thesis unfolding unf step using eq q by simp
    qed
  next
    case False
    then show ?thesis unfolding unf step by simp
  qed
qed

lemma buffer_prefix_ok:
  assumes own: "owns h b F" and spec: "buf_prefix p (contents h b) = Some r"
  shows "buffer_prefix p b h = Some r"
proof -
  have p: "p \<noteq> []" and r: "r \<longleftrightarrow> take (length p) (contents h b) = p" using spec by (auto simp: buf_prefix_def)
  note len = owns_length [OF own]
  show ?thesis
  proof (cases "bf_length b < length p")
    case True
    then have "length (take (length p) (contents h b)) < length p" using len by simp
    then have "take (length p) (contents h b) \<noteq> p" by force
    then show ?thesis using True p r by (simp add: buffer_prefix_def)
  next
    case False
    then have ne: "contents h b \<noteq> []" using len p by auto
    obtain a as where a: "bf_data b = a # as" "heap_ok h (add_mset a (mset as + F))" "seg_bytes h a \<noteq> []" "solid h as"
      "contents h b = seg_bytes h a @ bytes_of h as"
      by (rule owns_front [OF own ne])
    have le: "length p \<le> length (seg_bytes h a @ bytes_of h as)" using False len a(5) by simp
    have "set as \<subseteq> set_mset (add_mset a (mset as + F))" by auto
    from buffer_prefix_loop_ok [OF a(2) this a(4) p a(3) le] show ?thesis using a False p r seg_access_ok(3) [OF a(2), of a]
      by (simp add: buffer_prefix_def)
  qed
qed

text \<open>One segment of the prefix: on success the rest of the segments compared with stands for
  the rest of their bytes, and is at a byte unless none is left.\<close>

lemma buffer_prefix_segment_ok:
  assumes ok: "heap_ok h R" and "set big \<subseteq> set_mset R" and "solid h big" and "p \<noteq> []" and "q \<noteq> []"
    and "length p \<le> length (q @ bytes_of h big)"
  shows "\<exists>q' big'. buffer_prefix_segment p q big h =
      Some (if take (length p) (q @ bytes_of h big) = p then Some (q', big') else None) \<and>
    q' @ bytes_of h big' = drop (length p) (q @ bytes_of h big) \<and> set big' \<subseteq> set big \<and> (q' = [] \<longrightarrow> big' = [])"
  using assms(2-)
proof (induction "length p" arbitrary: p q big rule: less_induct)
  case less
  define c where "c = min (length p) (length q)"
  note step = prefix_step [OF c_def, of "bytes_of h big"]
  have lt: "length (drop c p) < length p" using less.prems(3,4) by (simp add: c_def)
  have unf: "buffer_prefix_segment p q big h = (if take c q \<noteq> take c p then Some None
        else if drop c q = [] then
          (case big of
             [] \<Rightarrow> Some (Some ([], []))
           | a # big \<Rightarrow> do {
               q \<leftarrow> seg_read a h;
               (if drop c p = [] then Some (Some (q, big)) else buffer_prefix_segment (drop c p) q big h) })
        else if drop c p = [] then Some (Some (drop c q, big))
        else buffer_prefix_segment (drop c p) (drop c q) big h)"
    unfolding c_def using less.prems(3,4) by (subst buffer_prefix_segment.simps) (simp add: Let_def)
  have cq: "drop c q = [] \<Longrightarrow> c = length q" and cp: "c \<le> length p" "drop c q \<noteq> [] \<Longrightarrow> c = length p"
    by (auto simp: c_def)
  consider (neq) "take c q \<noteq> take c p" | (inside) "take c q = take c p" "drop c q \<noteq> []"
    | (fin) "take c q = take c p" "c = length q" "big = []"
    | (bound) a as where "take c q = take c p" "c = length q" "big = a # as" "drop c p = []"
    | (beyond) a as where "take c q = take c p" "c = length q" "big = a # as" "drop c p \<noteq> []"
    using cq by (cases "drop c q = []"; cases big) blast+
  then show ?case
  proof cases
    case neq
    then show ?thesis unfolding unf step
      by (intro exI [of _ "drop (length p) (q @ bytes_of h big)"] exI [of _ "[]"]) simp
  next
    case inside
    then show ?thesis unfolding unf step using cp(2)
      by (intro exI [of _ "drop c q"] exI [of _ big]) simp
  next
    case fin
    have l: "length p = length q" using fin(2,3) less.prems(5) cp(1) by simp
    then have "p = q" using fin(1,2) by (metis order_refl take_all)
    then show ?thesis unfolding unf step using fin(2,3)
      by (intro exI [of _ "[]"] exI [of _ "[]"]) simp
  next
    case bound
    have "seg_read a h = Some (seg_bytes h a)" "seg_bytes h a \<noteq> []"
      using less.prems(1,2) bound(3) seg_access_ok(3) [OF ok, of a] by auto
    moreover have "p = q" using bound(1,2,4) cp(1) by (metis append_Nil2 append_take_drop_id order_refl take_all)
    ultimately show ?thesis unfolding unf step using bound(2,3)
      by (intro exI [of _ "seg_bytes h a"] exI [of _ as]) (simp add: subset_insertI)
  next
    case beyond
    have a: "seg_read a h = Some (seg_bytes h a)" "seg_bytes h a \<noteq> []"
      using less.prems(1,2) beyond(3) seg_access_ok(3) [OF ok, of a] by auto
    have "length (drop c p) \<le> length (seg_bytes h a @ bytes_of h as)" using less.prems(5) beyond(2,3) by simp
    moreover have "set as \<subseteq> set_mset R" "solid h as" using less.prems(1,2) beyond(3) by simp_all
    ultimately obtain q' big' where
      r: "buffer_prefix_segment (drop c p) (seg_bytes h a) as h = Some
        (if take (length (drop c p)) (seg_bytes h a @ bytes_of h as) = drop c p then Some (q', big') else None)"
      "q' @ bytes_of h big' = drop (length (drop c p)) (seg_bytes h a @ bytes_of h as)"
      "set big' \<subseteq> set as" "q' = [] \<longrightarrow> big' = []"
      using less.hyps [OF lt _ _ beyond(4) a(2)] by blast
    have "drop (length p) (q @ bytes_of h big) = drop (length (drop c p)) (seg_bytes h a @ bytes_of h as)"
      using beyond by simp
    moreover have "set big' \<subseteq> set big" using r(3) beyond(3) by auto
    ultimately show ?thesis unfolding unf step using beyond a(1) r(1,2,4)
      by (intro exI [of _ q'] exI [of _ big']) (simp del: take_append drop_append length_drop)
  qed
qed

lemma buffer_prefix_segments_ok:
  assumes ok: "heap_ok h R" and "set pfx \<subseteq> set_mset R" and "solid h pfx" and "set big \<subseteq> set_mset R" and "solid h big"
    and "q = [] \<Longrightarrow> big = []" and "length (bytes_of h pfx) \<le> length (q @ bytes_of h big)"
  shows "buffer_prefix_segments pfx q big h =
    Some (take (length (bytes_of h pfx)) (q @ bytes_of h big) = bytes_of h pfx)"
  using assms(2-)
proof (induction pfx arbitrary: q big)
  case (Cons a pfx)
  let ?p = "seg_bytes h a"
  have p: "?p \<noteq> []" "seg_read a h = Some ?p" using Cons.prems(1,2) seg_access_ok(3) [OF ok, of a] by auto
  have q: "q \<noteq> []" using Cons.prems(5,6) p(1) by (cases q) auto
  have "length ?p \<le> length (q @ bytes_of h big)" using Cons.prems(6) by simp
  from buffer_prefix_segment_ok [OF ok Cons.prems(3,4) p(1) q this] obtain q' big' where
    r: "buffer_prefix_segment ?p q big h = Some (if take (length ?p) (q @ bytes_of h big) = ?p then Some (q', big') else None)"
      "q' @ bytes_of h big' = drop (length ?p) (q @ bytes_of h big)" "set big' \<subseteq> set big" "q' = [] \<longrightarrow> big' = []"
    by blast
  have b': "set big' \<subseteq> set_mset R" "solid h big'" using r(3) Cons.prems(3,4) by (auto simp: solid_def)
  have IH: "buffer_prefix_segments pfx q' big' h =
      Some (take (length (bytes_of h pfx)) (q' @ bytes_of h big') = bytes_of h pfx)"
    by (rule Cons.IH) (use Cons.prems(1,2,6) b' r(2,4) in auto)
  have "take (length (bytes_of h (a # pfx))) (q @ bytes_of h big) =
      take (length ?p) (q @ bytes_of h big) @ take (length (bytes_of h pfx)) (q' @ bytes_of h big')"
    unfolding r(2) by (simp only: bytes_of_simps length_append take_add)
  moreover have "length (take (length ?p) (q @ bytes_of h big)) = length ?p" using Cons.prems(6) by simp
  ultimately show ?case using p q r(1) IH by (simp del: take_append length_take)
qed simp

lemma buffer_prefix_buffer_ok:
  assumes own: "owns h b (mset (bf_data c) + F)" and c: "buffer_wf h c" and spec: "buf_prefix (contents h c) (contents h b) = Some r"
  shows "buffer_prefix_buffer c b h = Some r"
proof -
  let ?p = "contents h c"
  have p: "?p \<noteq> []" and r: "r \<longleftrightarrow> take (length ?p) (contents h b) = ?p" using spec by (auto simp: buf_prefix_def)
  have len: "bf_length b = length (contents h b)" "bf_length c = length ?p"
    using owns_length [OF own] c by (simp_all add: buffer_wf_def)
  show ?thesis
  proof (cases "bf_length b < bf_length c")
    case True
    then have "length (take (length ?p) (contents h b)) < length ?p" using len by simp
    then have "take (length ?p) (contents h b) \<noteq> ?p" by force
    then show ?thesis using True r by (auto simp: buffer_prefix_buffer_def)
  next
    case False
    then have ne: "contents h b \<noteq> []" using len p by auto
    obtain a as where a: "bf_data b = a # as" "heap_ok h (add_mset a (mset as + (mset (bf_data c) + F)))"
      "seg_bytes h a \<noteq> []" "solid h as" "contents h b = seg_bytes h a @ bytes_of h as"
      by (rule owns_front [OF own ne])
    have "buffer_prefix_segments (bf_data c) (seg_bytes h a) as h = Some r" unfolding r a(5) contents_def [of h c]
      by (rule buffer_prefix_segments_ok [OF a(2)])
        (use a(3-5) False len c in \<open>auto simp: buffer_wf_def contents_def [of h c]\<close>)
    then show ?thesis using a False p len seg_access_ok(3) [OF a(2), of a] by (simp add: buffer_prefix_buffer_def)
  qed
qed

lemma buffer_equal_buffer_ok:
  assumes own: "owns h b (mset (bf_data c) + F)" and c: "buffer_wf h c"
  shows "buffer_equal_buffer b c h = Some (contents h b = contents h c)"
proof (cases "bf_length b = bf_length c \<and> contents h b \<noteq> []")
  case True
  then have "buf_prefix (contents h c) (contents h b) = Some (contents h b = contents h c)"
    using owns_length [OF own] c by (auto simp: buf_prefix_def buffer_wf_def)
  from buffer_prefix_buffer_ok [OF own c this] show ?thesis
    using True owns_wf [OF own, THEN buffer_empty_iff] by (simp add: buffer_equal_buffer_def)
next
  case False
  then show ?thesis using owns_length [OF own] c owns_wf [OF own, THEN buffer_empty_iff]
    by (auto simp: buffer_equal_buffer_def buffer_wf_def)
qed

lemma buffer_equal_string_ok:
  assumes own: "owns h b F"
  shows "buffer_equal_string b str h = Some (contents h b = str)"
proof (cases "length str = bf_length b \<and> contents h b \<noteq> []")
  case True
  then have "buf_prefix str (contents h b) = Some (contents h b = str)"
    using owns_length [OF own] by (auto simp: buf_prefix_def)
  from buffer_prefix_ok [OF own this] show ?thesis
    using True owns_wf [OF own, THEN buffer_empty_iff] by (simp add: buffer_equal_string_def)
next
  case False
  then show ?thesis using owns_length [OF own] owns_wf [OF own, THEN buffer_empty_iff]
    by (auto simp: buffer_equal_string_def)
qed

section \<open>split and join\<close>

definition refs :: "buffer list \<Rightarrow> nat multiset" where
  "refs vec = mset (concat (map bf_data vec))"

text \<open>\<open>holds h vec xs\<close>: the Buffers of a vector are well-formed and have the given contents.\<close>

definition holds :: "heap \<Rightarrow> buffer list \<Rightarrow> bytes list \<Rightarrow> bool" where
  "holds h vec xs \<longleftrightarrow> (\<forall>b\<in>set vec. buffer_wf h b) \<and> map (contents h) vec = xs"

lemma refs_simps [simp]: "refs [] = {#}" "refs (b # vec) = mset (bf_data b) + refs vec" "refs (vec @ vec') = refs vec + refs vec'"
  by (simp_all add: refs_def)

lemma holds_simps [simp]: "holds h [] xs \<longleftrightarrow> xs = []"
  "holds h (b # vec) xs \<longleftrightarrow> buffer_wf h b \<and> (\<exists>ys. xs = contents h b # ys \<and> holds h vec ys)"
  by (auto simp: holds_def)

lemma holds_append: "holds h vec xs \<Longrightarrow> holds h vec' ys \<Longrightarrow> holds h (vec @ vec') (xs @ ys)"
  by (auto simp: holds_def)

lemma holds_keeps:
  assumes "keeps R h h'" and "set_mset (refs vec) \<subseteq> set_mset R" and "holds h vec xs"
  shows "holds h' vec xs"
proof -
  have "contents h' b = contents h b \<and> buffer_wf h' b = buffer_wf h b" if "b \<in> set vec" for b
    using keeps_buffer [OF assms(1), of b] assms(2) that by (force simp: refs_def)
  then show ?thesis using assms(3) by (auto simp: holds_def)
qed

lemma buffer_push_back_ok:
  assumes own: "owns h b (refs vec + F)" and vec: "holds h vec xs"
  obtains c h' where "buffer_push_back vec b h = Some (vec @ [c], buffer_new, h')" "heap_ok h' (refs (vec @ [c]) + F)"
    "holds h' (vec @ [c]) (xs @ [contents h b])" "keeps F h h'"
proof -
  obtain c h1 where c: "buffer_copy b h = Some (c, h1)" "owns h1 c (mset (bf_data b) + (refs vec + F))"
      "contents h1 c = contents h b" "seg_bytes h1 = seg_bytes h"
    by (rule buffer_copy_ok [OF own])
  let ?G = "mset (bf_data c) + (refs vec + F)"
  have "buffer_wf h1 b" using owns_wf [OF own] same_bytes_of [OF c(4)] by (simp add: buffer_wf_def contents_def)
  then have own1: "owns h1 b ?G" using c(2) by (simp add: owns_def ac_simps)
  obtain h' where cl: "buffer_clear b h1 = Some (buffer_new, h')" "heap_ok h' ?G" "keeps ?G h1 h'"
    by (rule buffer_clear_ok [OF own1])
  have k: "keeps ?G h h'" using cl(3) c(4) by (simp add: keeps_def)
  have "holds h' vec xs" by (rule holds_keeps [OF k _ vec]) auto
  moreover have "contents h' c = contents h b" "buffer_wf h' c"
    using keeps_buffer [OF cl(3), of c] c(3) owns_wf [OF c(2)] by auto
  moreover have "keeps F h h'" by (rule keeps_subset [OF k]) auto
  ultimately show ?thesis using c(1) cl(1,2)
    by (intro that [of c h']) (simp_all add: buffer_push_back_def holds_append ac_simps)
qed

lemma owns_vec: "heap_ok h (refs vec + F) \<Longrightarrow> owns h buffer_new (refs vec + F)"
  by (rule owns_new)

lemma split_before_ok:
  assumes own: "owns h b (refs vec + F)" and vec: "holds h vec xs" and off: "off \<le> length (contents h b)"
  obtains vec' b' h' where
    "(if off \<noteq> 0 then do {
        (b, clip, h) \<leftarrow> buffer_skip b off (Some buffer_new) h;
        buf \<leftarrow> clip;
        (vec, _, h) \<leftarrow> buffer_push_back vec buf h;
        Some (vec, b, h) }
      else if ie then Some (vec @ [buffer_new], b, h) else Some (vec, b, h)) = Some (vec', b', h')"
    "owns h' b' (refs vec' + F)" "contents h' b' = drop off (contents h b)"
    "holds h' vec' (xs @ (if off \<noteq> 0 then [take off (contents h b)] else if ie then [[]] else []))" "keeps F h h'"
proof (cases "off = 0")
  case True
  have "holds h [buffer_new] [[]]" using owns_new(2) by (simp add: buffer_wf_def buffer_new_def contents_def)
  then show ?thesis using True own vec that [of "vec @ [buffer_new]" b h] that [of vec b h]
    by (cases ie) (simp_all add: holds_append buffer_new_def)
next
  case False
  have own': "owns h b (mset (bf_data buffer_new) + (refs vec + F))" and new: "buffer_wf h buffer_new"
    using own by (simp_all add: buffer_new_def buffer_wf_def contents_def)
  obtain b' d' h1 where s: "buffer_skip b off (Some buffer_new) h = Some (b', Some d', h1)"
    "owns h1 b' (mset (bf_data d') + (refs vec + F))" "buffer_wf h1 d'" "contents h1 b' = drop off (contents h b)"
    "contents h1 d' = contents h buffer_new @ take off (contents h b)" "keeps (refs vec + F) h h1"
    using False by (elim buffer_skip_into_ok [OF own' new _ off, rotated 1]) simp
  have v1: "holds h1 vec xs" by (rule holds_keeps [OF s(6) _ vec]) auto
  have "owns h1 d' (refs vec + (mset (bf_data b') + F))" using s(2,3) by (simp add: owns_def ac_simps)
  then obtain c h' where p: "buffer_push_back vec d' h1 = Some (vec @ [c], buffer_new, h')"
      "heap_ok h' (refs (vec @ [c]) + (mset (bf_data b') + F))" "holds h' (vec @ [c]) (xs @ [contents h1 d'])"
      "keeps (mset (bf_data b') + F) h1 h'"
    using v1 by (rule buffer_push_back_ok)
  have "contents h' b' = drop off (contents h b)" "buffer_wf h' b'"
    using keeps_buffer [OF p(4), of b'] s(4) owns_wf [OF s(2)] by auto
  moreover have "keeps F h h'"
    using keeps_trans [OF keeps_subset [OF s(6)] keeps_subset [OF p(4)], of F] by auto
  ultimately show ?thesis using False s(1,5) p(1-3) owns_new(2)
    by (intro that [of "vec @ [c]" b' h']) (simp_all add: owns_def ac_simps)
qed

lemma buffer_split_loop_ok:
  assumes "owns h b (refs vec + F)" and "holds h vec xs"
  shows "\<exists>vec' h'. buffer_split_loop ch ie b vec h = Some (vec', buffer_new, h') \<and> heap_ok h' (refs vec' + F) \<and>
    holds h' vec' (xs @ buf_split_loop ch ie (contents h b)) \<and> keeps F h h'"
  using assms
proof (induction "length (contents h b)" arbitrary: b vec h xs rule: less_induct)
  case less
  note found = buffer_find_ok [OF less.prems(1), of ch 0]
  show ?case
  proof (cases "buf_find ch 0 (contents h b)")
    case None
    show ?thesis
    proof (cases "contents h b = []")
      case True
      then have b: "b = buffer_new" "buffer_empty b"
        using owns_wf [OF less.prems(1)] buffer_empty_iff [of h b]
        by (auto simp: buffer_wf_def buffer_new_def buffer_empty_def)
      have "holds h [buffer_new] [[]]" by (simp add: buffer_wf_def buffer_new_def contents_def)
      then show ?thesis using less.prems b None True found
        by (subst buffer_split_loop.simps, subst buf_split_loop.simps)
          (auto simp: owns_def holds_append buffer_new_def)
    next
      case False
      then have ne: "\<not> buffer_empty b" using owns_wf [OF less.prems(1)] buffer_empty_iff by blast
      obtain c h' where "buffer_push_back vec b h = Some (vec @ [c], buffer_new, h')" "heap_ok h' (refs (vec @ [c]) + F)"
          "holds h' (vec @ [c]) (xs @ [contents h b])" "keeps F h h'"
        by (rule buffer_push_back_ok [OF less.prems])
      then show ?thesis using ne None False found
        by (subst buffer_split_loop.simps, subst buf_split_loop.simps) auto
    qed
  next
    case (Some off)
    have off: "off < length (contents h b)" using buf_find_SomeD(1) [OF Some] .
    obtain vec1 b1 h1 where m:
      "(if off \<noteq> 0 then do {
          (b, clip, h) \<leftarrow> buffer_skip b off (Some buffer_new) h;
          buf \<leftarrow> clip;
          (vec, _, h) \<leftarrow> buffer_push_back vec buf h;
          Some (vec, b, h) }
        else if ie then Some (vec @ [buffer_new], b, h) else Some (vec, b, h)) = Some (vec1, b1, h1)"
      "owns h1 b1 (refs vec1 + F)" "contents h1 b1 = drop off (contents h b)"
      "holds h1 vec1 (xs @ (if off \<noteq> 0 then [take off (contents h b)] else if ie then [[]] else []))" "keeps F h h1"
      by (rule split_before_ok [OF less.prems less_imp_le [OF off], of ie])
    have "buf_skip 1 (contents h1 b1) = Some (drop (Suc off) (contents h b))"
      using off m(3) by (simp add: buf_skip_def)
    then obtain b2 h2 where s: "buffer_skip b1 1 None h1 = Some (b2, None, h2)" "owns h2 b2 (refs vec1 + F)"
        "contents h2 b2 = drop (Suc off) (contents h b)" "keeps (refs vec1 + F) h1 h2"
      by (rule buffer_skip_None_ok [OF m(2)])
    have v2: "holds h2 vec1 (xs @ (if off \<noteq> 0 then [take off (contents h b)] else if ie then [[]] else []))"
      by (rule holds_keeps [OF s(4) _ m(4)]) auto
    have "length (contents h2 b2) < length (contents h b)" using s(3) off by simp
    from less.hyps [OF this s(2) v2] obtain vec' h' where
      r: "buffer_split_loop ch ie b2 vec1 h2 = Some (vec', buffer_new, h')" "heap_ok h' (refs vec' + F)"
        "holds h' vec' ((xs @ (if off \<noteq> 0 then [take off (contents h b)] else if ie then [[]] else [])) @
          buf_split_loop ch ie (contents h2 b2))" "keeps F h2 h'"
      by blast
    have "buffer_split_loop ch ie b vec h = Some (vec', buffer_new, h')"
      by (subst buffer_split_loop.simps) (use found Some m(1) s(1) r(1) in simp)
    moreover have "keeps F h h'"
      using keeps_trans [OF m(5) keeps_trans [OF keeps_subset [OF s(4)] r(4)]] by auto
    ultimately show ?thesis using r(2,3) s(3) Some by (subst buf_split_loop.simps) (auto split del: if_split)
  qed
qed

lemma buffer_split_ok:
  assumes own: "owns h b F"
  obtains vec' h' where "buffer_split ch ie b h = Some (vec', buffer_new, h')" "heap_ok h' (refs vec' + F)"
    "holds h' vec' (buf_split ch ie (contents h b))" "keeps F h h'"
proof (cases "contents h b = []")
  case True
  then have b: "b = buffer_new" "buffer_empty b"
    using owns_wf [OF own] buffer_empty_iff [of h b] by (auto simp: buffer_wf_def buffer_new_def buffer_empty_def)
  moreover have "holds h [buffer_new] [[]]" by (simp add: buffer_wf_def buffer_new_def contents_def)
  ultimately show ?thesis using own True
    by (intro that [of "if ie then [buffer_new] else []" h])
      (auto simp: buffer_split_def buf_split_def owns_def buffer_new_def)
next
  case False
  then have ne: "\<not> buffer_empty b" using owns_wf [OF own] buffer_empty_iff by blast
  show ?thesis using buffer_split_loop_ok [of h b "[]" F "[]" ch ie] own ne False
    by (auto simp: buffer_split_def buf_split_def intro: that)
qed

section \<open>A store built from given segments\<close>

definition heap_of :: "bytes list \<Rightarrow> heap" where
  "heap_of xss = \<lparr>hp_segs = (\<lambda>a. if a < length xss
      then Some \<lparr>sg_data = xss ! a @ replicate (BUFFER_SEGMENT_SIZE - length (xss ! a)) 0, sg_offset = 0,
        sg_length = length (xss ! a), sg_ref = 1\<rparr> else None),
    hp_next = length xss, hp_malloc = (\<lambda>_. replicate BUFFER_SEGMENT_SIZE 0)\<rparr>"

lemma heap_of_bytes: "seg_bytes (heap_of xss) a = (if a < length xss then xss ! a else [])"
  by (simp add: seg_bytes_def heap_of_def seg_data_def)

lemma heap_of_ok:
  assumes "\<forall>x\<in>set xss. length x \<le> BUFFER_SEGMENT_SIZE"
  shows "heap_ok (heap_of xss) (mset [0..<length xss])"
proof (rule heap_okI)
  fix a
  have "count (mset [0..<length xss]) a = (if a < length xss then 1 else 0)"
    by (simp add: distinct_count_atmost_1 [THEN iffD1, rule_format] count_mset_0_iff)
  moreover have "a < length xss \<Longrightarrow> length (xss ! a) \<le> BUFFER_SEGMENT_SIZE" using assms by simp
  ultimately show "case hp_segs (heap_of xss) a of None \<Rightarrow> a \<notin># mset [0..<length xss]
      | Some s \<Rightarrow> seg_ok s \<and> a \<in># mset [0..<length xss] \<and> sg_ref s = count (mset [0..<length xss]) a"
    by (simp add: heap_of_def seg_ok_def)
qed (simp_all add: heap_of_def)

definition buffer_of :: "bytes list \<Rightarrow> buffer" where
  "buffer_of xss = \<lparr>bf_length = length (concat xss), bf_data = [0..<length xss]\<rparr>"

lemma buffer_of_bytes: "as = [0..<length xss] \<Longrightarrow> bytes_of (heap_of xss) as = concat xss"
proof -
  have "map (seg_bytes (heap_of xss)) [0..<length xss] = xss"
    by (rule nth_equalityI) (simp_all add: heap_of_bytes)
  then show "as = [0..<length xss] \<Longrightarrow> bytes_of (heap_of xss) as = concat xss" by (simp add: bytes_of_def)
qed

lemma buffer_of_owns:
  assumes "\<forall>x\<in>set xss. x \<noteq> [] \<and> length x \<le> BUFFER_SEGMENT_SIZE"
  shows "owns (heap_of xss) (buffer_of xss) {#}" "contents (heap_of xss) (buffer_of xss) = concat xss"
  using assms heap_of_ok [of xss]
  by (auto simp: owns_def buffer_of_def buffer_wf_def contents_def buffer_of_bytes solid_def heap_of_bytes)

section \<open>Properties\<close>



text \<open>When the iterator denotes the inserted segment instead, other bytes go.\<close>

lemma cut_iterator_on_inserted:
  "map_option (\<lambda>(b', clip', h'). contents h' b')
     (buffer_cut (\<lambda>i n. Some i) (buffer_of [[1, 2], [3, 4], [5]]) 1 2 None (heap_of [[1, 2], [3, 4], [5]])) = Some [3, 4, 5]"
  by code_simp

lemma trim_clip_rev:
  assumes "\<forall>a\<in>set ys. seg_bytes h a \<noteq> []"
  shows "trim_clip h (ys @ xs) (length (bytes_of h ys)) = bytes_of h ys"
  using assms by (induction ys) (auto, cases xs, auto)

text \<open>C12: \<^verbatim>\<open>Buffer::trim\<close> with a clip Buffer takes the segments off the end one by one and appends each
  to the clip: the Buffer keeps the right bytes, but the clip receives the removed segments in
  reverse order.\<close>

theorem trim_clips_backwards:
  assumes own: "owns h b (mset (bf_data c) + F)" and c: "buffer_wf h c"
    and b: "bf_data b = xs @ ys" "xs \<noteq> []" "ys \<noteq> []"
  shows "\<exists>b' c' h'. buffer_trim b (length (bytes_of h ys)) (Some c) h = Some (b', Some c', h') \<and>
    owns h' b' (mset (bf_data c') + F) \<and> keeps F h h' \<and>
    contents h' b' = bytes_of h xs \<and> contents h' c' = contents h c @ bytes_of h (rev ys)"
proof -
  let ?n = "length (bytes_of h ys)"
  have sol: "solid h xs" "solid h ys" using own b(1) by (simp_all add: owns_def buffer_wf_def)
  have ct: "contents h b = bytes_of h xs @ bytes_of h ys" using b(1) by (simp add: contents_def)
  have pos: "0 < ?n" "0 < length (bytes_of h xs)" using sol b(2,3) bytes_of_eq_Nil by auto
  have len: "length (bytes_of h (rev ys)) = ?n" by (simp add: bytes_of_def length_concat rev_map [symmetric] sum_list_rev)
  have tc: "trim_clip h (rev (bf_data b)) ?n = bytes_of h (rev ys)"
    using trim_clip_rev [of "rev ys" h "rev xs"] sol(2) b(1) len by (simp add: solid_def)
  have spec: "buf_trim ?n (contents h b) = Some (bytes_of h xs)" using ct pos by (simp add: buf_trim_def)
  have own': "owns h b (clip_refs (Some c) + F)" and wf: "clip_wf h (Some c)" using own c by simp_all
  obtain b' clip' h' where "buffer_trim b ?n (Some c) h = Some (b', clip', h')" "owns h' b' (clip_refs clip' + F)"
    "contents h' b' = bytes_of h xs" "keeps F h h'"
    "clipped h (Some c) (if ?n = length (contents h b) then contents h b else trim_clip h (rev (bf_data b)) ?n) h' clip'"
    by (rule buffer_trim_ok [OF own' wf spec])
  then show ?thesis using tc ct pos by auto
qed

theorem trim_clips_backwards_witness:
  "\<exists>b' c' h'. buffer_trim (buffer_of [[1, 2], [3, 4], [5]]) 3 (Some buffer_new) (heap_of [[1, 2], [3, 4], [5]]) =
     Some (b', Some c', h') \<and> contents h' b' = [1, 2] \<and> contents h' c' = [5, 3, 4]"
proof -
  let ?x = "[[1, 2], [3, 4], [5]] :: bytes list"
  have o: "owns (heap_of ?x) (buffer_of ?x) (mset (bf_data buffer_new) + {#})"
    using buffer_of_owns(1) [of ?x] by (simp add: buffer_new_def BUFFER_SEGMENT_SIZE_def)
  have "bf_data (buffer_of ?x) = [0] @ [1, 2]" by (simp add: buffer_of_def upt_rec)
  from trim_clips_backwards [OF o _ this] show ?thesis
    by (auto simp: buffer_wf_def heap_of_bytes buffer_new_def contents_def numeral_3_eq_3)
qed

text \<open>C13: \<^verbatim>\<open>Buffer::split\<close> returns on every Buffer and separator, with \<^verbatim>\<open>include_empty\<close> and, the default, without.  The
  pieces hold references of their own that are accounted for and the split Buffer is empty
  afterwards.  The pieces without the separator whose joining with it gives the old contents are
  returned in order, all of them or all that are not empty.\<close>

theorem split_returns_pieces:
  assumes own: "owns h b F"
  shows "\<exists>vec h' pieces. buffer_split ch include_empty b h = Some (vec, buffer_new, h') \<and> heap_ok h' (refs vec + F) \<and> keeps F h h' \<and>
    list_all (buffer_wf h') vec \<and> map (contents h') vec = (if include_empty then pieces else filter (\<lambda>x. x \<noteq> []) pieces) \<and>
    list_all (\<lambda>x. ch \<notin> set x) pieces \<and> buf_join_loop [ch] pieces = contents h b"
proof -
  obtain vec h' where v: "buffer_split ch include_empty b h = Some (vec, buffer_new, h')" "heap_ok h' (refs vec + F)"
    "holds h' vec (buf_split ch include_empty (contents h b))" "keeps F h h'"
    by (rule buffer_split_ok [OF own])
  moreover obtain pieces where "buf_split ch include_empty (contents h b) = (if include_empty then pieces else filter (\<lambda>x. x \<noteq> []) pieces)"
    "buf_join_loop [ch] pieces = contents h b" "\<forall>x\<in>set pieces. ch \<notin> set x"
    by (rule buf_split_pieces)
  ultimately show ?thesis by (intro exI [of _ vec] exI [of _ h'] exI [of _ pieces]) (auto simp: holds_def list_all_iff)
qed

theorem split_returns_pieces_witness:
  "\<exists>vec h' pieces. buffer_split 44 False (buffer_of [[1, 44], [44, 2, 3]]) (heap_of [[1, 44], [44, 2, 3]]) = Some (vec, buffer_new, h') \<and>
     map (contents h') vec = filter (\<lambda>x. x \<noteq> []) pieces \<and> list_all (\<lambda>x. 44 \<notin> set x) pieces \<and>
     buf_join_loop [44] pieces = [1, 44, 44, 2, 3]"
  using split_returns_pieces [OF buffer_of_owns(1), of "[[1, 44], [44, 2, 3]]" 44 False] buffer_of_owns(2) [of "[[1, 44], [44, 2, 3]]"]
  by (auto simp: BUFFER_SEGMENT_SIZE_def)

text \<open>C14: The searches and comparisons of class Buffer, which walk over segment boundaries, agree with
  the search and the comparison of the contents.\<close>

theorem searches_see_contents:
  assumes own: "owns h b (mset (bf_data c) + F)" and c: "buffer_wf h c" and p: "p \<noteq> []"
  shows "buffer_find ch limit b h = Some (buf_find ch limit (contents h b)) \<and>
    buffer_find_any s b h = Some (buf_find_any s (contents h b)) \<and>
    buffer_prefix p b h = Some (take (length p) (contents h b) = p) \<and>
    buffer_equal_string b str h = Some (contents h b = str) \<and>
    buffer_equal_buffer b c h = Some (contents h b = contents h c)"
  using buffer_find_ok [OF own] buffer_find_any_ok [OF own] buffer_equal_string_ok [OF own] buffer_equal_buffer_ok [OF own c]
    buffer_prefix_ok [OF own, of p "take (length p) (contents h b) = p"] p
  by (simp add: buf_prefix_def)

theorem searches_see_contents_witness:
  "buffer_find 3 0 (buffer_of [[1, 2], [3]]) (heap_of [[1, 2], [3]]) = Some (Some 2) \<and>
   buffer_prefix [1, 2, 3] (buffer_of [[1, 2], [3]]) (heap_of [[1, 2], [3]]) = Some True"
proof -
  have o: "owns (heap_of [[1, 2], [3]]) (buffer_of [[1, 2], [3]]) (mset (bf_data buffer_new) + {#})"
    using buffer_of_owns(1) [of "[[1, 2], [3]]"] by (simp add: buffer_new_def BUFFER_SEGMENT_SIZE_def)
  show ?thesis using searches_see_contents [OF o, of "[1, 2, 3]" 3 0] buffer_of_owns(2) [of "[[1, 2], [3]]"]
    by (simp add: buffer_wf_def buffer_new_def contents_def [of _ "\<lparr>bf_length = 0, bf_data = []\<rparr>"] buf_find_def
        BUFFER_SEGMENT_SIZE_def)
qed

end
