(* ===== verification/Simulation.thy ===== *)
theory Simulation
  imports Prelude
begin

text \<open>
  The contract between a component and its specification as a locale: every command that
  the specification accepts succeeds on the component's state, with the same answer and in
  related states.  Sequences of commands are run once and for all.
\<close>

text \<open>Running a list of commands; the answers are collected.\<close>

fun run_cmds :: "('c \<Rightarrow> 's \<Rightarrow> ('r \<times> 's) option) \<Rightarrow> 'c list \<Rightarrow> 's \<Rightarrow> ('r list \<times> 's) option" where
  "run_cmds step [] s = Some ([], s)"
| "run_cmds step (c # cs) s = do {
     (r, s) \<leftarrow> step c s;
     (rs, s) \<leftarrow> run_cmds step cs s;
     Some (r # rs, s) }"

lemma run_cmds_append:
  "run_cmds step (cs @ ds) s = do {
     (rs, s) \<leftarrow> run_cmds step cs s;
     (rs', s) \<leftarrow> run_cmds step ds s;
     Some (rs @ rs', s) }"
proof (induction cs arbitrary: s)
  case Nil
  show ?case by (cases "run_cmds step ds s") auto
next
  case (Cons c cs)
  then show ?case by (cases "step c s") (auto split: Option.bind_splits)
qed

locale simulation =
  fixes rel :: "'s \<Rightarrow> 'a \<Rightarrow> bool"
    and step :: "'c \<Rightarrow> 's \<Rightarrow> ('r \<times> 's) option"
    and spec :: "'c \<Rightarrow> 'a \<Rightarrow> ('r \<times> 'a) option"
  assumes simulates: "rel s a \<Longrightarrow> spec c a = Some (r, a') \<Longrightarrow> \<exists>s'. step c s = Some (r, s') \<and> rel s' a'"
begin

lemma run_simulates:
  "rel s a \<Longrightarrow> run_cmds spec cs a = Some (rs, a') \<Longrightarrow> \<exists>s'. run_cmds step cs s = Some (rs, s') \<and> rel s' a'"
proof (induction cs arbitrary: s a rs)
  case (Cons c cs)
  then obtain r a1 rs' where c: "spec c a = Some (r, a1)" "run_cmds spec cs a1 = Some (rs', a')" "rs = r # rs'"
    by (auto simp: bind_eq_Some_conv)
  from simulates [OF Cons.prems(1) c(1)] obtain s1 where "step c s = Some (r, s1)" "rel s1 a1" by blast
  with Cons.IH [OF this(2) c(2)] c(3) show ?case by auto
qed simp

lemma run_simulates_prefix:
  "rel s a \<Longrightarrow> run_cmds spec (cs @ ds) a = Some (rs, a') \<Longrightarrow>
     \<exists>s1 a1 rs1. run_cmds step cs s = Some (rs1, s1) \<and> run_cmds spec cs a = Some (rs1, a1) \<and> rel s1 a1"
  using run_simulates [of s a cs] by (auto simp: run_cmds_append bind_eq_Some_conv)

end

end
