(* ===== verification/Buffer_Session.thy ===== *)
theory Buffer_Session
  imports Buffer_Ops Simulation
begin

text \<open>
  A program over any number of Buffers that share segments: the Buffers are the variables of
  a store of byte strings.  The reference counts are at every moment exactly the references
  of the Buffers, so that no segment is used after it was freed and none is leaked, and
  writing through one Buffer never changes another.  A command on two Buffers names two
  different ones: the methods of the class are called that way throughout the program.
\<close>

datatype buffer_cmd =
    New
  | Append nat bytes
  | AppendBuffer nat nat
  | AppendLen nat nat nat
  | Assign nat nat
  | Clear nat
  | Skip nat nat
  | Trim nat nat
  | Truncate nat nat
  | Pop nat
  | Copyout nat nat nat
  | MoveoutBytes nat nat nat
  | Moveout nat nat nat nat
  | MoveoutAll nat nat

section \<open>The commands on byte strings\<close>

definition at :: "nat \<Rightarrow> 'a list \<Rightarrow> 'a option" where
  "at i xs = (if i < length xs then Some (xs ! i) else None)"

lemma at_Some [simp]: "at i xs = Some x \<longleftrightarrow> i < length xs \<and> x = xs ! i"
  by (auto simp: at_def)

fun bytes_cmd :: "buffer_cmd \<Rightarrow> bytes list \<Rightarrow> (bytes \<times> bytes list) option" where
  "bytes_cmd New xs = Some ([], xs @ [[]])"
| "bytes_cmd (Append i buf) xs = do { x \<leftarrow> at i xs; y \<leftarrow> buf_append_bytes x buf; Some ([], xs[i := y]) }"
| "bytes_cmd (AppendBuffer i j) xs = do {
     assert_that (i \<noteq> j); x \<leftarrow> at i xs; y \<leftarrow> at j xs; Some ([], xs[i := buf_append_buffer x y]) }"
| "bytes_cmd (AppendLen i j n) xs = do {
     assert_that (i \<noteq> j); x \<leftarrow> at i xs; y \<leftarrow> at j xs; z \<leftarrow> buf_append_len x y n; Some ([], xs[i := z]) }"
| "bytes_cmd (Assign i j) xs = do { assert_that (i \<noteq> j); x \<leftarrow> at i xs; y \<leftarrow> at j xs; Some ([], xs[i := y]) }"
| "bytes_cmd (Clear i) xs = do { x \<leftarrow> at i xs; Some ([], xs[i := []]) }"
| "bytes_cmd (Skip i n) xs = do { x \<leftarrow> at i xs; y \<leftarrow> buf_skip n x; Some ([], xs[i := y]) }"
| "bytes_cmd (Trim i n) xs = do { x \<leftarrow> at i xs; y \<leftarrow> buf_trim n x; Some ([], xs[i := y]) }"
| "bytes_cmd (Truncate i n) xs = do { x \<leftarrow> at i xs; y \<leftarrow> buf_truncate n x; Some ([], xs[i := y]) }"
| "bytes_cmd (Pop i) xs = do { x \<leftarrow> at i xs; (c, y) \<leftarrow> buf_pop x; Some ([c], xs[i := y]) }"
| "bytes_cmd (Copyout i k n) xs = do { x \<leftarrow> at i xs; y \<leftarrow> buf_copyout x k n; Some (y, xs) }"
| "bytes_cmd (MoveoutBytes i k n) xs = do { x \<leftarrow> at i xs; (y, x) \<leftarrow> buf_moveout_bytes x k n; Some (y, xs[i := x]) }"
| "bytes_cmd (Moveout i j k n) xs = do {
     assert_that (i \<noteq> j); x \<leftarrow> at i xs; y \<leftarrow> at j xs; (x, y) \<leftarrow> buf_moveout_buffer x y k n; Some ([], xs[i := x, j := y]) }"
| "bytes_cmd (MoveoutAll i j) xs = do {
     assert_that (i \<noteq> j); x \<leftarrow> at i xs; y \<leftarrow> at j xs;
     let (x, y) = buf_moveout_all x y; Some ([], xs[i := x, j := y]) }"

section \<open>The commands on the store of segments\<close>

type_synonym buffers = "buffer list \<times> heap"

definition update1 :: "nat \<Rightarrow> buffer list \<Rightarrow> (buffer \<times> heap) option \<Rightarrow> (bytes \<times> buffers) option" where
  "update1 i vec res = do { (b, h) \<leftarrow> res; Some ([], (vec[i := b], h)) }"

definition drop_clip :: "(buffer \<times> buffer option \<times> heap) option \<Rightarrow> (buffer \<times> heap) option" where
  "drop_clip res = do { (b, _, h) \<leftarrow> res; Some (b, h) }"

fun heap_cmd :: "buffer_cmd \<Rightarrow> buffers \<Rightarrow> (bytes \<times> buffers) option" where
  "heap_cmd New (vec, h) = Some ([], (vec @ [buffer_new], h))"
| "heap_cmd (Append i buf) (vec, h) = do { b \<leftarrow> at i vec; update1 i vec (buffer_append_bytes b buf h) }"
| "heap_cmd (AppendBuffer i j) (vec, h) = do {
     assert_that (i \<noteq> j); b \<leftarrow> at i vec; c \<leftarrow> at j vec; update1 i vec (buffer_append_buffer b c h) }"
| "heap_cmd (AppendLen i j n) (vec, h) = do {
     assert_that (i \<noteq> j); b \<leftarrow> at i vec; c \<leftarrow> at j vec; update1 i vec (buffer_append_len b c n h) }"
| "heap_cmd (Assign i j) (vec, h) = do {
     assert_that (i \<noteq> j); b \<leftarrow> at i vec; c \<leftarrow> at j vec; update1 i vec (buffer_assign b c h) }"
| "heap_cmd (Clear i) (vec, h) = do { b \<leftarrow> at i vec; update1 i vec (buffer_clear b h) }"
| "heap_cmd (Skip i n) (vec, h) = do { b \<leftarrow> at i vec; update1 i vec (drop_clip (buffer_skip b n None h)) }"
| "heap_cmd (Trim i n) (vec, h) = do { b \<leftarrow> at i vec; update1 i vec (drop_clip (buffer_trim b n None h)) }"
| "heap_cmd (Truncate i n) (vec, h) = do { b \<leftarrow> at i vec; update1 i vec (buffer_truncate b n h) }"
| "heap_cmd (Pop i) (vec, h) = do { b \<leftarrow> at i vec; (c, b, h) \<leftarrow> buffer_pop b h; Some ([c], (vec[i := b], h)) }"
| "heap_cmd (Copyout i k n) (vec, h) = do { b \<leftarrow> at i vec; y \<leftarrow> buffer_copyout b k n h; Some (y, (vec, h)) }"
| "heap_cmd (MoveoutBytes i k n) (vec, h) = do {
     b \<leftarrow> at i vec; (y, b, h) \<leftarrow> buffer_moveout_bytes b k n h; Some (y, (vec[i := b], h)) }"
| "heap_cmd (Moveout i j k n) (vec, h) = do {
     assert_that (i \<noteq> j); b \<leftarrow> at i vec; c \<leftarrow> at j vec;
     (b, c, h) \<leftarrow> buffer_moveout_buffer b c k n h; Some ([], (vec[i := b, j := c], h)) }"
| "heap_cmd (MoveoutAll i j) (vec, h) = do {
     assert_that (i \<noteq> j); b \<leftarrow> at i vec; c \<leftarrow> at j vec;
     let (b, c) = buffer_moveout_all b c; Some ([], (vec[i := b, j := c], h)) }"

section \<open>The invariant\<close>

text \<open>The Buffers have the given contents, and nobody else has references.\<close>

definition stores :: "buffers \<Rightarrow> bytes list \<Rightarrow> bool" where
  "stores = (\<lambda>(vec, h) xs. heap_ok h (refs vec) \<and> holds h vec xs)"

text \<open>The references of all Buffers but some.\<close>

definition others :: "nat set \<Rightarrow> buffer list \<Rightarrow> nat multiset" where
  "others I vec = (\<Sum>k\<in>{..<length vec} - I. mset (bf_data (vec ! k)))"

lemma refs_others: "refs vec = others {} vec"
proof (induction vec rule: rev_induct)
  case (snoc b vec)
  have "(\<Sum>k<length vec. mset (bf_data ((vec @ [b]) ! k))) = (\<Sum>k<length vec. mset (bf_data (vec ! k)))"
    by (rule sum.cong) (auto simp: nth_append)
  with snoc show ?case by (simp add: others_def)
qed (simp add: others_def)

lemma others_remove: "i < length vec \<Longrightarrow> i \<notin> I \<Longrightarrow> others I vec = mset (bf_data (vec ! i)) + others (insert i I) vec"
  unfolding others_def Diff_insert [of _ i I] by (rule sum.remove) auto

lemma others_update [simp]: "i \<in> I \<Longrightarrow> others I (vec[i := b]) = others I vec"
  unfolding others_def by (rule sum.cong) (auto, metis nth_list_update_neq)

lemma others_member: "k < length vec \<Longrightarrow> k \<notin> I \<Longrightarrow> set (bf_data (vec ! k)) \<subseteq> set_mset (others I vec)"
  using others_remove [of k vec I] by auto

lemma holds_nth: "holds h vec xs \<longleftrightarrow> length xs = length vec \<and> (\<forall>k<length vec. buffer_wf h (vec ! k) \<and> contents h (vec ! k) = xs ! k)"
  by (auto simp: holds_def all_set_conv_all_nth list_eq_iff_nth_eq)

lemma stores_focus:
  assumes "stores (vec, h) xs" and "i < length vec"
  shows "owns h (vec ! i) (others {i} vec)" "contents h (vec ! i) = xs ! i" "length xs = length vec"
  using assms others_remove [of i vec "{}"] by (auto simp: stores_def owns_def holds_nth refs_others)

lemma stores_focus2:
  assumes s: "stores (vec, h) xs" and i: "i < length vec" and j: "j < length vec" "i \<noteq> j"
  shows "owns h (vec ! i) (mset (bf_data (vec ! j)) + others {j, i} vec)" "buffer_wf h (vec ! j)"
    "contents h (vec ! i) = xs ! i" "contents h (vec ! j) = xs ! j" "length xs = length vec"
  using stores_focus [OF s i] stores_focus [OF s j(1)] others_remove [of j vec "{i}"] j i by (auto simp: owns_def)

lemma holds_update:
  assumes "holds h vec xs" and "keeps (others I vec) h h'"
    and "\<And>k. k \<in> I \<Longrightarrow> k < length vec \<Longrightarrow> buffer_wf h' (vec' ! k) \<and> contents h' (vec' ! k) = xs' ! k"
    and "\<And>k. k \<notin> I \<Longrightarrow> k < length vec \<Longrightarrow> vec' ! k = vec ! k \<and> xs' ! k = xs ! k"
    and "length vec' = length vec" "length xs' = length xs"
  shows "holds h' vec' xs'"
proof -
  have "buffer_wf h' (vec' ! k) \<and> contents h' (vec' ! k) = xs' ! k" if k: "k < length vec" for k
  proof (cases "k \<in> I")
    case False
    then show ?thesis using keeps_buffer [OF assms(2) others_member [OF k False]] assms(1,4) k by (simp add: holds_nth)
  qed (use assms(3) k in simp)
  then show ?thesis using assms(1,5,6) by (simp add: holds_nth)
qed

lemma stores_update:
  assumes s: "stores (vec, h) xs" and i: "i < length vec" and b: "owns h' b (others {i} vec)" "keeps (others {i} vec) h h'"
  shows "stores (vec[i := b], h') (xs[i := contents h' b])"
proof -
  have "heap_ok h' (refs (vec[i := b]))"
    using b(1) i others_remove [of i "vec[i := b]" "{}"] by (simp add: refs_others owns_def)
  moreover have "holds h' (vec[i := b]) (xs[i := contents h' b])"
    by (rule holds_update [OF _ b(2)])
      (use s i owns_wf [OF b(1)] in \<open>auto simp: stores_def holds_nth nth_list_update\<close>)
  ultimately show ?thesis by (simp add: stores_def)
qed

lemma stores_update2:
  assumes s: "stores (vec, h) xs" and i: "i < length vec" and j: "j < length vec" "i \<noteq> j"
    and c: "owns h' c (mset (bf_data b) + others {j, i} vec)" and b: "buffer_wf h' b" and k: "keeps (others {j, i} vec) h h'"
  shows "stores (vec[i := b, j := c], h') (xs[i := contents h' b, j := contents h' c])"
proof -
  let ?v = "vec[i := b, j := c]"
  have "others {} ?v = mset (bf_data b) + (mset (bf_data c) + others {j, i} vec)"
    using i j others_remove [of i ?v "{}"] others_remove [of j ?v "{i}"] by (simp add: nth_list_update)
  then have "heap_ok h' (refs ?v)" using c by (simp add: refs_others owns_def ac_simps)
  moreover have "holds h' ?v (xs[i := contents h' b, j := contents h' c])"
    by (rule holds_update [OF _ k])
      (use s i j b owns_wf [OF c] in \<open>auto simp: stores_def holds_nth nth_list_update\<close>)
  ultimately show ?thesis by (simp add: stores_def)
qed

section \<open>Every command is simulated\<close>

lemma update1_ok:
  assumes s: "stores (vec, h) xs" and i: "i < length vec"
    and op: "\<And>F. owns h (vec ! i) F \<Longrightarrow> \<exists>b h'. res = Some (b, h') \<and> owns h' b F \<and> contents h' b = y \<and> keeps F h h'"
  shows "\<exists>s'. update1 i vec res = Some ([], s') \<and> stores s' (xs[i := y])"
proof -
  obtain b h' where b: "res = Some (b, h')" "owns h' b (others {i} vec)" "contents h' b = y" "keeps (others {i} vec) h h'"
    using op [OF stores_focus(1) [OF s i]] by blast
  then show ?thesis using stores_update [OF s i b(2,4)] by (simp add: update1_def)
qed

text \<open>The same with a second Buffer that is read.\<close>

lemma update1_from_ok:
  assumes s: "stores (vec, h) xs" and i: "i < length vec" and j: "j < length vec" "i \<noteq> j"
    and op: "\<And>F. owns h (vec ! i) (mset (bf_data (vec ! j)) + F) \<Longrightarrow> buffer_wf h (vec ! j) \<Longrightarrow>
      \<exists>b h'. res = Some (b, h') \<and> owns h' b (mset (bf_data (vec ! j)) + F) \<and> contents h' b = y \<and>
        keeps (mset (bf_data (vec ! j)) + F) h h'"
  shows "\<exists>s'. update1 i vec res = Some ([], s') \<and> stores s' (xs[i := y])"
proof -
  note f = stores_focus2 [OF s i j]
  have o: "others {i} vec = mset (bf_data (vec ! j)) + others {j, i} vec" using others_remove [of j vec "{i}"] j by simp
  obtain b h' where b: "res = Some (b, h')" "owns h' b (others {i} vec)" "contents h' b = y" "keeps (others {i} vec) h h'"
    using op [OF f(1,2)] unfolding o by blast
  then show ?thesis using stores_update [OF s i b(2,4)] by (simp add: update1_def)
qed

lemma drop_clip_Some [simp]: "drop_clip (Some (b, c, h)) = Some (b, h)"
  by (simp add: drop_clip_def)

lemma heap_cmd_unary:
  assumes s: "stores (vec, h) xs" and i: "i < length vec"
  shows "buf_append_bytes (xs ! i) buf = Some y \<Longrightarrow>
      \<exists>s'. update1 i vec (buffer_append_bytes (vec ! i) buf h) = Some ([], s') \<and> stores s' (xs[i := y])"
    and "buf_skip n (xs ! i) = Some y \<Longrightarrow>
      \<exists>s'. update1 i vec (drop_clip (buffer_skip (vec ! i) n None h)) = Some ([], s') \<and> stores s' (xs[i := y])"
    and "buf_trim n (xs ! i) = Some y \<Longrightarrow>
      \<exists>s'. update1 i vec (drop_clip (buffer_trim (vec ! i) n None h)) = Some ([], s') \<and> stores s' (xs[i := y])"
    and "buf_truncate n (xs ! i) = Some y \<Longrightarrow>
      \<exists>s'. update1 i vec (buffer_truncate (vec ! i) n h) = Some ([], s') \<and> stores s' (xs[i := y])"
    and "\<exists>s'. update1 i vec (buffer_clear (vec ! i) h) = Some ([], s') \<and> stores s' (xs[i := []])"
proof -
  have c: "contents h (vec ! i) = xs ! i" using stores_focus(2) [OF s i] .
  show "\<exists>s'. update1 i vec (buffer_append_bytes (vec ! i) buf h) = Some ([], s') \<and> stores s' (xs[i := y])"
    if "buf_append_bytes (xs ! i) buf = Some y"
  proof (rule update1_ok [OF s i])
    have ne: "buf \<noteq> []" and y: "y = xs ! i @ buf" using that by (auto simp: buf_append_bytes_def)
    fix F assume "owns h (vec ! i) F"
    then show "\<exists>b h'. buffer_append_bytes (vec ! i) buf h = Some (b, h') \<and> owns h' b F \<and> contents h' b = y \<and> keeps F h h'"
      unfolding y c [symmetric] using ne by (rule buffer_append_bytes_ok) blast
  qed
  show "\<exists>s'. update1 i vec (drop_clip (buffer_skip (vec ! i) n None h)) = Some ([], s') \<and> stores s' (xs[i := y])"
    if "buf_skip n (xs ! i) = Some y"
    by (rule update1_ok [OF s i], erule buffer_skip_None_ok) (use that c in auto)
  show "\<exists>s'. update1 i vec (drop_clip (buffer_trim (vec ! i) n None h)) = Some ([], s') \<and> stores s' (xs[i := y])"
    if "buf_trim n (xs ! i) = Some y"
    by (rule update1_ok [OF s i], erule buffer_trim_None_ok) (use that c in auto)
  show "\<exists>s'. update1 i vec (buffer_truncate (vec ! i) n h) = Some ([], s') \<and> stores s' (xs[i := y])"
    if "buf_truncate n (xs ! i) = Some y"
    by (rule update1_ok [OF s i], erule buffer_truncate_ok) (use that c in auto)
  show "\<exists>s'. update1 i vec (buffer_clear (vec ! i) h) = Some ([], s') \<and> stores s' (xs[i := []])"
    by (rule update1_ok [OF s i], erule buffer_clear_ok) (use owns_new in auto)
qed

lemma heap_cmd_reads:
  assumes s: "stores (vec, h) xs" and i: "i < length vec"
  shows "buf_pop (xs ! i) = Some (c, y) \<Longrightarrow>
      \<exists>b h'. buffer_pop (vec ! i) h = Some (c, b, h') \<and> stores (vec[i := b], h') (xs[i := y])"
    and "buf_moveout_bytes (xs ! i) k n = Some (x, y) \<Longrightarrow>
      \<exists>b h'. buffer_moveout_bytes (vec ! i) k n h = Some (x, b, h') \<and> stores (vec[i := b], h') (xs[i := y])"
    and "buf_copyout (xs ! i) k n = Some x \<Longrightarrow> buffer_copyout (vec ! i) k n h = Some x"
proof -
  note f = stores_focus(1,2) [OF s i]
  show "\<exists>b h'. buffer_pop (vec ! i) h = Some (c, b, h') \<and> stores (vec[i := b], h') (xs[i := y])"
    if "buf_pop (xs ! i) = Some (c, y)"
    using that unfolding f(2) [symmetric] by (rule buffer_pop_ok [OF f(1)]) (use stores_update [OF s i] in blast)
  show "\<exists>b h'. buffer_moveout_bytes (vec ! i) k n h = Some (x, b, h') \<and> stores (vec[i := b], h') (xs[i := y])"
    if "buf_moveout_bytes (xs ! i) k n = Some (x, y)"
    using that unfolding f(2) [symmetric] by (rule buffer_moveout_bytes_ok [OF f(1)]) (use stores_update [OF s i] in blast)
  show "buffer_copyout (vec ! i) k n h = Some x" if "buf_copyout (xs ! i) k n = Some x"
    using buffer_copyout_ok [OF f(1)] that f(2) by simp
qed

lemma heap_cmd_binary:
  assumes s: "stores (vec, h) xs" and i: "i < length vec" and j: "j < length vec" "i \<noteq> j"
  shows "\<exists>s'. update1 i vec (buffer_append_buffer (vec ! i) (vec ! j) h) = Some ([], s') \<and> stores s' (xs[i := xs ! i @ xs ! j])"
    and "buf_append_len (xs ! i) (xs ! j) n = Some y \<Longrightarrow>
      \<exists>s'. update1 i vec (buffer_append_len (vec ! i) (vec ! j) n h) = Some ([], s') \<and> stores s' (xs[i := y])"
    and "\<exists>s'. update1 i vec (buffer_assign (vec ! i) (vec ! j) h) = Some ([], s') \<and> stores s' (xs[i := xs ! j])"
    and "buf_moveout_buffer (xs ! i) (xs ! j) k n = Some (x, y) \<Longrightarrow>
      \<exists>b c h'. buffer_moveout_buffer (vec ! i) (vec ! j) k n h = Some (b, c, h') \<and>
        stores (vec[i := b, j := c], h') (xs[i := x, j := y])"
    and "\<exists>b c. buffer_moveout_all (vec ! i) (vec ! j) = (b, c) \<and>
        stores (vec[i := b, j := c], h) (xs[i := xs ! i @ xs ! j, j := []])"
proof -
  note f = stores_focus2 [OF s i j]
  show "\<exists>s'. update1 i vec (buffer_append_buffer (vec ! i) (vec ! j) h) = Some ([], s') \<and> stores s' (xs[i := xs ! i @ xs ! j])"
    by (rule update1_from_ok [OF s i j], erule (1) buffer_append_buffer_ok) (use f(3,4) same_keeps in auto)
  show "\<exists>s'. update1 i vec (buffer_append_len (vec ! i) (vec ! j) n h) = Some ([], s') \<and> stores s' (xs[i := y])"
    if "buf_append_len (xs ! i) (xs ! j) n = Some y"
    by (rule update1_from_ok [OF s i j], erule (1) buffer_append_len_ok) (use f(3,4) that in auto)
  show "\<exists>s'. update1 i vec (buffer_assign (vec ! i) (vec ! j) h) = Some ([], s') \<and> stores s' (xs[i := xs ! j])"
    by (rule update1_from_ok [OF s i j], erule (1) buffer_assign_ok) (use f(3,4) in auto)
  note g = stores_focus2 [OF s j(1) i j(2) [symmetric]]
  have o: "others {i, j} vec = others {j, i} vec" by (simp add: insert_commute)
  show "\<exists>b c h'. buffer_moveout_buffer (vec ! i) (vec ! j) k n h = Some (b, c, h') \<and>
        stores (vec[i := b, j := c], h') (xs[i := x, j := y])"
    if "buf_moveout_buffer (xs ! i) (xs ! j) k n = Some (x, y)"
    using that unfolding g(3,4) [symmetric]
    by (rule buffer_moveout_buffer_ok [OF g(1,2)]) (use stores_update2 [OF s i j] o in auto)
  obtain b c where m: "buffer_moveout_all (vec ! i) (vec ! j) = (b, c)" by fastforce
  then have r: "owns h b (others {j, i} vec)" "c = buffer_new" "contents h b = xs ! i @ xs ! j"
    using owns_all_moved [OF g(1,2)] g(3,4) o by simp_all
  have "owns h c (mset (bf_data b) + others {j, i} vec)"
    unfolding r(2) by (rule owns_new) (use r(1) in \<open>simp add: owns_def\<close>)
  from stores_update2 [OF s i j this owns_wf [OF r(1)]] m r(2,3)
  show "\<exists>b c. buffer_moveout_all (vec ! i) (vec ! j) = (b, c) \<and>
        stores (vec[i := b, j := c], h) (xs[i := xs ! i @ xs ! j, j := []])"
    by (simp add: owns_new)
qed

lemma heap_cmd_ok:
  assumes "stores s xs" and "bytes_cmd c xs = Some (r, xs')"
  shows "\<exists>s'. heap_cmd c s = Some (r, s') \<and> stores s' xs'"
proof -
  obtain vec h where vh: "s = (vec, h)" by fastforce
  note s = assms(1) [unfolded vh]
  have len: "length xs = length vec" using s by (simp add: stores_def holds_nth)
  note spec = assms(2) and simps = vh len bind_eq_Some_conv buf_append_buffer_def buf_moveout_all_def
  show ?thesis
  proof (cases c)
    case New
    then show ?thesis using assms s vh by (auto simp: stores_def holds_append buffer_new_def buffer_wf_def contents_def)
  next
    case (Append i buf)
    then show ?thesis using spec heap_cmd_unary(1) [OF s, of i buf] s by (auto simp: simps)
  next
    case (AppendBuffer i j)
    then show ?thesis using spec heap_cmd_binary(1) [OF s, of i j] s by (auto simp: simps)
  next
    case (AppendLen i j n)
    then show ?thesis using spec heap_cmd_binary(2) [OF s, of i j n] s by (auto simp: simps)
  next
    case (Assign i j)
    then show ?thesis using spec heap_cmd_binary(3) [OF s, of i j] s by (auto simp: simps)
  next
    case (Clear i)
    then show ?thesis using spec heap_cmd_unary(5) [OF s, of i] s by (auto simp: simps)
  next
    case (Skip i n)
    then show ?thesis using spec heap_cmd_unary(2) [OF s, of i n] s by (auto simp: simps)
  next
    case (Trim i n)
    then show ?thesis using spec heap_cmd_unary(3) [OF s, of i n] s by (auto simp: simps)
  next
    case (Truncate i n)
    then show ?thesis using spec heap_cmd_unary(4) [OF s, of i n] s by (auto simp: simps)
  next
    case (Pop i)
    then show ?thesis using spec heap_cmd_reads(1) [OF s, of i] s by (auto simp: simps)
  next
    case (Copyout i k n)
    then show ?thesis using spec heap_cmd_reads(3) [OF s, of i k n] s by (auto simp: simps)
  next
    case (MoveoutBytes i k n)
    then show ?thesis using spec heap_cmd_reads(2) [OF s, of i k n] s by (auto simp: simps)
  next
    case (Moveout i j k n)
    then show ?thesis using spec heap_cmd_binary(4) [OF s, of i j k n] s by (auto simp: simps)
  next
    case (MoveoutAll i j)
    then show ?thesis using spec heap_cmd_binary(5) [OF s, of i j] s by (auto simp: simps)
  qed
qed

interpretation buffers: simulation stores heap_cmd bytes_cmd
  by unfold_locales (rule heap_cmd_ok)

section \<open>Properties\<close>

text \<open>C6: Any program over Buffers - appending bytes and other Buffers, assigning, skipping, trimming,
  moving data out - that never violates an assertion of its operations runs on the reference
  counted, copy-on-write segments without a failed assertion or a use of freed memory, gives the same
  answers as the program over byte strings and ends with every Buffer holding the bytes of its string;
  sharing of segments is never observable.\<close>

theorem buffer_programs:
  assumes "stores s xs" and "run_cmds bytes_cmd cs xs = Some (rs, xs')"
  shows "\<exists>s'. run_cmds heap_cmd cs s = Some (rs, s') \<and> stores s' xs'"
  using assms by (rule buffers.run_simulates)

lemma stores_empty: "stores ([], heap_of []) []"
  using heap_of_ok [of "[]"] by (simp add: stores_def)

theorem buffer_programs_witness:
  "\<exists>s'. run_cmds heap_cmd [New, New, Append 0 [1, 2, 3], AppendBuffer 1 0, Skip 0 1, Append 1 [9], Pop 1] ([], heap_of []) =
     Some ([[], [], [], [], [], [], [1]], s') \<and> stores s' [[2, 3], [2, 3, 9]]"
  by (rule buffer_programs [OF stores_empty]) (simp add: at_def buf_append_bytes_def buf_append_buffer_def buf_skip_def buf_pop_def)

text \<open>C10: No segment is leaked: when a program that started without segments ends with every Buffer
  empty, the store has no segment left.\<close>

theorem no_segment_leaked:
  assumes "heap_ok h {#}" and "run_cmds bytes_cmd cs [] = Some (rs, xs)" and "\<forall>x\<in>set xs. x = []"
  shows "\<exists>vec h'. run_cmds heap_cmd cs ([], h) = Some (rs, (vec, h')) \<and> hp_segs h' = Map.empty"
proof -
  have "stores ([], h) []" using assms(1) by (simp add: stores_def)
  from buffers.run_simulates [OF this assms(2)] obtain vec h' where
    r: "run_cmds heap_cmd cs ([], h) = Some (rs, (vec, h'))" "heap_ok h' (refs vec)" "holds h' vec xs"
    by (auto simp: stores_def)
  have "bf_data b = []" if "b \<in> set vec" for b
    using that r(3) assms(3) bytes_of_eq_Nil by (fastforce simp: holds_def buffer_wf_def contents_def)
  then have "refs vec = {#}" by (simp add: refs_def)
  then have "hp_segs h' a = None" for a using heap_ok_cell [OF r(2), of a] by (cases "hp_segs h' a") auto
  then show ?thesis using r(1) by auto
qed

theorem no_segment_leaked_witness:
  "\<exists>vec h'. run_cmds heap_cmd [New, New, Append 0 [1, 2, 3], AppendBuffer 1 0, Skip 0 1, Clear 1, Clear 0] ([], heap_of []) =
     Some ([[], [], [], [], [], [], []], (vec, h')) \<and> hp_segs h' = Map.empty"
  by (rule no_segment_leaked [where xs = "[[], []]"])
    (simp_all add: heap_of_ok [of "[]", simplified] at_def buf_append_bytes_def buf_append_buffer_def buf_skip_def)

end
