(* ===== verification/XCodec_Window.thy ===== *)
theory XCodec_Window
  imports Prelude
begin

text \<open>
  xcodec/xcodec_window.h: the window of recently declared hashes through which the
  encoder abbreviates a hash to one byte and the decoder expands it again.  The record
  has the fields of class XCodecWindow; reference counts of the segments are left to
  the theory of BufferSegment.
\<close>

definition XCODEC_WINDOW_MAX :: nat where "XCODEC_WINDOW_MAX = 0xff"
definition XCODEC_WINDOW_COUNT :: nat where "XCODEC_WINDOW_COUNT = XCODEC_WINDOW_MAX + 1"

lemma XCODEC_WINDOW_COUNT_eq: "XCODEC_WINDOW_COUNT = 256"
  by (simp add: XCODEC_WINDOW_COUNT_def XCODEC_WINDOW_MAX_def)

lemma XCODEC_WINDOW_COUNT_pos [simp]: "0 < XCODEC_WINDOW_COUNT"
  by (simp add: XCODEC_WINDOW_COUNT_def)

record xcodec_window =
  xw_window :: "u64 list"
  xw_cursor :: nat
  xw_present :: "u64 \<rightharpoonup> nat"
  xw_segments :: "u64 \<rightharpoonup> bytes"

definition window_new :: xcodec_window where
  "window_new =
     \<lparr>xw_window = replicate XCODEC_WINDOW_COUNT 0, xw_cursor = 0,
      xw_present = Map.empty, xw_segments = Map.empty\<rparr>"

text \<open>\<^verbatim>\<open>present_[old]\<close> reads 0 for a key that is absent.\<close>

definition window_evict :: "xcodec_window \<Rightarrow> xcodec_window option" where
  "window_evict w =
     (let old = xw_window w ! xw_cursor w in
      if old \<noteq> 0 then do {
        assert_that ((case xw_present w old of None \<Rightarrow> 0 | Some i \<Rightarrow> i) = xw_cursor w);
        let w = w\<lparr>xw_present := (xw_present w)(old := None)\<rparr>;
        assert_that (xw_segments w old \<noteq> None);
        Some (w\<lparr>xw_segments := (xw_segments w)(old := None)\<rparr>) }
      else Some w)"

definition window_declare :: "u64 \<Rightarrow> bytes \<Rightarrow> xcodec_window \<Rightarrow> xcodec_window option" where
  "window_declare hash seg w =
     (if hash = 0 then Some w
      else if xw_present w hash \<noteq> None then Some w
      else do {
        w \<leftarrow> window_evict w;
        Some (w\<lparr>xw_window := (xw_window w)[xw_cursor w := hash],
                xw_present := (xw_present w)(hash \<mapsto> xw_cursor w),
                xw_segments := (xw_segments w)(hash \<mapsto> seg),
                xw_cursor := (xw_cursor w + 1) mod XCODEC_WINDOW_COUNT\<rparr>) })"

text \<open>The inner option is the pointer the code returns (\<open>None\<close> for \<^verbatim>\<open>NULL\<close>), the outer
  one a failed assertion.\<close>

definition window_dereference :: "nat \<Rightarrow> xcodec_window \<Rightarrow> bytes option option" where
  "window_dereference c w = do {
     assert_that (c < XCODEC_WINDOW_COUNT);
     (if xw_window w ! c = 0 then Some None
      else do {
        assert_that (xw_segments w (xw_window w ! c) \<noteq> None);
        Some (xw_segments w (xw_window w ! c)) }) }"

definition window_present :: "u64 \<Rightarrow> xcodec_window \<Rightarrow> byte option option" where
  "window_present hash w =
     (case xw_present w hash of
        None \<Rightarrow> Some None
      | Some i \<Rightarrow> do {
          assert_that (xw_window w ! i = hash);
          Some (Some (of_nat i)) })"

section \<open>Well-formed windows\<close>

text \<open>The two maps and the array describe the same set of hashes.\<close>

definition window_wf :: "xcodec_window \<Rightarrow> bool" where
  "window_wf w \<longleftrightarrow>
     length (xw_window w) = XCODEC_WINDOW_COUNT \<and> xw_cursor w < XCODEC_WINDOW_COUNT \<and>
     (\<forall>h i. xw_present w h = Some i \<longleftrightarrow> h \<noteq> 0 \<and> i < XCODEC_WINDOW_COUNT \<and> xw_window w ! i = h) \<and>
     dom (xw_segments w) = dom (xw_present w)"

lemma window_wf_new [simp]: "window_wf window_new"
proof -
  have "replicate XCODEC_WINDOW_COUNT 0 ! i \<noteq> h" if "i < XCODEC_WINDOW_COUNT" "h \<noteq> 0" for i and h :: u64
    using that by simp
  then show ?thesis by (auto simp: window_wf_def window_new_def)
qed

lemma xw_segments_new [simp]: "xw_segments window_new = Map.empty"
  by (simp add: window_new_def)

lemma window_wf_nth:
  "window_wf w \<Longrightarrow> i < XCODEC_WINDOW_COUNT \<Longrightarrow> xw_window w ! i \<noteq> 0 \<Longrightarrow>
     xw_present w (xw_window w ! i) = Some i"
  by (simp add: window_wf_def)

lemma window_wf_inj:
  assumes "window_wf w" "i < XCODEC_WINDOW_COUNT" "j < XCODEC_WINDOW_COUNT"
    "xw_window w ! i \<noteq> 0" "xw_window w ! i = xw_window w ! j"
  shows "i = j"
proof -
  have "xw_present w (xw_window w ! i) = Some i" by (rule window_wf_nth) fact+
  moreover have "xw_present w (xw_window w ! j) = Some j"
    using assms(4,5) by (intro window_wf_nth [OF assms(1,3)]) metis
  ultimately show ?thesis using assms(5) by (metis option.inject)
qed

lemma window_wf_segments:
  assumes "window_wf w" "i < XCODEC_WINDOW_COUNT" "xw_window w ! i \<noteq> 0"
  shows "\<exists>seg. xw_segments w (xw_window w ! i) = Some seg"
proof -
  have "xw_window w ! i \<in> dom (xw_present w)" using window_wf_nth [OF assms] by blast
  then show ?thesis using assms(1) by (auto simp: window_wf_def)
qed

text \<open>The successor window as a total function; on well-formed windows no assertion of
  the code fails and \<^verbatim>\<open>declare\<close> is this function.\<close>

definition declared :: "u64 \<Rightarrow> bytes \<Rightarrow> xcodec_window \<Rightarrow> xcodec_window" where
  "declared hash seg w =
     (if hash = 0 \<or> xw_present w hash \<noteq> None then w
      else let old = xw_window w ! xw_cursor w in
        w\<lparr>xw_window := (xw_window w)[xw_cursor w := hash],
          xw_present := ((xw_present w)(old := None))(hash \<mapsto> xw_cursor w),
          xw_segments := ((xw_segments w)(old := None))(hash \<mapsto> seg),
          xw_cursor := (xw_cursor w + 1) mod XCODEC_WINDOW_COUNT\<rparr>)"

lemma window_wf_zero: "window_wf w \<Longrightarrow> xw_present w 0 = None \<and> xw_segments w 0 = None"
  unfolding window_wf_def by (metis domIff not_None_eq)

lemma window_declare_eq: "window_wf w \<Longrightarrow> window_declare hash seg w = Some (declared hash seg w)"
proof -
  assume wf: "window_wf w"
  show ?thesis
  proof (cases "xw_window w ! xw_cursor w = 0")
    case True
    then show ?thesis
      using window_wf_zero [OF wf]
      by (simp add: window_declare_def window_evict_def declared_def Let_def fun_upd_idem)
  next
    case False
    have c: "xw_cursor w < XCODEC_WINDOW_COUNT" using wf by (simp add: window_wf_def)
    show ?thesis
      using window_wf_nth [OF wf c False] window_wf_segments [OF wf c False] False
      by (auto simp: window_declare_def window_evict_def declared_def Let_def)
  qed
qed

lemma window_wf_declared: "window_wf w \<Longrightarrow> window_wf (declared hash seg w)"
proof -
  assume wf: "window_wf w"
  let ?c = "xw_cursor w" and ?old = "xw_window w ! xw_cursor w"
  have c: "?c < XCODEC_WINDOW_COUNT" and len: "length (xw_window w) = XCODEC_WINDOW_COUNT"
    and pres: "\<And>h i. xw_present w h = Some i \<longleftrightarrow> h \<noteq> 0 \<and> i < XCODEC_WINDOW_COUNT \<and> xw_window w ! i = h"
    and segs: "dom (xw_segments w) = dom (xw_present w)"
    using wf unfolding window_wf_def by blast+
  show ?thesis
  proof (cases "hash = 0 \<or> xw_present w hash \<noteq> None")
    case True
    then show ?thesis using wf by (auto simp: declared_def)
  next
    case False
    then have new: "hash \<noteq> 0" "\<And>i. i < XCODEC_WINDOW_COUNT \<Longrightarrow> xw_window w ! i \<noteq> hash"
      using pres [of hash] by (blast, metis option.distinct(1))
    have "(((xw_present w)(?old := None))(hash \<mapsto> ?c)) h = Some i \<longleftrightarrow>
        h \<noteq> 0 \<and> i < XCODEC_WINDOW_COUNT \<and> (xw_window w)[?c := hash] ! i = h" for h i
    proof (cases "i = ?c")
      case True
      then show ?thesis
        using c len new(1) new(2) [OF c] pres [of h ?c] by (simp add: fun_upd_apply)
    next
      case i: False
      show ?thesis
      proof (cases "h = hash \<or> h = ?old")
        case True
        then show ?thesis
          using i new(2) [of i] window_wf_inj [OF wf c, of i] by (elim disjE) (simp_all, metis)
      next
        case False
        with i show ?thesis using pres [of h i] by (simp add: fun_upd_apply)
      qed
    qed
    moreover have "dom (((xw_segments w)(?old := None))(hash \<mapsto> seg)) =
        dom (((xw_present w)(?old := None))(hash \<mapsto> ?c))"
      using segs by simp
    ultimately show ?thesis
      using False len unfolding window_wf_def declared_def by (simp add: Let_def del: fun_upd_apply)
  qed
qed

lemma window_dereference_eq:
  assumes "window_wf w" "c < XCODEC_WINDOW_COUNT"
  shows "window_dereference c w =
     Some (if xw_window w ! c = 0 then None else xw_segments w (xw_window w ! c))"
  using assms window_wf_segments [OF assms] by (auto simp: window_dereference_def)

lemma window_present_eq:
  assumes "window_wf w"
  shows "window_present hash w = Some (map_option of_nat (xw_present w hash))"
proof (cases "xw_present w hash")
  case None
  then show ?thesis by (simp add: window_present_def)
next
  case (Some i)
  then have "xw_window w ! i = hash" using assms by (auto simp: window_wf_def)
  with Some show ?thesis by (simp add: window_present_def)
qed

text \<open>An index handed out by \<^verbatim>\<open>present\<close> dereferences to the declared segment.\<close>

lemma window_present_dereference:
  assumes wf: "window_wf w" and p: "window_present hash w = Some (Some b)"
  shows "window_dereference (unat b) w = Some (xw_segments w hash) \<and> xw_segments w hash \<noteq> None"
proof -
  obtain i where i: "xw_present w hash = Some i" "b = of_nat i"
    using p window_present_eq [OF wf, of hash] by auto
  then have lt: "i < XCODEC_WINDOW_COUNT" and h: "xw_window w ! i = hash" "hash \<noteq> 0"
    using wf by (auto simp: window_wf_def)
  have "unat b = i" using lt i(2) by (simp add: XCODEC_WINDOW_COUNT_eq unat_of_nat)
  then show ?thesis
    using window_dereference_eq [OF wf lt] window_wf_segments [OF wf lt] h by auto
qed

lemma xw_segments_declared:
  "xw_segments (declared hash seg w) h = Some s \<Longrightarrow>
     xw_segments w h = Some s \<or> h = hash \<and> s = seg \<and> hash \<noteq> 0"
  by (auto simp: declared_def Let_def split: if_splits)

section \<open>Any sequence of declarations\<close>

fun window_declare_all :: "(u64 \<times> bytes) list \<Rightarrow> xcodec_window \<Rightarrow> xcodec_window option" where
  "window_declare_all [] w = Some w"
| "window_declare_all ((hash, seg) # ds) w = do { w \<leftarrow> window_declare hash seg w; window_declare_all ds w }"

lemma window_declare_all_wf: "window_wf w \<Longrightarrow> \<exists>w'. window_declare_all ds w = Some w' \<and> window_wf w'"
  by (induction ds arbitrary: w) (auto simp: window_declare_eq window_wf_declared)

lemma window_wf_card:
  assumes "window_wf w"
  shows "card (dom (xw_present w)) \<le> XCODEC_WINDOW_COUNT"
proof -
  have "dom (xw_present w) \<subseteq> (\<lambda>i. xw_window w ! i) ` {..<XCODEC_WINDOW_COUNT}"
    using assms by (auto simp: window_wf_def)
  then have "card (dom (xw_present w)) \<le> card ((\<lambda>i. xw_window w ! i) ` {..<XCODEC_WINDOW_COUNT})" by (rule card_mono [rotated]) simp
  also have "\<dots> \<le> XCODEC_WINDOW_COUNT" using card_image_le [of "{..<XCODEC_WINDOW_COUNT}" "\<lambda>i. xw_window w ! i"] by simp
  finally show ?thesis .
qed

text \<open>C28: However many hashes are declared, in any order and with repetitions, \<^verbatim>\<open>XCodecWindow::declare\<close>
  fails no assertion and the window stays well formed: its array and its two maps describe
  the same hashes, at most 256 of them, and each of them is presented as an index that
  dereferences to its segment.\<close>

theorem window_well_formed:
  "\<exists>w. window_declare_all ds window_new = Some w \<and> window_wf w \<and> card (dom (xw_present w)) \<le> XCODEC_WINDOW_COUNT \<and>
     (\<forall>hash\<in>dom (xw_present w). \<exists>i. window_present hash w = Some (Some i) \<and>
        window_dereference (unat i) w = Some (xw_segments w hash))"
proof -
  obtain w where w: "window_declare_all ds window_new = Some w" "window_wf w"
    using window_declare_all_wf [OF window_wf_new] by blast
  have "\<exists>i. window_present hash w = Some (Some i) \<and> window_dereference (unat i) w = Some (xw_segments w hash)"
    if "xw_present w hash = Some j" for hash j
  proof -
    have j: "j < XCODEC_WINDOW_COUNT" "xw_window w ! j = hash" "hash \<noteq> 0" using w(2) that by (auto simp: window_wf_def)
    then have "unat (of_nat j :: byte) = j" by (simp add: unsigned_of_nat take_bit_nat_eq_self XCODEC_WINDOW_COUNT_eq)
    then show ?thesis using that j window_dereference_eq [OF w(2) j(1)] by (simp add: window_present_def)
  qed
  then show ?thesis using w window_wf_card [OF w(2)] by blast
qed

theorem window_well_formed_witness:
  "\<exists>w. window_declare_all [(5, [7]), (6, [8]), (5, [7])] window_new = Some w \<and> window_wf w \<and>
     card (dom (xw_present w)) \<le> XCODEC_WINDOW_COUNT \<and>
     (\<forall>hash\<in>dom (xw_present w). \<exists>i. window_present hash w = Some (Some i) \<and>
        window_dereference (unat i) w = Some (xw_segments w hash))"
  by (rule window_well_formed)

end
