(* ===== verification/XCodec_Hash.thy ===== *)
theory XCodec_Hash
  imports Prelude
begin

text \<open>
  The constants of xcodec/xcodec.h and the rolling hash of xcodec/xcodec_hash.h, at the
  widths of the source (the two sums are \<^verbatim>\<open>uint32_t\<close> and wrap; the result is a
  \<^verbatim>\<open>uint64_t\<close>).  The main lemma is that rolling a byte in and the oldest byte out gives
  the state that hashing the last \<^verbatim>\<open>XCODEC_SEGMENT_LENGTH\<close> bytes afresh would give, so
  that the encoder (which rolls) and the decoder (which hashes a whole segment) agree
  on the name of a segment.
\<close>

section \<open>Constants\<close>

definition XCODEC_MAGIC :: byte where "XCODEC_MAGIC = 0xf1"
definition XCODEC_OP_ESCAPE :: byte where "XCODEC_OP_ESCAPE = 0x00"
definition XCODEC_OP_EXTRACT :: byte where "XCODEC_OP_EXTRACT = 0x01"
definition XCODEC_OP_REF :: byte where "XCODEC_OP_REF = 0x02"
definition XCODEC_OP_BACKREF :: byte where "XCODEC_OP_BACKREF = 0x03"
definition XCODEC_SEGMENT_LENGTH :: nat where "XCODEC_SEGMENT_LENGTH = 2048"

lemmas xcodec_ops =
  XCODEC_OP_ESCAPE_def XCODEC_OP_EXTRACT_def XCODEC_OP_REF_def XCODEC_OP_BACKREF_def

lemma XCODEC_SEGMENT_LENGTH_pos [simp]: "0 < XCODEC_SEGMENT_LENGTH"
  by (simp add: XCODEC_SEGMENT_LENGTH_def)

lemma xcodec_ops_distinct [simp]:
  "XCODEC_OP_EXTRACT \<noteq> XCODEC_OP_ESCAPE" "XCODEC_OP_REF \<noteq> XCODEC_OP_ESCAPE"
  "XCODEC_OP_BACKREF \<noteq> XCODEC_OP_ESCAPE" "XCODEC_OP_REF \<noteq> XCODEC_OP_EXTRACT"
  "XCODEC_OP_BACKREF \<noteq> XCODEC_OP_EXTRACT" "XCODEC_OP_BACKREF \<noteq> XCODEC_OP_REF"
  by (simp_all add: xcodec_ops)

lemmas xcodec_ops_distinct_sym [simp] = xcodec_ops_distinct [symmetric]

section \<open>struct RollingHash\<close>

record rolling_hash =
  rh_sum1 :: u32
  rh_sum2 :: u32
  rh_buffer :: "u32 list"

definition rolling_hash_new :: rolling_hash where
  "rolling_hash_new =
     \<lparr>rh_sum1 = 0, rh_sum2 = 0, rh_buffer = replicate XCODEC_SEGMENT_LENGTH 0\<rparr>"

definition rolling_hash_add :: "u32 \<Rightarrow> nat \<Rightarrow> rolling_hash \<Rightarrow> rolling_hash" where
  "rolling_hash_add ch start h =
     (let h = h\<lparr>rh_buffer := (rh_buffer h)[start := ch]\<rparr>;
          h = h\<lparr>rh_sum1 := rh_sum1 h + ch\<rparr>
      in h\<lparr>rh_sum2 := rh_sum2 h + rh_sum1 h\<rparr>)"

definition rolling_hash_reset :: "rolling_hash \<Rightarrow> rolling_hash" where
  "rolling_hash_reset h = h\<lparr>rh_sum1 := 0, rh_sum2 := 0\<rparr>"

definition rolling_hash_roll :: "u32 \<Rightarrow> nat \<Rightarrow> rolling_hash \<Rightarrow> rolling_hash" where
  "rolling_hash_roll ch start h =
     (let dead = rh_buffer h ! start;
          h = h\<lparr>rh_sum1 := rh_sum1 h - dead\<rparr>;
          h = h\<lparr>rh_sum2 := rh_sum2 h - dead * of_nat XCODEC_SEGMENT_LENGTH\<rparr>;
          h = h\<lparr>rh_buffer := (rh_buffer h)[start := ch]\<rparr>;
          h = h\<lparr>rh_sum1 := rh_sum1 h + ch\<rparr>
      in h\<lparr>rh_sum2 := rh_sum2 h + rh_sum1 h\<rparr>)"

section \<open>class XCodecHash\<close>

text \<open>\<^verbatim>\<open>ffs(3)\<close> of the C library: one more than the index of the lowest set bit, 0 if
  there is none.\<close>

definition ffs :: "byte \<Rightarrow> nat" where
  "ffs ch = (case first_index (bit ch) [0..<8] of None \<Rightarrow> 0 | Some i \<Rightarrow> Suc i)"

definition hash_bit :: "byte \<Rightarrow> u32" where
  "hash_bit ch = of_nat (ffs ch)"

definition hash_word :: "byte \<Rightarrow> u32" where
  "hash_word ch = ucast ch + 1"

record xcodec_hash =
  xh_bytes :: rolling_hash
  xh_bits :: rolling_hash
  xh_start :: nat
  xh_length :: nat

definition xcodec_hash_new :: xcodec_hash where
  "xcodec_hash_new =
     \<lparr>xh_bytes = rolling_hash_new, xh_bits = rolling_hash_new, xh_start = 0, xh_length = 0\<rparr>"

definition hash_add :: "byte \<Rightarrow> xcodec_hash \<Rightarrow> xcodec_hash option" where
  "hash_add ch h = do {
     assert_that (xh_length h < XCODEC_SEGMENT_LENGTH);
     Some (h\<lparr>xh_bytes := rolling_hash_add (hash_word ch) (xh_start h) (xh_bytes h),
             xh_bits := rolling_hash_add (hash_bit ch) (xh_start h) (xh_bits h),
             xh_length := xh_length h + 1,
             xh_start := (xh_start h + 1) mod XCODEC_SEGMENT_LENGTH\<rparr>) }"

definition hash_reset :: "xcodec_hash \<Rightarrow> xcodec_hash" where
  "hash_reset h =
     h\<lparr>xh_bytes := rolling_hash_reset (xh_bytes h), xh_bits := rolling_hash_reset (xh_bits h),
       xh_length := 0, xh_start := 0\<rparr>"

definition hash_roll :: "byte \<Rightarrow> xcodec_hash \<Rightarrow> xcodec_hash option" where
  "hash_roll ch h = do {
     assert_that (xh_length h = XCODEC_SEGMENT_LENGTH);
     Some (h\<lparr>xh_bytes := rolling_hash_roll (hash_word ch) (xh_start h) (xh_bytes h),
             xh_bits := rolling_hash_roll (hash_bit ch) (xh_start h) (xh_bits h),
             xh_start := (xh_start h + 1) mod XCODEC_SEGMENT_LENGTH\<rparr>) }"

text \<open>The shifts by 16 and 20 and the additions are done in \<^verbatim>\<open>uint32_t\<close> before the
  assignment widens them.\<close>

definition mix_sums :: "u32 \<Rightarrow> u32 \<Rightarrow> u32 \<Rightarrow> u32 \<Rightarrow> u64" where
  "mix_sums bits1 bits2 bytes1 bytes2 =
     (let bits_hash = ucast (push_bit 16 bits1 + bits2) :: u64;
          bytes_hash = ucast (push_bit 20 bytes1 + bytes2) :: u64
      in push_bit 36 bits_hash + bytes_hash)"

definition hash_mix :: "xcodec_hash \<Rightarrow> u64 option" where
  "hash_mix h = do {
     assert_that (xh_length h = XCODEC_SEGMENT_LENGTH);
     Some (mix_sums (rh_sum1 (xh_bits h)) (rh_sum2 (xh_bits h))
                    (rh_sum1 (xh_bytes h)) (rh_sum2 (xh_bytes h))) }"

text \<open>The loop \<^verbatim>\<open>while (p < q) add(*p++)\<close>, and \<^verbatim>\<open>XCodecHash::hash(const uint8_t *)\<close>,
  which reads \<^verbatim>\<open>XCODEC_SEGMENT_LENGTH\<close> bytes (fewer would be a read out of bounds).\<close>

fun hash_add_all :: "bytes \<Rightarrow> xcodec_hash \<Rightarrow> xcodec_hash option" where
  "hash_add_all [] h = Some h"
| "hash_add_all (ch # chs) h = do { h \<leftarrow> hash_add ch h; hash_add_all chs h }"

definition hash_data :: "bytes \<Rightarrow> u64 option" where
  "hash_data data = do {
     assert_that (XCODEC_SEGMENT_LENGTH \<le> length data);
     h \<leftarrow> hash_add_all (take XCODEC_SEGMENT_LENGTH data) xcodec_hash_new;
     hash_mix h }"

section \<open>The sums of a window\<close>

text \<open>The two sums as functions of the bytes in the window: the plain sum, and the sum
  weighted by the distance to the end of the window.\<close>

fun weighted_sum :: "u32 list \<Rightarrow> u32" where
  "weighted_sum [] = 0"
| "weighted_sum (w # ws) = of_nat (Suc (length ws)) * w + weighted_sum ws"

lemma weighted_sum_snoc: "weighted_sum (ws @ [w]) = weighted_sum ws + sum_list ws + w"
  by (induction ws) (simp_all add: algebra_simps)

definition segment_hash :: "bytes \<Rightarrow> u64" where
  "segment_hash seg =
     mix_sums (sum_list (map hash_bit seg)) (weighted_sum (map hash_bit seg))
              (sum_list (map hash_word seg)) (weighted_sum (map hash_word seg))"

text \<open>Place of the element \<open>j\<close> of a window of \<open>n\<close> elements that ends before \<open>start\<close> in a
  ring of \<open>m\<close> places.\<close>

definition ring_index :: "nat \<Rightarrow> nat \<Rightarrow> nat \<Rightarrow> nat \<Rightarrow> nat" where
  "ring_index m start n j = (start + m - n + j) mod m"

text \<open>\<open>rolling_inv ws start h\<close>: the rolling hash \<open>h\<close> holds the window \<open>ws\<close>, whose last
  element is at the place before \<open>start\<close> of the ring buffer.\<close>

definition rolling_inv :: "u32 list \<Rightarrow> nat \<Rightarrow> rolling_hash \<Rightarrow> bool" where
  "rolling_inv ws start h \<longleftrightarrow>
     rh_sum1 h = sum_list ws \<and> rh_sum2 h = weighted_sum ws \<and>
     length (rh_buffer h) = XCODEC_SEGMENT_LENGTH \<and>
     (\<forall>j < length ws.
        rh_buffer h ! ring_index XCODEC_SEGMENT_LENGTH start (length ws) j = ws ! j)"

definition hash_inv :: "bytes \<Rightarrow> xcodec_hash \<Rightarrow> bool" where
  "hash_inv ws h \<longleftrightarrow>
     length ws \<le> XCODEC_SEGMENT_LENGTH \<and> xh_length h = length ws \<and>
     xh_start h < XCODEC_SEGMENT_LENGTH \<and>
     rolling_inv (map hash_word ws) (xh_start h) (xh_bytes h) \<and>
     rolling_inv (map hash_bit ws) (xh_start h) (xh_bits h)"

section \<open>The ring buffer\<close>

lemma ring_index_less: "0 < m \<Longrightarrow> ring_index m start n j < m"
  by (simp add: ring_index_def)

lemma ring_index_neq:
  assumes "start < m" "n \<le> m" "j < n" "n < m \<or> 0 < j"
  shows "ring_index m start n j \<noteq> start"
proof (cases "start + m - n + j < m")
  case True
  then show ?thesis using assms unfolding ring_index_def by auto
next
  case False
  then have "ring_index m start n j = start + m - n + j - m"
    using assms by (simp add: ring_index_def mod_if)
  then show ?thesis using assms False by auto
qed

lemma ring_index_first: "start < m \<Longrightarrow> ring_index m start m 0 = start"
  by (simp add: ring_index_def)

lemma ring_index_last:
  assumes "start < m" "n < m"
  shows "ring_index m ((start + 1) mod m) (Suc n) n = start"
proof (cases "Suc start = m")
  case True
  then show ?thesis using assms by (simp add: ring_index_def)
next
  case False
  then show ?thesis using assms by (simp add: ring_index_def mod_if)
qed

lemma ring_index_shift:
  assumes "start < m" "n < m"
  shows "ring_index m ((start + 1) mod m) (Suc n) j = ring_index m start n j"
proof (cases "Suc start = m")
  case True
  then have "start + m - n + j = (m - Suc n + j) + m" using assms by auto
  then have "(start + m - n + j) mod m = (m - Suc n + j) mod m" by (metis mod_add_self2)
  with True show ?thesis by (simp only: ring_index_def) simp
next
  case False
  then show ?thesis using assms by (simp add: ring_index_def)
qed

lemma ring_index_roll:
  assumes "start < m"
  shows "ring_index m ((start + 1) mod m) m j = ring_index m start m (Suc j)"
  using assms by (simp add: ring_index_def mod_simps)

lemma rolling_inv_new: "rolling_inv [] start rolling_hash_new"
  by (simp add: rolling_inv_def rolling_hash_new_def)

lemma rolling_inv_add:
  assumes inv: "rolling_inv ws start h" and len: "length ws < XCODEC_SEGMENT_LENGTH"
    and start: "start < XCODEC_SEGMENT_LENGTH"
  shows "rolling_inv (ws @ [w]) ((start + 1) mod XCODEC_SEGMENT_LENGTH) (rolling_hash_add w start h)"
proof -
  let ?m = XCODEC_SEGMENT_LENGTH
  have "(rh_buffer h)[start := w] ! ring_index ?m ((start + 1) mod ?m) (Suc (length ws)) j = (ws @ [w]) ! j"
    if "j < Suc (length ws)" for j
  proof (cases "j < length ws")
    case True
    then show ?thesis
      unfolding ring_index_shift [OF start len]
      using inv len ring_index_neq [OF start, of "length ws" j]
      by (simp add: rolling_inv_def nth_append)
  next
    case False
    with that have "j = length ws" by simp
    then show ?thesis
      using inv start ring_index_last [OF start len] by (simp add: rolling_inv_def)
  qed
  with inv show ?thesis
    by (simp add: rolling_inv_def rolling_hash_add_def weighted_sum_snoc algebra_simps)
qed

lemma rolling_inv_roll:
  assumes inv: "rolling_inv (v # ws) start h" and len: "Suc (length ws) = XCODEC_SEGMENT_LENGTH"
    and start: "start < XCODEC_SEGMENT_LENGTH"
  shows "rolling_inv (ws @ [w]) ((start + 1) mod XCODEC_SEGMENT_LENGTH) (rolling_hash_roll w start h)"
proof -
  let ?m = XCODEC_SEGMENT_LENGTH
  have buf: "rh_buffer h ! ring_index ?m start ?m j = (v # ws) ! j" if "j < ?m" for j
    using inv that len unfolding rolling_inv_def by (simp only: list.size add_Suc_right add_0_right len)
  have dead: "rh_buffer h ! start = v"
    using buf [of 0] start by (simp add: ring_index_first)
  have "(rh_buffer h)[start := w] ! ring_index ?m ((start + 1) mod ?m) ?m j = (ws @ [w]) ! j"
    if "j < ?m" for j
  proof (cases "j < length ws")
    case True
    then show ?thesis
      unfolding ring_index_roll [OF start]
      using buf [of "Suc j"] len ring_index_neq [OF start, of ?m "Suc j"]
      by (simp add: nth_append)
  next
    case False
    with that len have "j = length ws" by simp
    then show ?thesis
      using inv start len ring_index_last [OF start, of "length ws"]
      by (simp add: rolling_inv_def)
  qed
  moreover have "rh_sum2 h = of_nat ?m * v + weighted_sum ws" "rh_sum1 h = v + sum_list ws"
    using inv by (simp_all add: rolling_inv_def flip: len)
  ultimately show ?thesis
    using inv dead
    by (simp add: rolling_inv_def rolling_hash_roll_def weighted_sum_snoc len)
qed

section \<open>Adding, rolling and mixing\<close>

lemma hash_inv_new: "hash_inv [] xcodec_hash_new"
  by (simp add: hash_inv_def xcodec_hash_new_def rolling_inv_new)

lemma hash_inv_reset: "hash_inv ws h \<Longrightarrow> hash_inv [] (hash_reset h)"
  by (simp add: hash_inv_def hash_reset_def rolling_inv_def rolling_hash_reset_def)

lemma hash_add_inv:
  assumes "hash_inv ws h" and "length ws < XCODEC_SEGMENT_LENGTH"
  shows "\<exists>h'. hash_add ch h = Some h' \<and> hash_inv (ws @ [ch]) h'"
  using assms rolling_inv_add [of "map hash_word ws" "xh_start h" "xh_bytes h" "hash_word ch"]
    rolling_inv_add [of "map hash_bit ws" "xh_start h" "xh_bits h" "hash_bit ch"]
  by (auto simp: hash_add_def hash_inv_def)

lemma hash_roll_inv:
  assumes "hash_inv (b # ws) h" and "Suc (length ws) = XCODEC_SEGMENT_LENGTH"
  shows "\<exists>h'. hash_roll ch h = Some h' \<and> hash_inv (ws @ [ch]) h'"
  using assms
    rolling_inv_roll [of "hash_word b" "map hash_word ws" "xh_start h" "xh_bytes h" "hash_word ch"]
    rolling_inv_roll [of "hash_bit b" "map hash_bit ws" "xh_start h" "xh_bits h" "hash_bit ch"]
  by (auto simp: hash_roll_def hash_inv_def)

lemma hash_add_all_inv:
  assumes "hash_inv ws h" and "length ws + length chs \<le> XCODEC_SEGMENT_LENGTH"
  shows "\<exists>h'. hash_add_all chs h = Some h' \<and> hash_inv (ws @ chs) h'"
  using assms
proof (induction chs arbitrary: ws h)
  case Nil
  then show ?case by simp
next
  case (Cons ch chs)
  then obtain h1 where h1: "hash_add ch h = Some h1" "hash_inv (ws @ [ch]) h1"
    using hash_add_inv [of ws h ch] by auto
  with Cons.IH [of "ws @ [ch]" h1] Cons.prems show ?case by auto
qed

lemma hash_mix_inv:
  assumes "hash_inv ws h" and "length ws = XCODEC_SEGMENT_LENGTH"
  shows "hash_mix h = Some (segment_hash ws)"
  using assms by (simp add: hash_mix_def hash_inv_def rolling_inv_def segment_hash_def)

lemma hash_data_eq:
  assumes "length data = XCODEC_SEGMENT_LENGTH"
  shows "hash_data data = Some (segment_hash data)"
proof -
  obtain h where "hash_add_all data xcodec_hash_new = Some h" "hash_inv data h"
    using hash_add_all_inv [OF hash_inv_new, of data] assms by auto
  with assms show ?thesis by (simp add: hash_data_def hash_mix_inv)
qed

section \<open>Rolling is hashing afresh\<close>

fun hash_roll_all :: "bytes \<Rightarrow> xcodec_hash \<Rightarrow> xcodec_hash option" where
  "hash_roll_all [] h = Some h"
| "hash_roll_all (c # cs) h = do { h \<leftarrow> hash_roll c h; hash_roll_all cs h }"

lemma hash_roll_all_inv:
  assumes "hash_inv ws h" and "length ws = XCODEC_SEGMENT_LENGTH"
  shows "\<exists>h'. hash_roll_all cs h = Some h' \<and> hash_inv (drop (length cs) (ws @ cs)) h'"
  using assms
proof (induction cs arbitrary: ws h)
  case (Cons c cs)
  obtain w ws' where ws: "ws = w # ws'"
    using Cons.prems(2) XCODEC_SEGMENT_LENGTH_pos by (cases ws) (simp_all del: XCODEC_SEGMENT_LENGTH_pos)
  obtain h1 where h1: "hash_roll c h = Some h1" "hash_inv (ws' @ [c]) h1"
    using hash_roll_inv [OF Cons.prems(1) [unfolded ws]] Cons.prems(2) ws by auto
  from Cons.IH [OF h1(2)] Cons.prems(2) ws h1(1) show ?case by auto
qed auto

text \<open>C9: Adding the first 2048 bytes of any data to a new XCodecHash and rolling the others
  through it never fails an assertion, and \<^verbatim>\<open>mix\<close> then gives \<^verbatim>\<open>XCodecHash::hash\<close> of the last
  2048 bytes: the position the encoder is at and the segment the decoder extracts get the
  same name.\<close>

theorem rolling_is_hashing:
  assumes "XCODEC_SEGMENT_LENGTH \<le> length data"
  shows "do { h \<leftarrow> hash_add_all (take XCODEC_SEGMENT_LENGTH data) xcodec_hash_new;
              h \<leftarrow> hash_roll_all (drop XCODEC_SEGMENT_LENGTH data) h;
              hash_mix h } = hash_data (drop (length data - XCODEC_SEGMENT_LENGTH) data)"
proof -
  let ?L = XCODEC_SEGMENT_LENGTH
  obtain h where h: "hash_add_all (take ?L data) xcodec_hash_new = Some h" "hash_inv (take ?L data) h"
    using hash_add_all_inv [OF hash_inv_new, of "take ?L data"] assms by auto
  obtain h' where h': "hash_roll_all (drop ?L data) h = Some h'"
      "hash_inv (drop (length data - ?L) (take ?L data @ drop ?L data)) h'"
    using hash_roll_all_inv [OF h(2), of "drop ?L data"] assms by auto
  then show ?thesis
    using h hash_mix_inv [OF h'(2)] hash_data_eq [of "drop (length data - ?L) data"] assms by simp
qed

theorem rolling_is_hashing_witness:
  "XCODEC_SEGMENT_LENGTH \<le> length (replicate 3000 (7 :: byte)) \<and>
   do { h \<leftarrow> hash_add_all (take XCODEC_SEGMENT_LENGTH (replicate 3000 7)) xcodec_hash_new;
        h \<leftarrow> hash_roll_all (drop XCODEC_SEGMENT_LENGTH (replicate 3000 7)) h;
        hash_mix h } =
     hash_data (drop (length (replicate 3000 (7 :: byte)) - XCODEC_SEGMENT_LENGTH) (replicate 3000 7))"
proof
  show "XCODEC_SEGMENT_LENGTH \<le> length (replicate 3000 (7 :: byte))" by (simp add: XCODEC_SEGMENT_LENGTH_def)
  then show "do { h \<leftarrow> hash_add_all (take XCODEC_SEGMENT_LENGTH (replicate 3000 7)) xcodec_hash_new;
        h \<leftarrow> hash_roll_all (drop XCODEC_SEGMENT_LENGTH (replicate 3000 7)) h;
        hash_mix h } =
     hash_data (drop (length (replicate 3000 (7 :: byte)) - XCODEC_SEGMENT_LENGTH) (replicate 3000 7))"
    by (rule rolling_is_hashing)
qed

section \<open>The sums do not wrap\<close>

fun nat_weighted :: "nat list \<Rightarrow> nat" where
  "nat_weighted [] = 0"
| "nat_weighted (n # ns) = Suc (length ns) * n + nat_weighted ns"

lemma unat_sum_list: "sum_list (map unat ws) < 2 ^ 32 \<Longrightarrow> unat (sum_list (ws :: u32 list)) = sum_list (map unat ws)"
proof (induction ws)
  case (Cons w ws)
  then show ?case by (simp add: unat_word_ariths)
qed simp

lemma unat_weighted_sum: "nat_weighted (map unat ws) < 2 ^ 32 \<Longrightarrow> length ws < 2 ^ 32 \<Longrightarrow> unat (weighted_sum ws) = nat_weighted (map unat ws)"
proof (induction ws)
  case (Cons w ws)
  have "unat (of_nat (Suc (length ws)) :: u32) = Suc (length ws)" using Cons.prems(2) by (simp add: unsigned_of_nat take_bit_nat_eq_self del: of_nat_Suc)
  then show ?case using Cons by (simp add: unat_word_ariths del: of_nat_Suc)
qed simp

lemma nat_weighted_le: "\<forall>n\<in>set ns. n \<le> k \<Longrightarrow> nat_weighted ns \<le> k * length ns * length ns"
proof (induction ns)
  case (Cons n ns)
  have "Suc (length ns) * n \<le> Suc (length ns) * k" using Cons.prems by (intro mult_le_mono2) simp
  moreover have "nat_weighted ns \<le> k * length ns * length ns" using Cons by simp
  ultimately show ?case by (simp add: algebra_simps)
qed simp

lemma sum_list_le: "\<forall>n\<in>set ns. n \<le> (k :: nat) \<Longrightarrow> sum_list ns \<le> k * length ns"
  by (induction ns) auto

lemma unat_hash_word: "unat (hash_word b) = unat b + 1" "unat (hash_word b) \<le> 256"
proof -
  have b: "unat b < 2 ^ LENGTH(8)" by (rule unsigned_less)
  then show "unat (hash_word b) = unat b + 1" by (simp add: hash_word_def unat_word_ariths unsigned_ucast_eq take_bit_nat_eq_self)
  then show "unat (hash_word b) \<le> 256" using b by simp
qed

lemma hash_bit_value: "unat (hash_bit b) = ffs b" "ffs b \<le> 8"
proof -
  show le: "ffs b \<le> 8"
    by (auto simp: ffs_def split: option.splits dest!: first_index_SomeD)
  then show "unat (hash_bit b) = ffs b" by (simp add: hash_bit_def unsigned_of_nat take_bit_nat_eq_self)
qed

lemma rolling_inv_exact:
  assumes inv: "rolling_inv (map f ws) start h" and len: "length ws \<le> 2048"
    and f: "\<And>b. unat (f b) = g b" and g: "\<And>b. g b \<le> k" and k: "k * 2048 * 2048 < 2 ^ 32"
  shows "unat (rh_sum1 h) = sum_list (map g ws)" "unat (rh_sum1 h) \<le> k * 2048"
    "unat (rh_sum2 h) = nat_weighted (map g ws)" "unat (rh_sum2 h) \<le> k * 2048 * 2048"
proof -
  have s: "rh_sum1 h = sum_list (map f ws)" "rh_sum2 h = weighted_sum (map f ws)" using inv by (simp_all add: rolling_inv_def)
  have v: "map unat (map f ws) = map g ws" by (simp add: f)
  have le: "\<forall>n\<in>set (map g ws). n \<le> k" using g by auto
  have le1: "sum_list (map g ws) \<le> k * 2048" using order_trans [OF sum_list_le [OF le]] len by simp
  moreover have le2: "nat_weighted (map g ws) \<le> k * 2048 * 2048"
    by (rule order_trans [OF nat_weighted_le [OF le]], rule mult_le_mono) (use len in simp_all)
  ultimately show "unat (rh_sum1 h) = sum_list (map g ws)" "unat (rh_sum2 h) = nat_weighted (map g ws)"
    using unat_sum_list [of "map f ws"] unat_weighted_sum [of "map f ws"] len k unfolding s v by simp_all
  then show "unat (rh_sum1 h) \<le> k * 2048" "unat (rh_sum2 h) \<le> k * 2048 * 2048" using le1 le2 by simp_all
qed

lemma hash_window:
  "\<exists>h h'. hash_add_all (take XCODEC_SEGMENT_LENGTH data) xcodec_hash_new = Some h \<and>
     hash_roll_all (drop XCODEC_SEGMENT_LENGTH data) h = Some h' \<and> hash_inv (drop (length data - XCODEC_SEGMENT_LENGTH) data) h'"
proof -
  let ?L = XCODEC_SEGMENT_LENGTH
  obtain h where h: "hash_add_all (take ?L data) xcodec_hash_new = Some h" "hash_inv (take ?L data) h"
    using hash_add_all_inv [OF hash_inv_new, of "take ?L data"] by auto
  show ?thesis
  proof (cases "?L \<le> length data")
    case True
    then obtain h' where "hash_roll_all (drop ?L data) h = Some h'"
      "hash_inv (drop (length data - ?L) (take ?L data @ drop ?L data)) h'"
      using hash_roll_all_inv [OF h(2), of "drop ?L data"] by auto
    then show ?thesis using h by simp
  qed (use h in simp)
qed

text \<open>C27: The 32-bit sums of the two rolling hashes never wrap: after any data has been added
  and rolled through a new XCodecHash, which never fails an assertion, \<^verbatim>\<open>sum1_\<close> and \<^verbatim>\<open>sum2_\<close> of
  the byte hash are the exact sum and the exact weighted sum of the values of the last 2048
  bytes (all of them when there are fewer) and at most \<open>2 ^ 19\<close> and \<open>2 ^ 30\<close>; those of the bit hash
  are the exact sums of their \<^verbatim>\<open>ffs\<close> and at most \<open>2 ^ 14\<close> and \<open>2 ^ 25\<close>.\<close>

theorem hash_sums_exact:
  "\<exists>h h'. hash_add_all (take XCODEC_SEGMENT_LENGTH data) xcodec_hash_new = Some h \<and>
     hash_roll_all (drop XCODEC_SEGMENT_LENGTH data) h = Some h' \<and>
     (let window = drop (length data - XCODEC_SEGMENT_LENGTH) data;
          values = map (\<lambda>b. unat b + 1) window; bits = map ffs window
      in unat (rh_sum1 (xh_bytes h')) = sum_list values \<and> unat (rh_sum1 (xh_bytes h')) \<le> 2 ^ 19 \<and>
         unat (rh_sum2 (xh_bytes h')) = nat_weighted values \<and> unat (rh_sum2 (xh_bytes h')) \<le> 2 ^ 30 \<and>
         unat (rh_sum1 (xh_bits h')) = sum_list bits \<and> unat (rh_sum1 (xh_bits h')) \<le> 2 ^ 14 \<and>
         unat (rh_sum2 (xh_bits h')) = nat_weighted bits \<and> unat (rh_sum2 (xh_bits h')) \<le> 2 ^ 25)"
proof -
  let ?ws = "drop (length data - XCODEC_SEGMENT_LENGTH) data"
  obtain h h' where h: "hash_add_all (take XCODEC_SEGMENT_LENGTH data) xcodec_hash_new = Some h"
    "hash_roll_all (drop XCODEC_SEGMENT_LENGTH data) h = Some h'" and inv: "hash_inv ?ws h'"
    using hash_window [of data] by blast
  have len: "length ?ws \<le> 2048" by (simp add: XCODEC_SEGMENT_LENGTH_def)
  have i: "rolling_inv (map hash_word ?ws) (xh_start h') (xh_bytes h')" "rolling_inv (map hash_bit ?ws) (xh_start h') (xh_bits h')"
    using inv by (simp_all add: hash_inv_def)
  have v: "unat b + 1 \<le> 256" for b :: byte using unat_hash_word [of b] by simp
  note s = rolling_inv_exact [OF i(1) len unat_hash_word(1) v] rolling_inv_exact [OF i(2) len hash_bit_value]
  show ?thesis by (intro exI [of _ h] exI [of _ h']) (use h s in \<open>simp add: Let_def\<close>)
qed

end
