(* ===== verification/XCodec_Cache.thy ===== *)
theory XCodec_Cache
  imports Buffer_Spec XCodec_Hash
begin

text \<open>
  The dictionaries of segments: class XCodecCache and XCodecMemoryCache
  (xcodec/xcodec_cache.h) and the two subclasses of programs/tack/tack.cc.  A cache is a
  value of a datatype with one constructor per subclass; the virtual functions dispatch
  on it.  The contract the encoder and the decoder rely on is the locale
  \<open>segment_store\<close>, interpreted on these definitions.
\<close>

datatype xcodec_cache =
    XCodecMemoryCache "u64 \<rightharpoonup> bytes"
  | TackNullCache
  | TackPersistentCache "u64 \<rightharpoonup> bytes" bytes

text \<open>\<^verbatim>\<open>XCodecMemoryCache::enter\<close> and \<^verbatim>\<open>lookup\<close> on \<^verbatim>\<open>segment_hash_map_\<close>.\<close>

definition memory_cache_enter :: "u64 \<Rightarrow> bytes \<Rightarrow> (u64 \<rightharpoonup> bytes) \<Rightarrow> (u64 \<rightharpoonup> bytes) option" where
  "memory_cache_enter hash seg m = do {
     assert_that (length seg = XCODEC_SEGMENT_LENGTH);
     assert_that (m hash = None);
     Some (m(hash \<mapsto> seg)) }"

definition memory_cache_lookup :: "(u64 \<rightharpoonup> bytes) \<Rightarrow> u64 \<Rightarrow> bytes option" where
  "memory_cache_lookup m hash = m hash"

fun cache_enter :: "u64 \<Rightarrow> bytes \<Rightarrow> xcodec_cache \<Rightarrow> xcodec_cache option" where
  "cache_enter hash seg (XCodecMemoryCache m) =
     do { m \<leftarrow> memory_cache_enter hash seg m; Some (XCodecMemoryCache m) }"
| "cache_enter hash seg TackNullCache = Some TackNullCache"
| "cache_enter hash seg (TackPersistentCache m new_data) = do {
     m \<leftarrow> memory_cache_enter hash seg m;
     new_data \<leftarrow> buf_append_segment new_data seg;
     Some (TackPersistentCache m new_data) }"

fun cache_lookup :: "xcodec_cache \<Rightarrow> u64 \<Rightarrow> bytes option" where
  "cache_lookup (XCodecMemoryCache m) hash = memory_cache_lookup m hash"
| "cache_lookup TackNullCache hash = None"
| "cache_lookup (TackPersistentCache m new_data) hash = memory_cache_lookup m hash"

fun cache_out_of_band :: "xcodec_cache \<Rightarrow> bool" where
  "cache_out_of_band (XCodecMemoryCache m) = False"
| "cache_out_of_band TackNullCache = True"
| "cache_out_of_band (TackPersistentCache m new_data) = True"

definition remembers :: "xcodec_cache \<Rightarrow> bool" where
  "remembers c \<longleftrightarrow> c \<noteq> TackNullCache"

text \<open>\<^verbatim>\<open>XCodecCache::cache_map\<close>, from UUIDs (strings) to caches.\<close>

definition cache_map_enter :: "bytes \<Rightarrow> 'c \<Rightarrow> (bytes \<rightharpoonup> 'c) \<Rightarrow> (bytes \<rightharpoonup> 'c) option" where
  "cache_map_enter uuid cache m = do { assert_that (m uuid = None); Some (m(uuid \<mapsto> cache)) }"

definition cache_map_lookup :: "(bytes \<rightharpoonup> 'c) \<Rightarrow> bytes \<Rightarrow> 'c option" where
  "cache_map_lookup m uuid = m uuid"

lemma XCODEC_SEGMENT_fits: "XCODEC_SEGMENT_LENGTH \<le> BUFFER_SEGMENT_SIZE"
  by (simp add: XCODEC_SEGMENT_LENGTH_def BUFFER_SEGMENT_SIZE_def)

section \<open>The contract\<close>

text \<open>Every segment a cache holds has the fixed length and is filed under its hash.\<close>

definition hashed :: "(u64 \<rightharpoonup> bytes) \<Rightarrow> bool" where
  "hashed m \<longleftrightarrow> (\<forall>h s. m h = Some s \<longrightarrow> length s = XCODEC_SEGMENT_LENGTH \<and> segment_hash s = h)"

lemma hashedD: "hashed m \<Longrightarrow> m h = Some s \<Longrightarrow> length s = XCODEC_SEGMENT_LENGTH \<and> segment_hash s = h"
  by (simp add: hashed_def)

lemma hashed_empty [simp]: "hashed Map.empty"
  by (simp add: hashed_def)

lemma hashed_upd:
  "hashed m \<Longrightarrow> length s = XCODEC_SEGMENT_LENGTH \<Longrightarrow> hashed (m(segment_hash s \<mapsto> s))"
  by (simp add: hashed_def)

lemma hashed_mono: "hashed m' \<Longrightarrow> m \<subseteq>\<^sub>m m' \<Longrightarrow> hashed m"
  unfolding hashed_def by (blast dest: map_leD)

locale segment_store =
  fixes enter :: "u64 \<Rightarrow> bytes \<Rightarrow> 'c \<Rightarrow> 'c option"
    and lookup :: "'c \<Rightarrow> u64 \<Rightarrow> bytes option"
    and keeps :: "'c \<Rightarrow> bool"
  assumes enter_defined:
      "keeps c \<Longrightarrow> length s = XCODEC_SEGMENT_LENGTH \<Longrightarrow> lookup c h = None \<Longrightarrow> \<exists>c'. enter h s c = Some c'"
    and lookup_enter: "keeps c \<Longrightarrow> enter h s c = Some c' \<Longrightarrow> lookup c' = (lookup c)(h \<mapsto> s)"
    and enter_fresh: "keeps c \<Longrightarrow> enter h s c = Some c' \<Longrightarrow> lookup c h = None"
    and enter_length: "keeps c \<Longrightarrow> enter h s c = Some c' \<Longrightarrow> length s = XCODEC_SEGMENT_LENGTH"
    and keeps_enter: "keeps c \<Longrightarrow> enter h s c = Some c' \<Longrightarrow> keeps c'"
begin

lemma enter_ex:
  assumes "keeps c" "length s = XCODEC_SEGMENT_LENGTH" "lookup c h = None"
  shows "\<exists>c'. enter h s c = Some c' \<and> lookup c' = (lookup c)(h \<mapsto> s) \<and> keeps c'"
  using enter_defined [OF assms] lookup_enter [OF assms(1)] keeps_enter [OF assms(1)] by blast

lemma lookup_grows: "keeps c \<Longrightarrow> enter h s c = Some c' \<Longrightarrow> lookup c \<subseteq>\<^sub>m lookup c'"
  using lookup_enter enter_fresh by (simp add: map_le_upd_None)

lemma hashed_enter:
  "keeps c \<Longrightarrow> enter (segment_hash s) s c = Some c' \<Longrightarrow> hashed (lookup c) \<Longrightarrow> hashed (lookup c')"
  using lookup_enter enter_length hashed_upd by simp

lemma enter_twice: "keeps c \<Longrightarrow> enter h s c = Some c' \<Longrightarrow> enter h s' c' = None"
  using lookup_enter [of c h s c'] enter_fresh [of c' h s'] keeps_enter [of c h s c']
  by (cases "enter h s' c'") auto

end

interpretation cache: segment_store cache_enter cache_lookup remembers
proof unfold_locales
  fix c and s :: bytes and h
  assume "remembers c" "length s = XCODEC_SEGMENT_LENGTH" "cache_lookup c h = None"
  moreover from this have "s \<noteq> []" by (auto simp: XCODEC_SEGMENT_LENGTH_def)
  ultimately show "\<exists>c'. cache_enter h s c = Some c'"
    by (cases c) (simp_all add: remembers_def memory_cache_enter_def memory_cache_lookup_def buf_simps)
next
  fix c h and s :: bytes and c'
  assume "remembers c" "cache_enter h s c = Some c'"
  then show "cache_lookup c' = (cache_lookup c)(h \<mapsto> s)" "cache_lookup c h = None"
      "length s = XCODEC_SEGMENT_LENGTH" "remembers c'"
    by (cases c; auto simp: remembers_def memory_cache_enter_def memory_cache_lookup_def
          fun_eq_iff bind_eq_Some_conv)+
qed

end
