(* ===== verification/Endian.thy ===== *)
theory Endian
  imports Prelude
begin

text \<open>
  common/endian.h: byte swapping, the host- and swap-endian codecs, and what
  \<^verbatim>\<open>Buffer::append(const uint64_t *)\<close> and \<^verbatim>\<open>Buffer::extract(uint64_t *)\<close> make of
  them.  The byte order of the host is a parameter (the \<^verbatim>\<open>BYTE_ORDER\<close> macro); the
  lemmas show that the bytes on the wire do not depend on it.
\<close>

unbundle bit_operations_syntax

section \<open>Endian::swap\<close>

definition swap16 :: "u16 \<Rightarrow> u16" where
  "swap16 x = drop_bit 8 (x AND 0xff00) OR push_bit 8 (x AND 0x00ff)"

definition swap32 :: "u32 \<Rightarrow> u32" where
  "swap32 x =
     drop_bit 24 (x AND 0xff000000) OR drop_bit 8 (x AND 0x00ff0000) OR
     push_bit 8 (x AND 0x0000ff00) OR push_bit 24 (x AND 0x000000ff)"

definition swap64 :: "u64 \<Rightarrow> u64" where
  "swap64 x =
     drop_bit 0x38 (x AND 0xff00000000000000) OR
     drop_bit 0x28 (x AND 0x00ff000000000000) OR
     drop_bit 0x18 (x AND 0x0000ff0000000000) OR
     drop_bit 0x08 (x AND 0x000000ff00000000) OR
     push_bit 0x08 (x AND 0x00000000ff000000) OR
     push_bit 0x18 (x AND 0x0000000000ff0000) OR
     push_bit 0x28 (x AND 0x000000000000ff00) OR
     push_bit 0x38 (x AND 0x00000000000000ff)"

section \<open>Memory representation of an integer\<close>

datatype byte_order = LITTLE_ENDIAN | BIG_ENDIAN

text \<open>\<open>byte_at w i\<close> is the byte of weight \<open>2 ^ (8 * i)\<close>; \<open>le_repr n w\<close> lists the low
  \<open>n\<close> of them, least significant first; \<open>le_value\<close> reads such a list back.\<close>

definition byte_at :: "'a::len word \<Rightarrow> nat \<Rightarrow> byte" where
  "byte_at w i = ucast (drop_bit (8 * i) w)"

definition le_repr :: "nat \<Rightarrow> 'a::len word \<Rightarrow> bytes" where
  "le_repr n w = map (byte_at w) [0..<n]"

fun le_value :: "bytes \<Rightarrow> 'a::len word" where
  "le_value [] = 0"
| "le_value (b # bs) = ucast b OR push_bit 8 (le_value bs)"

text \<open>What \<^verbatim>\<open>memcpy(data, p, sizeof data)\<close> in Buffer::append and the copy out of
  Buffer::extract do with an integer of \<open>n\<close> bytes.\<close>

definition mem_repr :: "byte_order \<Rightarrow> nat \<Rightarrow> 'a::len word \<Rightarrow> bytes" where
  "mem_repr ord n w = (case ord of LITTLE_ENDIAN \<Rightarrow> le_repr n w | BIG_ENDIAN \<Rightarrow> rev (le_repr n w))"

definition mem_value :: "byte_order \<Rightarrow> bytes \<Rightarrow> 'a::len word" where
  "mem_value ord bs = (case ord of LITTLE_ENDIAN \<Rightarrow> le_value bs | BIG_ENDIAN \<Rightarrow> le_value (rev bs))"

section \<open>HostEndian, SwapEndian and the BigEndian / LittleEndian typedefs\<close>

definition HostEndian_encode :: "'a \<Rightarrow> 'a" where
  "HostEndian_encode x = x"

definition HostEndian_decode :: "'a \<Rightarrow> 'a" where
  "HostEndian_decode x = x"

definition SwapEndian_encode :: "('a \<Rightarrow> 'a) \<Rightarrow> 'a \<Rightarrow> 'a" where
  "SwapEndian_encode swap x = swap x"

definition SwapEndian_decode :: "('a \<Rightarrow> 'a) \<Rightarrow> 'a \<Rightarrow> 'a" where
  "SwapEndian_decode swap x = swap x"

definition BigEndian_encode :: "byte_order \<Rightarrow> ('a \<Rightarrow> 'a) \<Rightarrow> 'a \<Rightarrow> 'a" where
  "BigEndian_encode ord swap x =
     (case ord of LITTLE_ENDIAN \<Rightarrow> SwapEndian_encode swap x | BIG_ENDIAN \<Rightarrow> HostEndian_encode x)"

definition BigEndian_decode :: "byte_order \<Rightarrow> ('a \<Rightarrow> 'a) \<Rightarrow> 'a \<Rightarrow> 'a" where
  "BigEndian_decode ord swap x =
     (case ord of LITTLE_ENDIAN \<Rightarrow> SwapEndian_decode swap x | BIG_ENDIAN \<Rightarrow> HostEndian_decode x)"

definition LittleEndian_encode :: "byte_order \<Rightarrow> ('a \<Rightarrow> 'a) \<Rightarrow> 'a \<Rightarrow> 'a" where
  "LittleEndian_encode ord swap x =
     (case ord of LITTLE_ENDIAN \<Rightarrow> HostEndian_encode x | BIG_ENDIAN \<Rightarrow> SwapEndian_encode swap x)"

definition LittleEndian_decode :: "byte_order \<Rightarrow> ('a \<Rightarrow> 'a) \<Rightarrow> 'a \<Rightarrow> 'a" where
  "LittleEndian_decode ord swap x =
     (case ord of LITTLE_ENDIAN \<Rightarrow> HostEndian_decode x | BIG_ENDIAN \<Rightarrow> SwapEndian_decode swap x)"

section \<open>Big-endian wire format\<close>

definition be16 :: "u16 \<Rightarrow> bytes" where "be16 x = rev (le_repr 2 x)"
definition be32 :: "u32 \<Rightarrow> bytes" where "be32 x = rev (le_repr 4 x)"
definition be64 :: "u64 \<Rightarrow> bytes" where "be64 x = rev (le_repr 8 x)"

definition be16_value :: "bytes \<Rightarrow> u16" where "be16_value bs = le_value (rev bs)"
definition be32_value :: "bytes \<Rightarrow> u32" where "be32_value bs = le_value (rev bs)"
definition be64_value :: "bytes \<Rightarrow> u64" where "be64_value bs = le_value (rev bs)"

section \<open>Bits of the definitions\<close>

lemma length_le_repr [simp]: "length (le_repr n w) = n"
  by (simp add: le_repr_def)

lemma bit_byte_at: "bit (byte_at w i) k \<longleftrightarrow> k < 8 \<and> bit w (8 * i + k)"
  by (simp add: byte_at_def bit_ucast_iff bit_drop_bit_eq)

lemma bit_le_value:
  "bit (le_value bs :: 'a::len word) k \<longleftrightarrow>
     k < LENGTH('a) \<and> k div 8 < length bs \<and> bit (bs ! (k div 8)) (k mod 8)"
proof (induction bs arbitrary: k)
  case Nil
  show ?case by simp
next
  case (Cons b bs)
  show ?case
  proof (cases "k < 8")
    case True
    then show ?thesis
      by (auto simp: bit_or_iff bit_push_bit_iff bit_ucast_iff)
  next
    case False
    then obtain j where j: "k = 8 + j" by (metis le_Suc_ex not_less)
    then have "k div 8 = Suc (j div 8)" "k mod 8 = j mod 8" by simp_all
    have "\<not> bit b k" using False bit_imp_le_length by fastforce
    with j \<open>k div 8 = Suc (j div 8)\<close> \<open>k mod 8 = j mod 8\<close> show ?thesis
      by (auto simp: bit_or_iff bit_push_bit_iff bit_ucast_iff Cons.IH)
  qed
qed

lemma le_value_le_repr:
  assumes "LENGTH('a) = 8 * n"
  shows "le_value (le_repr n w) = (w :: 'a::len word)"
proof (rule bit_word_eqI)
  fix k assume "k < LENGTH('a)"
  then show "bit (le_value (le_repr n w) :: 'a word) k = bit w k"
    using assms by (simp add: bit_le_value le_repr_def bit_byte_at less_mult_imp_div_less mult.commute)
qed

lemma le_repr_le_value:
  assumes "LENGTH('a) = 8 * n" and "length bs = n"
  shows "le_repr n (le_value bs :: 'a::len word) = bs"
proof (rule nth_equalityI)
  show "length (le_repr n (le_value bs :: 'a word)) = length bs" using assms by simp
next
  fix i assume i: "i < length (le_repr n (le_value bs :: 'a word))"
  show "le_repr n (le_value bs :: 'a word) ! i = bs ! i"
  proof (rule bit_word_eqI)
    fix k assume "k < LENGTH(8)"
    then show "bit (le_repr n (le_value bs :: 'a word) ! i) k = bit (bs ! i) k"
      using i assms by (simp add: le_repr_def bit_byte_at bit_le_value)
  qed
qed

section \<open>Byte swapping reverses the bytes\<close>

text \<open>The masks of the source are byte masks; a masked and shifted word has one byte
  of the original at one place.\<close>

definition byte_mask :: "nat \<Rightarrow> 'a::len word" where
  "byte_mask i = push_bit (8 * i) (mask 8)"

lemma bit_byte_mask:
  "bit (byte_mask i :: 'a::len word) k \<longleftrightarrow> k < LENGTH('a) \<and> 8 * i \<le> k \<and> k < 8 * i + 8"
  by (auto simp: byte_mask_def bit_push_bit_iff bit_mask_iff)

lemma byte_masks:
  "(0xff00 :: u16) = byte_mask 1" "(0xff :: u16) = byte_mask 0"
  "(0xff000000 :: u32) = byte_mask 3" "(0xff0000 :: u32) = byte_mask 2"
  "(0xff00 :: u32) = byte_mask 1" "(0xff :: u32) = byte_mask 0"
  "(0xff00000000000000 :: u64) = byte_mask 7" "(0xff000000000000 :: u64) = byte_mask 6"
  "(0xff0000000000 :: u64) = byte_mask 5" "(0xff00000000 :: u64) = byte_mask 4"
  "(0xff000000 :: u64) = byte_mask 3" "(0xff0000 :: u64) = byte_mask 2"
  "(0xff00 :: u64) = byte_mask 1" "(0xff :: u64) = byte_mask 0"
  by (simp_all add: byte_mask_def mask_eq_exp_minus_1 push_bit_eq_mult)

lemma byte_at_or: "byte_at (a OR b) i = byte_at a i OR byte_at b i"
  by (rule bit_word_eqI) (simp add: bit_byte_at bit_or_iff)

lemma byte_at_drop_mask:
  "byte_at (drop_bit (8 * d) (x AND byte_mask j)) i = (if i + d = j then byte_at x j else 0)"
  by (rule bit_word_eqI)
    (auto simp: bit_byte_at bit_simps bit_byte_mask algebra_simps dest: bit_imp_le_length)

lemma byte_at_push_mask:
  "8 * i + 7 < LENGTH('a) \<Longrightarrow>
   byte_at (push_bit (8 * d) (x AND byte_mask j) :: 'a::len word) i =
     (if i = j + d then byte_at x j else 0)"
  by (rule bit_word_eqI)
    (auto simp: bit_byte_at bit_simps bit_byte_mask algebra_simps dest: bit_imp_le_length)

lemmas byte_at_shift =
  byte_at_drop_mask [of 1, simplified] byte_at_drop_mask [of 3, simplified]
  byte_at_drop_mask [of 5, simplified] byte_at_drop_mask [of 7, simplified]
  byte_at_push_mask [of _ 1, simplified] byte_at_push_mask [of _ 3, simplified]
  byte_at_push_mask [of _ 5, simplified] byte_at_push_mask [of _ 7, simplified]

lemma upt_bytes: "[0..<2] = [0, 1]" "[0..<4] = [0, 1, 2, 3]" "[0..<8] = [0, 1, 2, 3, 4, 5, 6, 7]"
  by (simp_all add: upt_rec numeral_eq_Suc)

lemma le_repr_swap16: "le_repr 2 (swap16 x) = rev (le_repr 2 x)"
  by (simp add: le_repr_def upt_bytes swap16_def byte_masks byte_at_or byte_at_shift)

lemma le_repr_swap32: "le_repr 4 (swap32 x) = rev (le_repr 4 x)"
  by (simp add: le_repr_def upt_bytes swap32_def byte_masks byte_at_or byte_at_shift)

lemma le_repr_swap64: "le_repr 8 (swap64 x) = rev (le_repr 8 x)"
  by (simp add: le_repr_def upt_bytes swap64_def byte_masks byte_at_or byte_at_shift)

section \<open>Fixed-width codecs\<close>

text \<open>The contract of an integer field of a message: a fixed width, and a decoder that
  inverts the encoder in both directions.\<close>

locale field_codec =
  fixes enc :: "'a \<Rightarrow> bytes" and dec :: "bytes \<Rightarrow> 'a" and width :: nat
  assumes length_enc: "length (enc x) = width"
    and dec_enc: "dec (enc x) = x"
    and enc_dec: "length bs = width \<Longrightarrow> enc (dec bs) = bs"
begin

lemma dec_take_enc: "dec (take width (enc x @ rest)) = x"
  by (simp add: length_enc dec_enc)

lemma drop_enc: "drop width (enc x @ rest) = rest"
  by (simp add: length_enc)

lemma enc_inject: "enc x = enc y \<longleftrightarrow> x = y"
  by (metis dec_enc)

lemma enc_append_inject: "enc x @ r = enc y @ s \<longleftrightarrow> x = y \<and> r = s"
  by (metis append_eq_append_conv enc_inject length_enc)

lemma enc_surj: "length bs = width \<Longrightarrow> \<exists>x. bs = enc x"
  by (metis enc_dec)

lemma enc_neq_Nil: "0 < width \<Longrightarrow> enc x \<noteq> []"
  using length_enc [of x] by auto

end

lemma be16_codec: "field_codec be16 be16_value 2"
  by unfold_locales
    (simp_all add: be16_def be16_value_def le_value_le_repr le_repr_le_value)

lemma be32_codec: "field_codec be32 be32_value 4"
  by unfold_locales
    (simp_all add: be32_def be32_value_def le_value_le_repr le_repr_le_value)

lemma be64_codec: "field_codec be64 be64_value 8"
  by unfold_locales
    (simp_all add: be64_def be64_value_def le_value_le_repr le_repr_le_value)

interpretation be16: field_codec be16 be16_value 2
  by (rule be16_codec)

interpretation be32: field_codec be32 be32_value 4
  by (rule be32_codec)

interpretation be64: field_codec be64 be64_value 8
  by (rule be64_codec)

declare be16.length_enc [simp] be32.length_enc [simp] be64.length_enc [simp]
declare be16.dec_enc [simp] be32.dec_enc [simp] be64.dec_enc [simp]

section \<open>The wire does not depend on the host\<close>

lemma mem_value_mem_repr:
  assumes "LENGTH('a) = 8 * n"
  shows "mem_value ord (mem_repr ord n w) = (w :: 'a::len word)"
  using assms by (simp add: mem_value_def mem_repr_def le_value_le_repr split: byte_order.split)

lemma swap_involutions: "swap16 (swap16 a) = a" "swap32 (swap32 b) = b" "swap64 (swap64 c) = c"
proof -
  have "le_repr 2 (swap16 (swap16 a)) = le_repr 2 a" by (simp add: le_repr_swap16)
  then show "swap16 (swap16 a) = a" by (metis le_value_le_repr len_num1 be16.dec_enc be16_def)
  have "le_repr 4 (swap32 (swap32 b)) = le_repr 4 b" by (simp add: le_repr_swap32)
  then show "swap32 (swap32 b) = b" by (metis be32.dec_enc be32_def)
  have "le_repr 8 (swap64 (swap64 c)) = le_repr 8 c" by (simp add: le_repr_swap64)
  then show "swap64 (swap64 c) = c" by (metis be64.dec_enc be64_def)
qed

lemma append_BigEndian:
  "mem_repr ord 2 (BigEndian_encode ord swap16 a) = be16 a"
  "mem_repr ord 4 (BigEndian_encode ord swap32 b) = be32 b"
  "mem_repr ord 8 (BigEndian_encode ord swap64 c) = be64 c"
  by (cases ord;
      simp add: mem_repr_def BigEndian_encode_def SwapEndian_encode_def HostEndian_encode_def
        le_repr_swap16 le_repr_swap32 le_repr_swap64 be16_def be32_def be64_def)+

lemma extract_BigEndian:
  "length a = 2 \<Longrightarrow> BigEndian_decode ord swap16 (mem_value ord a) = be16_value a"
  "length b = 4 \<Longrightarrow> BigEndian_decode ord swap32 (mem_value ord b) = be32_value b"
  "length c = 8 \<Longrightarrow> BigEndian_decode ord swap64 (mem_value ord c) = be64_value c"
  by (cases ord;
      simp add: mem_value_def BigEndian_decode_def SwapEndian_decode_def HostEndian_decode_def
        be16_value_def be32_value_def be64_value_def;
      metis be16.enc_dec be16_def be16_value_def be32.enc_dec be32_def be32_value_def
        be64.enc_dec be64_def be64_value_def le_repr_swap16 le_repr_swap32 le_repr_swap64
        le_repr_le_value rev_rev_ident be16.dec_enc be32.dec_enc be64.dec_enc)+

end
