(* ===== verification/XCodec_Stream.thy ===== *)
theory XCodec_Stream
  imports XCodec_Window XCodec_Cache Endian
begin

text \<open>
  The encoded stream of the XCodec as xcodec/xcodec.h describes its operations,
  independent of the encoder and the decoder.  \<open>xstream D w bs out D' w'\<close> says that the
  bytes \<open>bs\<close>, read with the dictionary \<open>D\<close> of named segments and the back-reference
  window \<open>w\<close>, stand for the data \<open>out\<close> and leave the dictionary \<open>D'\<close> and the window
  \<open>w'\<close>.  The encoder is shown to write such streams and the decoder to read them.
\<close>

inductive xstream ::
  "(u64 \<rightharpoonup> bytes) \<Rightarrow> xcodec_window \<Rightarrow> bytes \<Rightarrow> bytes \<Rightarrow> (u64 \<rightharpoonup> bytes) \<Rightarrow> xcodec_window \<Rightarrow> bool"
where
  xs_end: "xstream D w [] [] D w"
| xs_literal:
    "b \<noteq> XCODEC_MAGIC \<Longrightarrow> xstream D w bs out D' w' \<Longrightarrow> xstream D w (b # bs) (b # out) D' w'"
| xs_escape:
    "xstream D w bs out D' w' \<Longrightarrow>
     xstream D w (XCODEC_MAGIC # XCODEC_OP_ESCAPE # bs) (XCODEC_MAGIC # out) D' w'"
| xs_extract:
    "length seg = XCODEC_SEGMENT_LENGTH \<Longrightarrow>
     D (segment_hash seg) = None \<or> D (segment_hash seg) = Some seg \<Longrightarrow>
     xstream (D(segment_hash seg \<mapsto> seg)) (declared (segment_hash seg) seg w) bs out D' w' \<Longrightarrow>
     xstream D w (XCODEC_MAGIC # XCODEC_OP_EXTRACT # seg @ bs) (seg @ out) D' w'"
| xs_ref:
    "D hash = Some seg \<Longrightarrow> xstream D (declared hash seg w) bs out D' w' \<Longrightarrow>
     xstream D w (XCODEC_MAGIC # XCODEC_OP_REF # be64 hash @ bs) (seg @ out) D' w'"
| xs_backref:
    "window_dereference (unat idx) w = Some (Some seg) \<Longrightarrow> xstream D w bs out D' w' \<Longrightarrow>
     xstream D w (XCODEC_MAGIC # XCODEC_OP_BACKREF # idx # bs) (seg @ out) D' w'"

inductive_cases xstream_NilE: "xstream D w [] out D' w'"

lemma xstream_append:
  "xstream D w bs out D1 w1 \<Longrightarrow> xstream D1 w1 bs' out' D2 w2 \<Longrightarrow>
     xstream D w (bs @ bs') (out @ out') D2 w2"
  by (induction rule: xstream.induct) (auto intro: xstream.intros)

lemma xstream_grows: "xstream D w bs out D' w' \<Longrightarrow> D \<subseteq>\<^sub>m D'"
proof (induction rule: xstream.induct)
  case (xs_extract seg D w bs out D' w')
  have "D \<subseteq>\<^sub>m D(segment_hash seg \<mapsto> seg)" using xs_extract.hyps(2) by (auto intro!: map_leI)
  then show ?case using xs_extract.IH by (rule map_le_trans)
qed auto

text \<open>A reader who knows more from the start reads the same data.\<close>

lemma xstream_mono: "xstream D w bs out D' w' \<Longrightarrow> D' \<subseteq>\<^sub>m U \<Longrightarrow> xstream U w bs out U w'"
proof (induction rule: xstream.induct)
  case (xs_extract seg D w bs out D' w')
  have "U (segment_hash seg) = Some seg"
    using map_le_trans [OF xstream_grows [OF xs_extract.hyps(3)] xs_extract.prems] map_leD by fastforce
  then have "U(segment_hash seg \<mapsto> seg) = U" by auto
  then show ?case using xs_extract \<open>U (segment_hash seg) = Some seg\<close> by (auto intro: xstream.xs_extract)
next
  case (xs_ref D hash seg w bs out D' w')
  then have "U hash = Some seg" using xstream_grows map_leD by metis
  then show ?case using xs_ref by (auto intro: xstream.xs_ref)
qed (auto intro: xstream.intros)

lemma xstream_wf: "xstream D w bs out D' w' \<Longrightarrow> window_wf w \<Longrightarrow> window_wf w'"
  by (induction rule: xstream.induct) (auto intro: window_wf_declared)

text \<open>Single operations, as streams.\<close>

lemma xstream_extract1:
  "length seg = XCODEC_SEGMENT_LENGTH \<Longrightarrow> D (segment_hash seg) = None \<or> D (segment_hash seg) = Some seg \<Longrightarrow>
   xstream D w (XCODEC_MAGIC # XCODEC_OP_EXTRACT # seg) seg
     (D(segment_hash seg \<mapsto> seg)) (declared (segment_hash seg) seg w)"
  using xs_extract [OF _ _ xs_end] by fastforce

lemma xstream_ref1:
  "D hash = Some seg \<Longrightarrow>
   xstream D w (XCODEC_MAGIC # XCODEC_OP_REF # be64 hash) seg D (declared hash seg w)"
  using xs_ref [OF _ xs_end] by fastforce

lemma xstream_backref1:
  "window_dereference (unat idx) w = Some (Some seg) \<Longrightarrow>
   xstream D w [XCODEC_MAGIC, XCODEC_OP_BACKREF, idx] seg D w"
  using xs_backref [OF _ xs_end] by fastforce

section \<open>Escaped data\<close>

definition escape_bytes :: "bytes \<Rightarrow> bytes" where
  "escape_bytes bs =
     concat (map (\<lambda>b. if b = XCODEC_MAGIC then [XCODEC_MAGIC, XCODEC_OP_ESCAPE] else [b]) bs)"

lemma escape_bytes_simps [simp]:
  "escape_bytes [] = []"
  "escape_bytes (b # bs) =
     (if b = XCODEC_MAGIC then XCODEC_MAGIC # XCODEC_OP_ESCAPE # escape_bytes bs
      else b # escape_bytes bs)"
  "escape_bytes (xs @ ys) = escape_bytes xs @ escape_bytes ys"
  by (simp_all add: escape_bytes_def)

lemma escape_bytes_id: "XCODEC_MAGIC \<notin> set bs \<Longrightarrow> escape_bytes bs = bs"
  by (induction bs) auto

lemma xstream_escape: "xstream D w (escape_bytes bs) bs D w"
  by (induction bs) (auto intro: xstream.intros)

lemma escape_bytes_eq_Nil [simp]: "escape_bytes bs = [] \<longleftrightarrow> bs = []"
  by (cases bs) auto

lemma length_escape_bytes: "length bs \<le> length (escape_bytes bs) \<and> length (escape_bytes bs) \<le> 2 * length bs"
  by (induction bs) auto

end
