(* ===== verification/XCodec_Encoder.thy ===== *)
theory XCodec_Encoder
  imports XCodec_Stream
begin

text \<open>
  xcodec/xcodec_encoder.cc.  \<^verbatim>\<open>encode\<close> reads its input Buffer segment by segment, so the
  input is the list of its segments; the queue \<^verbatim>\<open>outq\<close> and the output are byte contents.
  The body of \<^verbatim>\<open>encode\<close> is split at its comments: \<open>encode_pending\<close> (declare a candidate
  the rolling hash has passed), \<open>encode_lookup\<close> (reference a known segment or remember a
  candidate), \<open>encode_position\<close> (one position of the rolling hash), \<open>encode_bytes\<close> (the
  bytes of one segment), \<open>encode_segments\<close> (the segments) and \<open>encode\<close>.
\<close>

record candidate_symbol =
  cs_set :: bool
  cs_offset :: nat
  cs_symbol :: u64

record xcodec_encoder =
  xe_cache :: xcodec_cache
  xe_window :: xcodec_window
  xe_stream :: bool

definition encoder_new :: "xcodec_cache \<Rightarrow> xcodec_encoder" where
  "encoder_new cache =
     \<lparr>xe_cache = cache, xe_window = window_new, xe_stream = (\<not> cache_out_of_band cache)\<rparr>"

section \<open>encode_escape, encode_reference, encode_declaration\<close>

text \<open>The \<^verbatim>\<open>do ... while (length != 0)\<close> loop; \<^verbatim>\<open>sizeof XCODEC_MAGIC\<close> is 1.\<close>

function encode_escape_loop :: "bytes \<Rightarrow> bytes \<Rightarrow> nat \<Rightarrow> (bytes \<times> bytes) option" where
  "encode_escape_loop output input len =
     (case buf_find XCODEC_MAGIC len input of
        None \<Rightarrow> do {
          output \<leftarrow> buf_append_len output input len;
          input \<leftarrow> buf_skip len input;
          Some (output, input) }
      | Some offset \<Rightarrow> do {
          (output, input) \<leftarrow>
            (if offset \<noteq> 0 then do {
               output \<leftarrow> buf_append_len output input offset;
               input \<leftarrow> buf_skip offset input;
               Some (output, input) }
             else Some (output, input));
          output \<leftarrow> buf_append_bytes output [XCODEC_MAGIC];
          output \<leftarrow> buf_append_bytes output [XCODEC_OP_ESCAPE];
          input \<leftarrow> buf_skip 1 input;
          (if len - offset - 1 \<noteq> 0 then encode_escape_loop output input (len - offset - 1)
           else Some (output, input)) })"
  by pat_completeness auto
termination
  by (relation "measure (\<lambda>(output, input, len). len)") auto

declare encode_escape_loop.simps [simp del]

definition encode_escape :: "bytes \<Rightarrow> bytes \<Rightarrow> nat \<Rightarrow> (bytes \<times> bytes) option" where
  "encode_escape output input len = do {
     assert_that (len \<noteq> 0);
     encode_escape_loop output input len }"

text \<open>The result is the boolean the code returns, the output and input buffers and the
  encoder.  \<^verbatim>\<open>oseg->equal(data, sizeof data)\<close> compares lengths and bytes.\<close>

definition encode_reference ::
  "bytes \<Rightarrow> bytes \<Rightarrow> nat \<Rightarrow> u64 \<Rightarrow> bytes \<Rightarrow> xcodec_encoder \<Rightarrow>
     (bool \<times> bytes \<times> bytes \<times> xcodec_encoder) option" where
  "encode_reference output input offset hash oseg e = do {
     data \<leftarrow> buf_copyout input offset XCODEC_SEGMENT_LENGTH;
     (if oseg \<noteq> data then Some (False, output, input, e)
      else do {
        (output, input) \<leftarrow>
          (if offset \<noteq> 0 then encode_escape output input offset else Some (output, input));
        input \<leftarrow> buf_skip XCODEC_SEGMENT_LENGTH input;
        present \<leftarrow> window_present hash (xe_window e);
        (case present of
           Some b \<Rightarrow> do {
             output \<leftarrow> buf_append_bytes output [XCODEC_MAGIC];
             output \<leftarrow> buf_append_bytes output [XCODEC_OP_BACKREF];
             output \<leftarrow> buf_append_bytes output [b];
             Some (True, output, input, e) }
         | None \<Rightarrow> do {
             output \<leftarrow> buf_append_bytes output [XCODEC_MAGIC];
             output \<leftarrow> buf_append_bytes output [XCODEC_OP_REF];
             output \<leftarrow> buf_append_bytes output (be64 hash);
             w \<leftarrow> window_declare hash oseg (xe_window e);
             Some (True, output, input, e\<lparr>xe_window := w\<rparr>) }) }) }"

text \<open>The first component of the result is the new segment (\<^verbatim>\<open>*segp\<close>).\<close>

definition encode_declaration ::
  "bytes \<Rightarrow> bytes \<Rightarrow> nat \<Rightarrow> u64 \<Rightarrow> xcodec_encoder \<Rightarrow>
     (bytes \<times> bytes \<times> bytes \<times> xcodec_encoder) option" where
  "encode_declaration output input offset hash e = do {
     (output, input) \<leftarrow>
       (if offset \<noteq> 0 then encode_escape output input offset else Some (output, input));
     nseg \<leftarrow> buf_copyout_segment input XCODEC_SEGMENT_LENGTH;
     cache \<leftarrow> cache_enter hash nseg (xe_cache e);
     let e = e\<lparr>xe_cache := cache\<rparr>;
     (if \<not> xe_stream e then do {
        (ok, output, input, e) \<leftarrow> encode_reference output input 0 hash nseg e;
        assert_that ok;
        Some (nseg, output, input, e) }
      else do {
        output \<leftarrow> buf_append_bytes output [XCODEC_MAGIC];
        output \<leftarrow> buf_append_bytes output [XCODEC_OP_EXTRACT];
        output \<leftarrow> buf_append_segment output nseg;
        w \<leftarrow> window_declare hash nseg (xe_window e);
        input \<leftarrow> buf_skip XCODEC_SEGMENT_LENGTH input;
        Some (nseg, output, input, e\<lparr>xe_window := w\<rparr>) }) }"

section \<open>encode\<close>

text \<open>The local variables of \<^verbatim>\<open>encode\<close>.  Offsets are \<^verbatim>\<open>unsigned\<close> in the source; they are at most the
  length of the input and do not wrap for inputs of less than \<open>2 ^ 32\<close> bytes.\<close>

record encode_state =
  es_output :: bytes
  es_outq :: bytes
  es_o :: nat
  es_hash :: xcodec_hash
  es_cand :: candidate_symbol
  es_enc :: xcodec_encoder

text \<open>The flag of the result tells whether the code executes \<^verbatim>\<open>continue\<close>.\<close>

definition encode_pending :: "u64 \<Rightarrow> encode_state \<Rightarrow> (bool \<times> encode_state) option" where
  "encode_pending hash st =
     (let cand = es_cand st; start = es_o st - XCODEC_SEGMENT_LENGTH in
      if cs_set cand \<and> cs_offset cand + XCODEC_SEGMENT_LENGTH \<le> start then do {
        (nseg, output, outq, e) \<leftarrow>
          encode_declaration (es_output st) (es_outq st) (cs_offset cand) (cs_symbol cand) (es_enc st);
        let st = st\<lparr>es_output := output, es_outq := outq, es_enc := e,
                    es_o := es_o st - (cs_offset cand + XCODEC_SEGMENT_LENGTH),
                    es_cand := cand\<lparr>cs_set := False\<rparr>\<rparr>;
        let start = es_o st - XCODEC_SEGMENT_LENGTH;
        (if hash = cs_symbol cand then do {
           (ok, output, outq, e) \<leftarrow> encode_reference (es_output st) (es_outq st) start hash nseg (es_enc st);
           (if \<not> ok then Some (True, st)
            else Some (True, st\<lparr>es_output := output, es_outq := outq, es_enc := e,
                                es_o := 0, es_hash := hash_reset (es_hash st)\<rparr>)) }
         else Some (False, st)) }
      else Some (False, st))"

definition encode_lookup :: "u64 \<Rightarrow> encode_state \<Rightarrow> encode_state option" where
  "encode_lookup hash st =
     (let start = es_o st - XCODEC_SEGMENT_LENGTH in
      case cache_lookup (xe_cache (es_enc st)) hash of
        Some oseg \<Rightarrow> do {
          (ok, output, outq, e) \<leftarrow> encode_reference (es_output st) (es_outq st) start hash oseg (es_enc st);
          (if ok then
             Some (st\<lparr>es_output := output, es_outq := outq, es_enc := e,
                      es_o := 0, es_hash := hash_reset (es_hash st),
                      es_cand := (es_cand st)\<lparr>cs_set := False\<rparr>\<rparr>)
           else Some st) }
      | None \<Rightarrow>
          if cs_set (es_cand st) then do {
            assert_that (start < cs_offset (es_cand st) + XCODEC_SEGMENT_LENGTH);
            Some st }
          else Some (st\<lparr>es_cand := \<lparr>cs_set = True, cs_offset = start, cs_symbol = hash\<rparr>\<rparr>))"

definition encode_position :: "encode_state \<Rightarrow> encode_state option" where
  "encode_position st = do {
     assert_that (XCODEC_SEGMENT_LENGTH \<le> es_o st);
     hash \<leftarrow> hash_mix (es_hash st);
     (cont, st) \<leftarrow> encode_pending hash st;
     (if cont then Some st else encode_lookup hash st) }"

text \<open>The loop over the bytes \<^verbatim>\<open>[p, q)\<close> of one segment.\<close>

function encode_bytes :: "bytes \<Rightarrow> encode_state \<Rightarrow> encode_state option" where
  "encode_bytes rest st =
     (if rest = [] then Some st
      else if es_o st + length rest < XCODEC_SEGMENT_LENGTH then do {
        h \<leftarrow> hash_add_all rest (es_hash st);
        Some (st\<lparr>es_o := es_o st + length rest, es_hash := h\<rparr>) }
      else if es_o st < XCODEC_SEGMENT_LENGTH then do {
        h \<leftarrow> hash_add_all (take (XCODEC_SEGMENT_LENGTH - es_o st) rest) (es_hash st);
        st' \<leftarrow> encode_position (st\<lparr>es_o := XCODEC_SEGMENT_LENGTH, es_hash := h\<rparr>);
        encode_bytes (drop (XCODEC_SEGMENT_LENGTH - es_o st) rest) st' }
      else do {
        h \<leftarrow> hash_roll (hd rest) (es_hash st);
        st' \<leftarrow> encode_position (st\<lparr>es_o := es_o st + 1, es_hash := h\<rparr>);
        encode_bytes (tl rest) st' })"
  by pat_completeness auto
termination
  by (relation "measure (\<lambda>(rest, st). length rest)") auto

declare encode_bytes.simps [simp del]

fun encode_segments :: "bytes list \<Rightarrow> encode_state \<Rightarrow> encode_state option" where
  "encode_segments [] st = Some st"
| "encode_segments (seg # input) st =
     (if es_o st + length (concat (seg # input)) < XCODEC_SEGMENT_LENGTH then
        Some (st\<lparr>es_outq := es_outq st @ concat (seg # input)\<rparr>)
      else do {
        outq \<leftarrow> buf_append_segment (es_outq st) seg;
        st \<leftarrow> encode_bytes seg (st\<lparr>es_outq := outq\<rparr>);
        encode_segments input st })"

definition encode_init :: "bytes \<Rightarrow> xcodec_encoder \<Rightarrow> encode_state" where
  "encode_init output e =
     \<lparr>es_output = output, es_outq = [], es_o = 0, es_hash = xcodec_hash_new,
      es_cand = \<lparr>cs_set = False, cs_offset = 0, cs_symbol = 0\<rparr>, es_enc = e\<rparr>"

definition encode_finish :: "encode_state \<Rightarrow> (bytes \<times> xcodec_encoder) option" where
  "encode_finish st = do {
     (output, outq, e) \<leftarrow>
       (if cs_set (es_cand st) then do {
          assert_that (es_outq st \<noteq> []);
          (nseg, output, outq, e) \<leftarrow>
            encode_declaration (es_output st) (es_outq st) (cs_offset (es_cand st))
              (cs_symbol (es_cand st)) (es_enc st);
          Some (output, outq, e) }
        else Some (es_output st, es_outq st, es_enc st));
     (output, outq) \<leftarrow>
       (if outq \<noteq> [] then encode_escape output outq (length outq) else Some (output, outq));
     assert_that (outq = []);
     Some (output, e) }"

definition encode :: "bytes \<Rightarrow> bytes list \<Rightarrow> xcodec_encoder \<Rightarrow> (bytes \<times> xcodec_encoder) option" where
  "encode output input e =
     (if input = [] then Some (output, e)
      else if length (concat input) < XCODEC_SEGMENT_LENGTH then do {
        (output, rest) \<leftarrow> encode_escape output (concat input) (length (concat input));
        Some (output, e) }
      else do {
        st \<leftarrow> encode_segments input (encode_init output e);
        encode_finish st })"

section \<open>What the encoder writes\<close>

lemma encode_escape_loop_step:
  assumes find: "buf_find XCODEC_MAGIC n input = Some k" and n: "0 < n" "n \<le> length input"
  shows "encode_escape_loop out input n =
     (let out' = out @ escape_bytes (take (Suc k) input); m = n - k - 1 in
      if m \<noteq> 0 then encode_escape_loop out' (drop (Suc k) input) m else Some (out', drop (Suc k) input))"
proof -
  have k: "k < n" "input ! k = XCODEC_MAGIC" "XCODEC_MAGIC \<notin> set (take k input)"
    using buf_find_SomeD [OF find] n by auto
  then have "escape_bytes (take (Suc k) input) = take k input @ [XCODEC_MAGIC, XCODEC_OP_ESCAPE]"
    using n by (simp add: take_Suc_conv_app_nth escape_bytes_id)
  moreover have "input \<noteq> []" "drop k input \<noteq> []" using k n by auto
  ultimately show ?thesis
    using find k n
    by (subst encode_escape_loop.simps) (cases "k = 0"; simp add: buf_simps Let_def)
qed

lemma encode_escape_loop_eq:
  assumes "0 < n" and "n \<le> length input"
  shows "encode_escape_loop out input n = Some (out @ escape_bytes (take n input), drop n input)"
  using assms
proof (induction n arbitrary: out input rule: less_induct)
  case (less n)
  show ?case
  proof (cases "buf_find XCODEC_MAGIC n input")
    case None
    then have "XCODEC_MAGIC \<notin> set (take n input)" "input \<noteq> []"
      using less.prems buf_find_limit_None_iff by auto
    with None less.prems show ?thesis
      by (subst encode_escape_loop.simps) (simp add: buf_simps escape_bytes_id)
  next
    case (Some k)
    have k: "k < n" using buf_find_SomeD(4) [OF Some] less.prems by simp
    define m where "m = n - k - 1"
    have n: "n = Suc k + m" using k by (simp add: m_def)
    have esc: "escape_bytes (take n input) =
        escape_bytes (take (Suc k) input) @ escape_bytes (take m (drop (Suc k) input))"
      unfolding n take_add by simp
    have "encode_escape_loop out' (drop (Suc k) input) m =
        Some (out' @ escape_bytes (take m (drop (Suc k) input)), drop m (drop (Suc k) input))"
      if "m \<noteq> 0" for out'
      using less.IH [of m "drop (Suc k) input" out'] that n less.prems by simp
    then show ?thesis
      unfolding encode_escape_loop_step [OF Some less.prems] esc
      by (simp add: Let_def n flip: m_def) (auto simp: add.commute)
  qed
qed

lemma encode_escape_eq [buf_simps]:
  "0 < n \<Longrightarrow> n \<le> length input \<Longrightarrow>
     encode_escape out input n = Some (out @ escape_bytes (take n input), drop n input)"
  by (simp add: encode_escape_def encode_escape_loop_eq)

subsection \<open>Encoder states and what a call emits\<close>

definition encoder_wf :: "xcodec_encoder \<Rightarrow> bool" where
  "encoder_wf e \<longleftrightarrow>
     remembers (xe_cache e) \<and> hashed (cache_lookup (xe_cache e)) \<and> window_wf (xe_window e) \<and>
     xw_segments (xe_window e) \<subseteq>\<^sub>m cache_lookup (xe_cache e)"

lemma encoder_new_fields [simp]:
  "xe_cache (encoder_new c) = c" "xe_window (encoder_new c) = window_new"
  by (simp_all add: encoder_new_def)

lemma encoder_wf_new:
  assumes "remembers c" "hashed (cache_lookup c)"
  shows "encoder_wf (encoder_new c)"
  unfolding encoder_wf_def using assms by simp

text \<open>\<open>emits e bs data e'\<close>: going from \<open>e\<close> to \<open>e'\<close> the encoder wrote \<open>bs\<close>, which stand for
  \<open>data\<close> in the dictionary it has at the end.  When it streams (\<^verbatim>\<open>stream_\<close>), \<open>bs\<close> is
  self-contained: a reader needs no more than the dictionary from the start of the call.\<close>

definition emits :: "xcodec_encoder \<Rightarrow> bytes \<Rightarrow> bytes \<Rightarrow> xcodec_encoder \<Rightarrow> bool" where
  "emits e bs data e' \<longleftrightarrow>
     (let C = cache_lookup (xe_cache e); C' = cache_lookup (xe_cache e') in
      encoder_wf e' \<and> xe_stream e' = xe_stream e \<and> C \<subseteq>\<^sub>m C' \<and>
      xstream C' (xe_window e) bs data C' (xe_window e') \<and>
      (xe_stream e \<longrightarrow> xstream C (xe_window e) bs data C' (xe_window e')))"

lemma emits_escape: "encoder_wf e \<Longrightarrow> emits e (escape_bytes bs) bs e"
  by (simp add: emits_def xstream_escape)

lemma emits_trans:
  assumes "emits e bs data e1" and "emits e1 bs' data' e2"
  shows "emits e (bs @ bs') (data @ data') e2"
proof -
  let ?C = "\<lambda>e. cache_lookup (xe_cache e)" and ?w = xe_window
  have "xstream (?C e2) (?w e) bs data (?C e2) (?w e1)"
    using assms xstream_mono unfolding emits_def Let_def by blast
  then have "xstream (?C e2) (?w e) (bs @ bs') (data @ data') (?C e2) (?w e2)"
    using assms(2) xstream_append unfolding emits_def Let_def by blast
  moreover have "xstream (?C e) (?w e) (bs @ bs') (data @ data') (?C e2) (?w e2)" if "xe_stream e"
    using assms that xstream_append [of "?C e" "?w e" bs data "?C e1" "?w e1"]
    unfolding emits_def Let_def by simp
  ultimately show ?thesis using assms map_le_trans unfolding emits_def Let_def by auto
qed

lemma emits_wf: "emits e bs data e' \<Longrightarrow> encoder_wf e'"
  by (simp add: emits_def Let_def)

lemma segments_declared_le:
  "xw_segments w \<subseteq>\<^sub>m U \<Longrightarrow> U hash = Some seg \<Longrightarrow> xw_segments (declared hash seg w) \<subseteq>\<^sub>m U"
  by (rule map_leI) (blast dest: xw_segments_declared map_leD)

lemma encoder_wf_declared:
  assumes "encoder_wf e" and "cache_lookup (xe_cache e) hash = Some seg"
  shows "encoder_wf (e\<lparr>xe_window := declared hash seg (xe_window e)\<rparr>)"
  using assms by (simp add: encoder_wf_def window_wf_declared segments_declared_le)

lemma emits_ref:
  assumes "encoder_wf e" and "cache_lookup (xe_cache e) hash = Some seg"
  shows "emits e (XCODEC_MAGIC # XCODEC_OP_REF # be64 hash) seg
           (e\<lparr>xe_window := declared hash seg (xe_window e)\<rparr>)"
  using assms by (simp add: emits_def encoder_wf_declared xstream_ref1)

text \<open>A segment is named: in a stream by an EXTRACT; otherwise it enters the dictionary first
  and is referred to.\<close>

lemma emits_extract:
  assumes wf: "encoder_wf e1" and e1: "e1 = e\<lparr>xe_cache := c\<rparr>"
    and c: "cache_lookup c = (cache_lookup (xe_cache e))(segment_hash seg \<mapsto> seg)"
    and fresh: "cache_lookup (xe_cache e) (segment_hash seg) = None"
    and len: "length seg = XCODEC_SEGMENT_LENGTH"
  shows "emits e (XCODEC_MAGIC # XCODEC_OP_EXTRACT # seg) seg
           (e1\<lparr>xe_window := declared (segment_hash seg) seg (xe_window e1)\<rparr>)"
proof -
  have x: "xstream (cache_lookup (xe_cache e)) (xe_window e) (XCODEC_MAGIC # XCODEC_OP_EXTRACT # seg) seg
      (cache_lookup c) (declared (segment_hash seg) seg (xe_window e))"
    unfolding c using len fresh by (intro xstream_extract1) auto
  show ?thesis
    using wf c xstream_grows [OF x] xstream_mono [OF x] x
    by (simp add: emits_def e1 encoder_wf_def window_wf_declared segments_declared_le map_le_refl)
qed

lemma emits_entered:
  assumes "emits e1 bs data e2" and "e1 = e\<lparr>xe_cache := c\<rparr>" and "\<not> xe_stream e"
    and "cache_lookup (xe_cache e) \<subseteq>\<^sub>m cache_lookup c"
  shows "emits e bs data e2"
  using assms by (auto simp: emits_def Let_def intro: map_le_trans)

lemma emits_backref:
  assumes wf: "encoder_wf e" and U: "cache_lookup (xe_cache e) hash = Some seg"
    and p: "window_present hash (xe_window e) = Some (Some b)"
  shows "emits e [XCODEC_MAGIC, XCODEC_OP_BACKREF, b] seg e"
proof -
  have "window_dereference (unat b) (xe_window e) = Some (xw_segments (xe_window e) hash)"
    and "xw_segments (xe_window e) hash \<noteq> None"
    using window_present_dereference p wf unfolding encoder_wf_def by blast+
  moreover have "xw_segments (xe_window e) hash = Some s \<Longrightarrow> s = seg" for s
    using wf U map_leD unfolding encoder_wf_def by fastforce
  ultimately have "window_dereference (unat b) (xe_window e) = Some (Some seg)" by force
  then show ?thesis using wf by (simp add: emits_def xstream_backref1)
qed

lemma escape_prefix:
  assumes "k \<le> length input"
  shows "(if k \<noteq> 0 then encode_escape out input k else Some (out, input)) =
     Some (out @ escape_bytes (take k input), drop k input)"
  using assms by (cases "k = 0") (simp_all add: buf_simps)

lemma encode_reference_miss:
  assumes "k + XCODEC_SEGMENT_LENGTH \<le> length input"
    and "oseg \<noteq> take XCODEC_SEGMENT_LENGTH (drop k input)"
  shows "encode_reference out input k hash oseg e = Some (False, out, input, e)"
  using assms by (simp add: encode_reference_def buf_simps)

lemma encode_reference_hit:
  assumes wf: "encoder_wf e" and len: "k + XCODEC_SEGMENT_LENGTH \<le> length input"
    and seg: "oseg = take XCODEC_SEGMENT_LENGTH (drop k input)"
    and U: "cache_lookup (xe_cache e) hash = Some oseg"
  shows "\<exists>bs e'. encode_reference out input k hash oseg e =
             Some (True, out @ bs, drop (k + XCODEC_SEGMENT_LENGTH) input, e') \<and>
           emits e bs (take (k + XCODEC_SEGMENT_LENGTH) input) e' \<and> xe_cache e' = xe_cache e"
proof -
  let ?pre = "escape_bytes (take k input)"
  have esc: "emits e ?pre (take k input) e" by (rule emits_escape [OF wf])
  have kl: "k \<le> length input" using len by simp
  have copy: "buf_copyout input k XCODEC_SEGMENT_LENGTH = Some oseg"
    using len seg by (simp add: buf_simps)
  have skip: "buf_skip XCODEC_SEGMENT_LENGTH (drop k input) = Some (drop (k + XCODEC_SEGMENT_LENGTH) input)"
    using len by (simp add: buf_skip_def add.commute) (use XCODEC_SEGMENT_LENGTH_pos in linarith)
  have data: "take (k + XCODEC_SEGMENT_LENGTH) input = take k input @ oseg"
    using seg by (simp add: take_add)
  have present: "window_present hash (xe_window e) = Some (map_option of_nat (xw_present (xe_window e) hash))"
    using wf by (simp add: encoder_wf_def window_present_eq)
  show ?thesis
  proof (cases "xw_present (xe_window e) hash")
    case None
    have "emits e (?pre @ XCODEC_MAGIC # XCODEC_OP_REF # be64 hash) (take k input @ oseg)
        (e\<lparr>xe_window := declared hash oseg (xe_window e)\<rparr>)"
      using esc emits_ref [OF wf U] by (rule emits_trans)
    moreover have "window_declare hash oseg (xe_window e) = Some (declared hash oseg (xe_window e))"
      using wf by (simp add: encoder_wf_def window_declare_eq)
    ultimately show ?thesis
      unfolding encode_reference_def escape_prefix [OF kl] data
      using None copy skip present be64.enc_neq_Nil by (simp add: buf_simps)
  next
    case (Some i)
    then have "emits e (?pre @ [XCODEC_MAGIC, XCODEC_OP_BACKREF, of_nat i]) (take k input @ oseg) e"
      using esc emits_backref [OF wf U] present by (auto intro: emits_trans)
    then show ?thesis
      unfolding encode_reference_def escape_prefix [OF kl] data
      using Some copy skip present by (simp add: buf_simps)
  qed
qed

lemma encode_declaration_ok:
  assumes wf: "encoder_wf e" and len: "k + XCODEC_SEGMENT_LENGTH \<le> length input"
    and seg: "nseg = take XCODEC_SEGMENT_LENGTH (drop k input)" and hash: "hash = segment_hash nseg"
    and fresh: "cache_lookup (xe_cache e) hash = None"
  shows "\<exists>bs e'. encode_declaration out input k hash e =
             Some (nseg, out @ bs, drop (k + XCODEC_SEGMENT_LENGTH) input, e') \<and>
           emits e bs (take (k + XCODEC_SEGMENT_LENGTH) input) e' \<and>
           cache_lookup (xe_cache e') = (cache_lookup (xe_cache e))(hash \<mapsto> nseg)"
proof -
  let ?pre = "escape_bytes (take k input)" and ?L = XCODEC_SEGMENT_LENGTH
  have nlen: "length nseg = ?L" and kl: "k \<le> length input" and kL: "0 + ?L \<le> length (drop k input)"
    using len seg by auto
  have drop: "drop (0 + ?L) (drop k input) = drop (k + ?L) input" by (simp add: add.commute)
  obtain c where c: "cache_enter hash nseg (xe_cache e) = Some c"
      "cache_lookup c = (cache_lookup (xe_cache e))(hash \<mapsto> nseg)" "remembers c"
    using cache.enter_ex [of "xe_cache e" nseg hash] wf nlen fresh by (auto simp: encoder_wf_def)
  define e1 where "e1 = e\<lparr>xe_cache := c\<rparr>"
  have grow: "cache_lookup (xe_cache e) \<subseteq>\<^sub>m cache_lookup c"
    using c(2) fresh by (simp add: map_le_upd_None)
  have wf1: "encoder_wf e1"
    using wf c grow nlen hash unfolding encoder_wf_def e1_def
    by (auto simp: hashed_upd intro: map_le_trans)
  have pre: "emits e ?pre (take k input) e" by (rule emits_escape [OF wf])
  have copy: "buf_copyout_segment (drop k input) ?L = Some nseg"
    using len seg XCODEC_SEGMENT_fits by (simp add: buf_simps)
  have data: "take (k + ?L) input = take k input @ nseg" using seg by (simp add: take_add)
  have U: "cache_lookup (xe_cache e1) hash = Some nseg" using c by (simp add: e1_def)
  show ?thesis
  proof (cases "xe_stream e")
    case False
    obtain bs e2 where r: "encode_reference (out @ ?pre) (drop k input) 0 hash nseg e1 =
          Some (True, (out @ ?pre) @ bs, drop (0 + ?L) (drop k input), e2)"
        and em: "emits e1 bs (take (0 + ?L) (drop k input)) e2" and ce: "xe_cache e2 = xe_cache e1"
      using encode_reference_hit [OF wf1 kL _ U, of "out @ ?pre"] seg by auto
    have "emits e bs nseg e2"
      using emits_entered [OF em e1_def False] grow seg by (simp add: e1_def)
    then have "emits e (?pre @ bs) (take k input @ nseg) e2" by (rule emits_trans [OF pre])
    then show ?thesis
      unfolding encode_declaration_def escape_prefix [OF kl] data
      using False c(1) copy r c(2) ce unfolding drop by (simp add: e1_def)
  next
    case True
    define e2 where "e2 = e1\<lparr>xe_window := declared hash nseg (xe_window e1)\<rparr>"
    have "emits e (XCODEC_MAGIC # XCODEC_OP_EXTRACT # nseg) nseg e2"
      unfolding e2_def hash using c(2) fresh nlen hash by (intro emits_extract [OF wf1 e1_def]) auto
    then have em: "emits e (?pre @ XCODEC_MAGIC # XCODEC_OP_EXTRACT # nseg) (take k input @ nseg) e2"
      by (rule emits_trans [OF pre])
    have "window_declare hash nseg (xe_window e) = Some (declared hash nseg (xe_window e))"
      using wf by (simp add: encoder_wf_def window_declare_eq)
    moreover have "nseg \<noteq> []" "drop k input \<noteq> []"
      using nlen len by (auto simp: XCODEC_SEGMENT_LENGTH_def)
    ultimately show ?thesis
      unfolding encode_declaration_def escape_prefix [OF kl] data
      using True c(1,2) copy em drop by (simp add: buf_simps e1_def e2_def)
  qed
qed

subsection \<open>The invariant of the scan\<close>

text \<open>\<open>scan_inv e0 out0 rest data st\<close>: the encoder started as \<open>e0\<close> with output \<open>out0\<close>, has
  scanned \<open>data\<close> and has \<open>rest\<close> of the current segment ahead.  What it wrote stands for a
  prefix of \<open>data\<close>; \<^verbatim>\<open>outq\<close> holds the remaining \<^verbatim>\<open>o\<close> scanned bytes and \<open>rest\<close>; the rolling
  hash covers the last bytes scanned; a candidate names a segment of \<^verbatim>\<open>outq\<close> that the
  dictionary does not have.\<close>

definition candidate_ok :: "bytes \<Rightarrow> xcodec_encoder \<Rightarrow> candidate_symbol \<Rightarrow> bool" where
  "candidate_ok scanned e cand \<longleftrightarrow>
     (cs_set cand \<longrightarrow>
        cs_offset cand + XCODEC_SEGMENT_LENGTH \<le> length scanned \<and>
        cs_symbol cand = segment_hash (take XCODEC_SEGMENT_LENGTH (drop (cs_offset cand) scanned)) \<and>
        cache_lookup (xe_cache e) (cs_symbol cand) = None)"

definition scan_inv ::
  "xcodec_encoder \<Rightarrow> bytes \<Rightarrow> bytes \<Rightarrow> bytes \<Rightarrow> encode_state \<Rightarrow> bool" where
  "scan_inv e0 out0 rest data st \<longleftrightarrow>
     (\<exists>bs plain scanned.
        es_output st = out0 @ bs \<and> emits e0 bs plain (es_enc st) \<and>
        es_outq st = scanned @ rest \<and> data = plain @ scanned \<and> length scanned = es_o st \<and>
        hash_inv (drop (es_o st - XCODEC_SEGMENT_LENGTH) scanned) (es_hash st) \<and>
        candidate_ok scanned (es_enc st) (es_cand st))"

lemma scan_invI:
  assumes "es_output st = out0 @ bs" "emits e0 bs plain (es_enc st)" "es_outq st = scanned @ rest"
    "data = plain @ scanned" "length scanned = es_o st"
    "hash_inv (drop (es_o st - XCODEC_SEGMENT_LENGTH) scanned) (es_hash st)"
    "candidate_ok scanned (es_enc st) (es_cand st)"
  shows "scan_inv e0 out0 rest data st"
  unfolding scan_inv_def using assms by blast

lemma candidate_ok_unset [simp]: "\<not> cs_set cand \<Longrightarrow> candidate_ok scanned e cand"
  by (simp add: candidate_ok_def)

lemma candidate_ok_append:
  "candidate_ok scanned e cand \<Longrightarrow> candidate_ok (scanned @ xs) e cand"
  by (auto simp: candidate_ok_def)

text \<open>The bytes under the rolling hash, as a function of the data scanned.\<close>

abbreviation last_segment :: "bytes \<Rightarrow> bytes" where
  "last_segment data \<equiv> drop (length data - XCODEC_SEGMENT_LENGTH) data"

lemma last_segment_append:
  "XCODEC_SEGMENT_LENGTH \<le> length scanned \<Longrightarrow> last_segment (plain @ scanned) = last_segment scanned"
  by simp

text \<open>Referencing the segment under the rolling hash: either nothing changes, or all the
  scanned data is accounted for.\<close>

lemma scan_reference:
  assumes inv: "scan_inv e0 out0 rest data st" and o: "XCODEC_SEGMENT_LENGTH \<le> es_o st"
    and U: "cache_lookup (xe_cache (es_enc st)) hash = Some oseg"
  obtains (miss) "encode_reference (es_output st) (es_outq st) (es_o st - XCODEC_SEGMENT_LENGTH) hash oseg (es_enc st) =
      Some (False, es_output st, es_outq st, es_enc st)"
  | (hit) out e where
      "encode_reference (es_output st) (es_outq st) (es_o st - XCODEC_SEGMENT_LENGTH) hash oseg (es_enc st) =
         Some (True, out, rest, e)"
      "\<And>st'. es_output st' = out \<Longrightarrow> es_outq st' = rest \<Longrightarrow> es_enc st' = e \<Longrightarrow> es_o st' = 0 \<Longrightarrow>
         es_hash st' = hash_reset (es_hash st) \<Longrightarrow> \<not> cs_set (es_cand st') \<Longrightarrow>
         scan_inv e0 out0 rest data st'"
proof -
  let ?L = XCODEC_SEGMENT_LENGTH
  obtain bs plain scanned where i: "es_output st = out0 @ bs" "emits e0 bs plain (es_enc st)"
      "es_outq st = scanned @ rest" "data = plain @ scanned" "length scanned = es_o st"
      "hash_inv (drop (es_o st - ?L) scanned) (es_hash st)"
    using inv unfolding scan_inv_def by blast
  have fits: "es_o st - ?L + ?L \<le> length (es_outq st)" and upto: "es_o st - ?L + ?L = length scanned"
    using i(3,5) o by simp_all
  show ?thesis
  proof (cases "oseg = take ?L (drop (es_o st - ?L) (es_outq st))")
    case False
    then show ?thesis using miss encode_reference_miss [OF fits] by blast
  next
    case True
    obtain bs1 e1 where r: "encode_reference (es_output st) (es_outq st) (es_o st - ?L) hash oseg (es_enc st) =
          Some (True, out0 @ bs @ bs1, rest, e1)" and em: "emits (es_enc st) bs1 scanned e1"
      using encode_reference_hit [OF emits_wf [OF i(2)] fits True U, of "es_output st"] i(1,3)
      unfolding upto by auto
    have "emits e0 (bs @ bs1) data e1" using emits_trans [OF i(2) em] i(4) by simp
    then show ?thesis
      using hash_inv_reset [OF i(6)]
      by (intro hit [OF r]) (rule scan_invI [where bs = "bs @ bs1" and scanned = "[]"], simp_all)
  qed
qed

text \<open>Declaring the candidate: the data up to the end of its segment is accounted for.\<close>

lemma scan_declaration:
  assumes inv: "scan_inv e0 out0 rest data st" and set: "cs_set (es_cand st)"
    and n: "n = cs_offset (es_cand st) + XCODEC_SEGMENT_LENGTH"
  obtains bs plain left e nseg where
    "encode_declaration (es_output st) (es_outq st) (cs_offset (es_cand st)) (cs_symbol (es_cand st)) (es_enc st) =
       Some (nseg, out0 @ bs, left @ rest, e)"
    "cache_lookup (xe_cache e) (cs_symbol (es_cand st)) = Some nseg"
    "emits e0 bs plain e" "data = plain @ left" "length left = es_o st - n" "n \<le> es_o st"
    "XCODEC_SEGMENT_LENGTH \<le> length left \<longrightarrow> hash_inv (last_segment left) (es_hash st)"
proof -
  let ?L = XCODEC_SEGMENT_LENGTH and ?cand = "es_cand st" and ?k = "cs_offset (es_cand st)"
  obtain bs plain scanned where i: "es_output st = out0 @ bs" "emits e0 bs plain (es_enc st)"
      "es_outq st = scanned @ rest" "data = plain @ scanned" "length scanned = es_o st"
      "hash_inv (drop (es_o st - ?L) scanned) (es_hash st)" "candidate_ok scanned (es_enc st) ?cand"
    using inv unfolding scan_inv_def by blast
  define nseg where "nseg = take ?L (drop ?k scanned)"
  have k: "n \<le> length scanned" and sym: "cs_symbol ?cand = segment_hash nseg"
    and fresh: "cache_lookup (xe_cache (es_enc st)) (cs_symbol ?cand) = None"
    using i(7) set by (auto simp: candidate_ok_def nseg_def n)
  have nseg: "nseg = take ?L (drop ?k (es_outq st))"
    using k i(3) by (simp add: nseg_def n)
  have fits: "?k + ?L \<le> length (es_outq st)" using k i(3) by (simp add: n)
  obtain bs1 e1 where d: "encode_declaration (es_output st) (es_outq st) ?k (cs_symbol ?cand) (es_enc st) =
        Some (nseg, out0 @ bs @ bs1, drop n scanned @ rest, e1)"
      and em1: "emits (es_enc st) bs1 (take n scanned) e1"
      and c1: "cache_lookup (xe_cache e1) (cs_symbol ?cand) = Some nseg"
    using encode_declaration_ok [OF emits_wf [OF i(2)] fits nseg sym fresh, of "es_output st"] k
    unfolding n [symmetric] i(1,3) by auto
  have "data = (plain @ take n scanned) @ drop n scanned" by (simp add: i(4))
  moreover have "length (drop n scanned) = es_o st - n" "n \<le> es_o st" using i(5) k by simp_all
  moreover have "hash_inv (last_segment (drop n scanned)) (es_hash st)"
    if "?L \<le> length (drop n scanned)"
  proof -
    have "length (drop n scanned) - ?L + n = es_o st - ?L" using that i(5) k by simp
    then show ?thesis using i(6) by simp
  qed
  ultimately show ?thesis
    using that [OF d c1 emits_trans [OF i(2) em1]] by blast
qed

lemma encode_pending_idle:
  assumes "\<not> (cs_set (es_cand st) \<and>
    cs_offset (es_cand st) + XCODEC_SEGMENT_LENGTH \<le> es_o st - XCODEC_SEGMENT_LENGTH)"
  shows "encode_pending hash st = Some (False, st)"
  unfolding encode_pending_def Let_def if_not_P [OF assms] by (rule refl)

lemma encode_pending_declare:
  assumes "cs_set (es_cand st) \<and>
      cs_offset (es_cand st) + XCODEC_SEGMENT_LENGTH \<le> es_o st - XCODEC_SEGMENT_LENGTH"
    and "encode_declaration (es_output st) (es_outq st) (cs_offset (es_cand st)) (cs_symbol (es_cand st)) (es_enc st) =
      Some (nseg, out, outq, e)"
    and "st1 = st\<lparr>es_output := out, es_outq := outq, es_enc := e,
      es_o := es_o st - (cs_offset (es_cand st) + XCODEC_SEGMENT_LENGTH),
      es_cand := (es_cand st)\<lparr>cs_set := False\<rparr>\<rparr>"
  shows "encode_pending hash st =
      (if hash = cs_symbol (es_cand st) then do {
         (ok, output, outq, e) \<leftarrow> encode_reference (es_output st1) (es_outq st1)
            (es_o st1 - XCODEC_SEGMENT_LENGTH) hash nseg (es_enc st1);
         (if \<not> ok then Some (True, st1)
          else Some (True, st1\<lparr>es_output := output, es_outq := outq, es_enc := e,
                               es_o := 0, es_hash := hash_reset (es_hash st1)\<rparr>)) }
       else Some (False, st1))"
  unfolding encode_pending_def Let_def if_P [OF assms(1)] assms(2,3) bind.bind_lunit prod.case
  by (rule refl)

lemma encode_pending_inv:
  assumes inv: "scan_inv e0 out0 rest data st" and o: "XCODEC_SEGMENT_LENGTH \<le> es_o st"
  obtains cont st' where "encode_pending hash st = Some (cont, st')" "scan_inv e0 out0 rest data st'"
    "\<not> cont \<Longrightarrow> XCODEC_SEGMENT_LENGTH \<le> es_o st'"
    "\<not> cont \<Longrightarrow> cs_set (es_cand st') \<Longrightarrow>
       es_o st' - XCODEC_SEGMENT_LENGTH < cs_offset (es_cand st') + XCODEC_SEGMENT_LENGTH"
proof (cases "cs_set (es_cand st) \<and>
    cs_offset (es_cand st) + XCODEC_SEGMENT_LENGTH \<le> es_o st - XCODEC_SEGMENT_LENGTH")
  case False
  show ?thesis by (rule that [OF encode_pending_idle [OF False] inv o]) (meson False not_le)
next
  case True
  let ?L = XCODEC_SEGMENT_LENGTH and ?cand = "es_cand st"
  define n where "n = cs_offset ?cand + ?L"
  obtain bs plain left e1 nseg where
      d: "encode_declaration (es_output st) (es_outq st) (cs_offset ?cand) (cs_symbol ?cand) (es_enc st) =
        Some (nseg, out0 @ bs, left @ rest, e1)"
      and c1: "cache_lookup (xe_cache e1) (cs_symbol ?cand) = Some nseg"
      and em: "emits e0 bs plain e1" "data = plain @ left" "length left = es_o st - n" "n \<le> es_o st"
      and h: "?L \<le> length left \<longrightarrow> hash_inv (last_segment left) (es_hash st)"
    by (rule scan_declaration [OF inv conjunct1 [OF True] n_def])
  define st1 where "st1 = st\<lparr>es_output := out0 @ bs, es_outq := left @ rest, es_enc := e1,
      es_o := es_o st - (cs_offset ?cand + ?L), es_cand := ?cand\<lparr>cs_set := False\<rparr>\<rparr>"
  have o1: "?L \<le> es_o st1" "length left = es_o st1" "\<not> cs_set (es_cand st1)"
    using True o em(3) by (simp_all add: st1_def n_def) linarith
  then have inv1: "scan_inv e0 out0 rest data st1"
    using em(1,2) h by (intro scan_invI [where scanned = left]) (simp_all add: st1_def)
  note step = encode_pending_declare [OF True d st1_def]
  show ?thesis
  proof (cases "hash = cs_symbol ?cand")
    case False
    then have "encode_pending hash st = Some (False, st1)" using step by simp
    then show ?thesis by (rule that) (use inv1 o1 in simp_all)
  next
    case same: True
    then have U: "cache_lookup (xe_cache (es_enc st1)) hash = Some nseg" using c1 by (simp add: st1_def)
    show ?thesis
    proof (rule scan_reference [OF inv1 o1(1) U])
      assume "encode_reference (es_output st1) (es_outq st1) (es_o st1 - ?L) hash nseg (es_enc st1) =
        Some (False, es_output st1, es_outq st1, es_enc st1)"
      then have "encode_pending hash st = Some (True, st1)" using step same by simp
      then show ?thesis by (rule that) (use inv1 in simp_all)
    next
      fix out e
      assume "encode_reference (es_output st1) (es_outq st1) (es_o st1 - ?L) hash nseg (es_enc st1) =
          Some (True, out, rest, e)"
        and inv2: "\<And>st'. es_output st' = out \<Longrightarrow> es_outq st' = rest \<Longrightarrow> es_enc st' = e \<Longrightarrow>
          es_o st' = 0 \<Longrightarrow> es_hash st' = hash_reset (es_hash st1) \<Longrightarrow> \<not> cs_set (es_cand st') \<Longrightarrow>
          scan_inv e0 out0 rest data st'"
      then have "encode_pending hash st = Some (True, st1\<lparr>es_output := out, es_outq := rest, es_enc := e,
          es_o := 0, es_hash := hash_reset (es_hash st1)\<rparr>)"
        using step same by simp
      then show ?thesis by (rule that) (rule inv2, simp_all add: st1_def)
    qed
  qed
qed

lemma encode_lookup_inv:
  assumes inv: "scan_inv e0 out0 rest data st" and o: "XCODEC_SEGMENT_LENGTH \<le> es_o st"
    and hash: "hash = segment_hash (last_segment data)"
    and near: "cs_set (es_cand st) \<Longrightarrow>
       es_o st - XCODEC_SEGMENT_LENGTH < cs_offset (es_cand st) + XCODEC_SEGMENT_LENGTH"
  obtains st' where "encode_lookup hash st = Some st'" "scan_inv e0 out0 rest data st'"
proof (cases "cache_lookup (xe_cache (es_enc st)) hash")
  case None
  show ?thesis
  proof (cases "cs_set (es_cand st)")
    case True
    then have "encode_lookup hash st = Some st" using None near by (simp add: encode_lookup_def)
    then show ?thesis using inv by (rule that)
  next
    case False
    let ?st = "st\<lparr>es_cand := \<lparr>cs_set = True, cs_offset = es_o st - XCODEC_SEGMENT_LENGTH, cs_symbol = hash\<rparr>\<rparr>"
    obtain bs plain scanned where i: "es_output st = out0 @ bs" "emits e0 bs plain (es_enc st)"
        "es_outq st = scanned @ rest" "data = plain @ scanned" "length scanned = es_o st"
        "hash_inv (drop (es_o st - XCODEC_SEGMENT_LENGTH) scanned) (es_hash st)"
      using inv unfolding scan_inv_def by blast
    have "hash = segment_hash (take XCODEC_SEGMENT_LENGTH (drop (es_o st - XCODEC_SEGMENT_LENGTH) scanned))"
      using hash i(4,5) o by simp
    then have "scan_inv e0 out0 rest data ?st"
      using i None o by (intro scan_invI [where scanned = scanned and bs = bs]) (simp_all add: candidate_ok_def)
    moreover have "encode_lookup hash st = Some ?st" using None False by (simp add: encode_lookup_def)
    ultimately show ?thesis using that by blast
  qed
next
  case (Some oseg)
  show ?thesis
  proof (rule scan_reference [OF inv o Some])
    assume "encode_reference (es_output st) (es_outq st) (es_o st - XCODEC_SEGMENT_LENGTH) hash oseg (es_enc st) =
      Some (False, es_output st, es_outq st, es_enc st)"
    then have "encode_lookup hash st = Some st" using Some by (simp add: encode_lookup_def)
    then show ?thesis using inv by (rule that)
  next
    fix out e
    assume "encode_reference (es_output st) (es_outq st) (es_o st - XCODEC_SEGMENT_LENGTH) hash oseg (es_enc st) =
        Some (True, out, rest, e)"
      and inv2: "\<And>st'. es_output st' = out \<Longrightarrow> es_outq st' = rest \<Longrightarrow> es_enc st' = e \<Longrightarrow>
        es_o st' = 0 \<Longrightarrow> es_hash st' = hash_reset (es_hash st) \<Longrightarrow> \<not> cs_set (es_cand st') \<Longrightarrow>
        scan_inv e0 out0 rest data st'"
    then have "encode_lookup hash st = Some (st\<lparr>es_output := out, es_outq := rest, es_enc := e,
        es_o := 0, es_hash := hash_reset (es_hash st), es_cand := (es_cand st)\<lparr>cs_set := False\<rparr>\<rparr>)"
      using Some by (simp add: encode_lookup_def)
    then show ?thesis by (rule that) (rule inv2, simp_all)
  qed
qed

lemma encode_position_inv:
  assumes inv: "scan_inv e0 out0 rest data st" and o: "XCODEC_SEGMENT_LENGTH \<le> es_o st"
  obtains st' where "encode_position st = Some st'" "scan_inv e0 out0 rest data st'"
proof -
  define hash where "hash = segment_hash (last_segment data)"
  have mix: "hash_mix (es_hash st) = Some hash"
    using inv o by (auto simp: scan_inv_def hash_def intro!: hash_mix_inv)
  show ?thesis
  proof (rule encode_pending_inv [OF inv o, of hash])
    fix cont st1
    assume p: "encode_pending hash st = Some (cont, st1)" "scan_inv e0 out0 rest data st1"
      "\<not> cont \<Longrightarrow> XCODEC_SEGMENT_LENGTH \<le> es_o st1"
      "\<not> cont \<Longrightarrow> cs_set (es_cand st1) \<Longrightarrow>
        es_o st1 - XCODEC_SEGMENT_LENGTH < cs_offset (es_cand st1) + XCODEC_SEGMENT_LENGTH"
    show thesis
    proof (cases cont)
      case True
      then have "encode_position st = Some st1" using mix p(1) o by (simp add: encode_position_def)
      then show ?thesis using p(2) by (rule that)
    next
      case False
      obtain st2 where l: "encode_lookup hash st1 = Some st2" "scan_inv e0 out0 rest data st2"
        by (rule encode_lookup_inv [OF p(2) p(3) [OF False] hash_def p(4) [OF False]])
      then have "encode_position st = Some st2" using mix p(1) o False by (simp add: encode_position_def)
      then show ?thesis using l(2) by (rule that)
    qed
  qed
qed

text \<open>Feeding bytes to the hash.\<close>

lemma scan_add_all:
  assumes inv: "scan_inv e0 out0 (xs @ rest) data st" and len: "es_o st + length xs \<le> XCODEC_SEGMENT_LENGTH"
  obtains h where "hash_add_all xs (es_hash st) = Some h"
    "scan_inv e0 out0 rest (data @ xs) (st\<lparr>es_o := es_o st + length xs, es_hash := h\<rparr>)"
proof -
  obtain bs plain scanned where i: "es_output st = out0 @ bs" "emits e0 bs plain (es_enc st)"
      "es_outq st = scanned @ xs @ rest" "data = plain @ scanned" "length scanned = es_o st"
      "hash_inv (drop (es_o st - XCODEC_SEGMENT_LENGTH) scanned) (es_hash st)"
      "candidate_ok scanned (es_enc st) (es_cand st)"
    using inv unfolding scan_inv_def by blast
  have "hash_inv scanned (es_hash st)" using i(6) len by simp
  then obtain h where h: "hash_add_all xs (es_hash st) = Some h" "hash_inv (scanned @ xs) h"
    using hash_add_all_inv i(5) len by metis
  have "scan_inv e0 out0 rest (data @ xs) (st\<lparr>es_o := es_o st + length xs, es_hash := h\<rparr>)"
    by (rule scan_invI [where scanned = "scanned @ xs" and bs = bs and plain = plain])
      (use i h len in \<open>simp_all add: candidate_ok_append\<close>)
  with h(1) show ?thesis by (rule that)
qed

lemma scan_roll:
  assumes inv: "scan_inv e0 out0 (x # rest) data st" and o: "XCODEC_SEGMENT_LENGTH \<le> es_o st"
  obtains h where "hash_roll x (es_hash st) = Some h"
    "scan_inv e0 out0 rest (data @ [x]) (st\<lparr>es_o := es_o st + 1, es_hash := h\<rparr>)"
proof -
  let ?L = XCODEC_SEGMENT_LENGTH
  obtain bs plain scanned where i: "es_output st = out0 @ bs" "emits e0 bs plain (es_enc st)"
      "es_outq st = scanned @ x # rest" "data = plain @ scanned" "length scanned = es_o st"
      "hash_inv (drop (es_o st - ?L) scanned) (es_hash st)"
      "candidate_ok scanned (es_enc st) (es_cand st)"
    using inv unfolding scan_inv_def by blast
  have lt: "es_o st - ?L < length scanned" using o i(5) XCODEC_SEGMENT_LENGTH_pos by linarith
  define old where "old = drop (Suc (es_o st - ?L)) scanned"
  have split: "drop (es_o st - ?L) scanned = scanned ! (es_o st - ?L) # old"
    unfolding old_def by (rule drop_eq_Cons_conv_nth [OF lt])
  have len: "Suc (length old) = ?L" using lt o i(5) by (simp add: old_def)
  obtain h where h: "hash_roll x (es_hash st) = Some h" "hash_inv (old @ [x]) h"
    using hash_roll_inv [OF i(6) [unfolded split] len] by blast
  have "es_o st + 1 - ?L = Suc (es_o st - ?L)" "Suc (es_o st - ?L) \<le> length scanned" using o lt by simp_all
  then have "drop (es_o st + 1 - ?L) (scanned @ [x]) = old @ [x]" by (simp add: old_def)
  then have "scan_inv e0 out0 rest (data @ [x]) (st\<lparr>es_o := es_o st + 1, es_hash := h\<rparr>)"
    by (intro scan_invI [where scanned = "scanned @ [x]" and bs = bs and plain = plain])
      (use i h in \<open>simp_all add: candidate_ok_append\<close>)
  with h(1) show ?thesis by (rule that)
qed

lemma encode_bytes_inv:
  assumes "scan_inv e0 out0 rest data st"
  shows "\<exists>st'. encode_bytes rest st = Some st' \<and> scan_inv e0 out0 [] (data @ rest) st'"
  using assms
proof (induction "length rest" arbitrary: rest data st rule: less_induct)
  case less
  let ?L = XCODEC_SEGMENT_LENGTH
  consider "rest = []" | "rest \<noteq> []" "es_o st + length rest < ?L"
    | "es_o st + length rest \<ge> ?L" "es_o st < ?L" | x xs where "rest = x # xs" "es_o st \<ge> ?L"
    by (meson leI neq_Nil_conv)
  then show ?case
  proof cases
    case 1
    then show ?thesis using less.prems by (simp add: encode_bytes.simps)
  next
    case 2
    obtain h where "hash_add_all rest (es_hash st) = Some h"
      "scan_inv e0 out0 [] (data @ rest) (st\<lparr>es_o := es_o st + length rest, es_hash := h\<rparr>)"
      using scan_add_all [of e0 out0 rest "[]" data st] less.prems 2 by auto
    then show ?thesis using 2 by (simp add: encode_bytes.simps)
  next
    case 3
    define xs ys where "xs = take (?L - es_o st) rest" and "ys = drop (?L - es_o st) rest"
    have xs: "length xs = ?L - es_o st" and r: "rest = xs @ ys" using 3 by (simp_all add: xs_def ys_def)
    obtain h where h: "hash_add_all xs (es_hash st) = Some h"
      "scan_inv e0 out0 ys (data @ xs) (st\<lparr>es_o := ?L, es_hash := h\<rparr>)"
      using scan_add_all [of e0 out0 xs ys data st] less.prems xs 3(2) r by auto
    obtain st1 where p: "encode_position (st\<lparr>es_o := ?L, es_hash := h\<rparr>) = Some st1"
      "scan_inv e0 out0 ys (data @ xs) st1"
      by (rule encode_position_inv [OF h(2)]) simp_all
    have "length ys < length rest" "rest \<noteq> []" using xs 3(2) r by auto
    then have "encode_bytes rest st = encode_bytes ys st1"
      using h(1) p(1) 3 by (subst encode_bytes.simps) (simp flip: xs_def ys_def)
    with less.hyps [OF \<open>length ys < length rest\<close> p(2)] show ?thesis using r by simp
  next
    case 4
    obtain h where h: "hash_roll x (es_hash st) = Some h"
      "scan_inv e0 out0 xs (data @ [x]) (st\<lparr>es_o := es_o st + 1, es_hash := h\<rparr>)"
      using scan_roll less.prems 4 by metis
    obtain st1 where p: "encode_position (st\<lparr>es_o := es_o st + 1, es_hash := h\<rparr>) = Some st1"
      "scan_inv e0 out0 xs (data @ [x]) st1"
      by (rule encode_position_inv [OF h(2)]) (use 4 in simp)
    with less.hyps [OF _ p(2)] h(1) 4 show ?thesis by (subst encode_bytes.simps) simp
  qed
qed

lemma scan_inv_append:
  "scan_inv e0 out0 [] data st \<Longrightarrow> scan_inv e0 out0 rest data (st\<lparr>es_outq := es_outq st @ rest\<rparr>)"
  unfolding scan_inv_def by auto

lemma encode_segments_inv:
  assumes "scan_inv e0 out0 [] data st" and "\<forall>seg\<in>set input. seg \<noteq> []"
  shows "\<exists>st' scanned rest. encode_segments input st = Some st' \<and>
    scan_inv e0 out0 rest scanned st' \<and> scanned @ rest = data @ concat input"
  using assms
proof (induction input arbitrary: data st)
  case Nil
  then show ?case by auto
next
  case (Cons seg input)
  show ?case
  proof (cases "es_o st + length (concat (seg # input)) < XCODEC_SEGMENT_LENGTH")
    case True
    then have "encode_segments (seg # input) st = Some (st\<lparr>es_outq := es_outq st @ concat (seg # input)\<rparr>)"
      by simp
    then show ?thesis using scan_inv_append [OF Cons.prems(1)] by blast
  next
    case False
    obtain st1 where b: "encode_bytes seg (st\<lparr>es_outq := es_outq st @ seg\<rparr>) = Some st1"
      "scan_inv e0 out0 [] (data @ seg) st1"
      using encode_bytes_inv [OF scan_inv_append [OF Cons.prems(1)]] by blast
    have "buf_append_segment (es_outq st) seg = Some (es_outq st @ seg)"
      using Cons.prems(2) by (simp add: buf_append_segment_def)
    with Cons.IH [OF b(2)] Cons.prems(2) b(1) False show ?thesis by auto
  qed
qed

lemma scan_inv_init:
  "encoder_wf e \<Longrightarrow> scan_inv e out0 [] [] (encode_init out0 e)"
  by (rule scan_invI [where bs = "[]" and plain = "[]" and scanned = "[]"])
    (simp_all add: encode_init_def emits_def xs_end hash_inv_new candidate_ok_unset)

lemma encode_finish_ok:
  assumes inv: "scan_inv e0 out0 rest scanned st"
  shows "\<exists>bs e'. encode_finish st = Some (out0 @ bs, e') \<and> emits e0 bs (scanned @ rest) e'"
proof -
  let ?L = XCODEC_SEGMENT_LENGTH
  obtain bs plain q where i: "es_output st = out0 @ bs" "emits e0 bs plain (es_enc st)"
      "es_outq st = q @ rest" "scanned = plain @ q" "candidate_ok q (es_enc st) (es_cand st)"
    using inv unfolding scan_inv_def by blast
  have flush: "\<exists>bs'. (if outq \<noteq> [] then encode_escape (out0 @ bs) outq (length outq) else Some (out0 @ bs, outq)) =
      Some (out0 @ bs', []) \<and> emits e0 bs' (plain @ outq) e" if "emits e0 bs plain e" for outq bs plain e
    using emits_trans [OF that emits_escape [OF emits_wf [OF that], of outq]] that
    by (cases "outq = []") (auto simp: buf_simps)
  show ?thesis
  proof (cases "cs_set (es_cand st)")
    case False
    then show ?thesis using flush [OF i(2), of "q @ rest"] i by (auto simp: encode_finish_def)
  next
    case True
    define k Q where "k = cs_offset (es_cand st)" and "Q = q @ rest"
    have c: "k + ?L \<le> length Q" "cs_symbol (es_cand st) = segment_hash (take ?L (drop k Q))"
        "cache_lookup (xe_cache (es_enc st)) (cs_symbol (es_cand st)) = None"
      using i(5) True by (auto simp: candidate_ok_def k_def Q_def)
    obtain bs1 e1 where d: "encode_declaration (out0 @ bs) Q k (cs_symbol (es_cand st)) (es_enc st) =
        Some (take ?L (drop k Q), (out0 @ bs) @ bs1, drop (k + ?L) Q, e1)"
        "emits (es_enc st) bs1 (take (k + ?L) Q) e1"
      using encode_declaration_ok [OF emits_wf [OF i(2)] c(1) refl c(2,3)] by blast
    have "Q \<noteq> []" using c(1) by (auto simp: XCODEC_SEGMENT_LENGTH_def)
    moreover have "es_outq st = Q" using i(3) by (simp add: Q_def)
    moreover have "scanned @ rest = (plain @ take (k + ?L) Q) @ drop (k + ?L) Q"
      using i(4) by (simp add: Q_def [symmetric])
    moreover obtain bs2 where "(if drop (k + ?L) Q \<noteq> []
          then encode_escape (out0 @ bs @ bs1) (drop (k + ?L) Q) (length (drop (k + ?L) Q))
          else Some (out0 @ bs @ bs1, drop (k + ?L) Q)) = Some (out0 @ bs2, [])"
        "emits e0 bs2 ((plain @ take (k + ?L) Q) @ drop (k + ?L) Q) e1"
      using flush [OF emits_trans [OF i(2) d(2)]] by blast
    ultimately show ?thesis
      using True d(1) i(1) by (simp add: encode_finish_def split del: if_split flip: k_def)
  qed
qed

text \<open>\<^verbatim>\<open>encode\<close> never fails an assertion, consumes its input and writes bytes that stand for
  it.\<close>

lemma encode_ok:
  assumes wf: "encoder_wf e" and segs: "\<forall>seg\<in>set input. seg \<noteq> []"
  obtains bs e' where "encode out0 input e = Some (out0 @ bs, e')" "emits e bs (concat input) e'"
proof -
  have "\<exists>bs e'. encode out0 input e = Some (out0 @ bs, e') \<and> emits e bs (concat input) e'"
  proof (cases "length (concat input) < XCODEC_SEGMENT_LENGTH")
    case True
    have "input \<noteq> [] \<Longrightarrow> concat input \<noteq> []" using segs by (cases input) auto
    then show ?thesis
      using True emits_escape [OF wf, of "concat input"]
      by (cases "input = []") (auto simp: encode_def buf_simps)
  next
    case False
    then have "input \<noteq> []" by auto
    obtain st scanned rest where "encode_segments input (encode_init out0 e) = Some st"
        "scan_inv e out0 rest scanned st" "scanned @ rest = concat input"
      using encode_segments_inv [OF scan_inv_init [OF wf, of out0] segs] by auto
    then show ?thesis using encode_finish_ok [of e out0 rest scanned st] False \<open>input \<noteq> []\<close>
      by (simp add: encode_def)
  qed
  then show ?thesis using that by blast
qed

end
