(* ===== verification/XCodec_Decoder.thy ===== *)
theory XCodec_Decoder
  imports XCodec_Stream
begin

text \<open>
  xcodec/xcodec_decoder.cc: the decoder.  \<open>decode_loop\<close> is the loop of
  \<^verbatim>\<open>XCodecDecoder::decode\<close> over a record of the buffers and objects it changes;
  \<open>decode_step\<close> is its body, one definition per case of the \<^verbatim>\<open>switch\<close>.  The second half
  gives a reference decoder that reads one token at a time and shows that the code is
  this decoder: no assertion fails, it may be fed in chunks, and it reads the streams of
  the theory XCodec_Stream.
\<close>

record xcodec_decoder =
  xd_cache :: xcodec_cache
  xd_window :: xcodec_window

definition decoder_new :: "xcodec_cache \<Rightarrow> xcodec_decoder" where
  "decoder_new cache = \<lparr>xd_cache = cache, xd_window = window_new\<rparr>"

record decode_state =
  ds_output :: bytes
  ds_input :: bytes
  ds_unknown :: "u64 set"
  ds_dec :: xcodec_decoder

text \<open>How the body of the loop ends: by going round again, or by returning a value
  (\<^verbatim>\<open>break\<close> out of the loop and \<^verbatim>\<open>goto done\<close> return true).\<close>

datatype loop_exit = Continue | Return bool

section \<open>The cases of the switch\<close>

definition decode_escape :: "decode_state \<Rightarrow> (loop_exit \<times> decode_state) option" where
  "decode_escape st = do {
     out \<leftarrow> buf_append_bytes (ds_output st) [XCODEC_MAGIC];
     inp \<leftarrow> buf_skip 2 (ds_input st);
     Some (Continue, st\<lparr>ds_output := out, ds_input := inp\<rparr>) }"

text \<open>Looking up or entering the segment; the inner \<open>None\<close> is a collision.\<close>

definition decode_enter :: "u64 \<Rightarrow> bytes \<Rightarrow> xcodec_cache \<Rightarrow> xcodec_cache option option" where
  "decode_enter hash seg c =
     (case cache_lookup c hash of
        Some oseg \<Rightarrow> Some (if oseg = seg then Some c else None)
      | None \<Rightarrow> do { c \<leftarrow> cache_enter hash seg c; Some (Some c) })"

definition decode_extract :: "decode_state \<Rightarrow> (loop_exit \<times> decode_state) option" where
  "decode_extract st =
     (if length (ds_input st) < 2 + XCODEC_SEGMENT_LENGTH then Some (Return True, st)
      else do {
        inp \<leftarrow> buf_skip 2 (ds_input st);
        seg \<leftarrow> buf_copyout_segment inp XCODEC_SEGMENT_LENGTH;
        inp \<leftarrow> buf_skip XCODEC_SEGMENT_LENGTH inp;
        hash \<leftarrow> hash_data seg;
        let st = st\<lparr>ds_input := inp\<rparr>;
        let d = ds_dec st;
        entered \<leftarrow> decode_enter hash seg (xd_cache d);
        (case entered of
           None \<Rightarrow> Some (Return False, st)
         | Some c \<Rightarrow> do {
             w \<leftarrow> window_declare hash seg (xd_window d);
             out \<leftarrow> buf_append_segment (ds_output st) seg;
             Some (Continue, st\<lparr>ds_output := out, ds_dec := \<lparr>xd_cache = c, xd_window = w\<rparr>\<rparr>) }) })"

definition decode_ref :: "decode_state \<Rightarrow> (loop_exit \<times> decode_state) option" where
  "decode_ref st =
     (if length (ds_input st) < 2 + 8 then Some (Return True, st)
      else do {
        behash \<leftarrow> buf_copyout (ds_input st) 2 8;
        let hash = be64_value behash;
        let d = ds_dec st;
        (case cache_lookup (xd_cache d) hash of
           None \<Rightarrow> Some (Return True, st\<lparr>ds_unknown := insert hash (ds_unknown st)\<rparr>)
         | Some oseg \<Rightarrow> do {
             inp \<leftarrow> buf_skip (2 + 8) (ds_input st);
             w \<leftarrow> window_declare hash oseg (xd_window d);
             out \<leftarrow> buf_append_segment (ds_output st) oseg;
             Some (Continue, st\<lparr>ds_input := inp, ds_output := out, ds_dec := d\<lparr>xd_window := w\<rparr>\<rparr>) }) })"

definition decode_backref :: "decode_state \<Rightarrow> (loop_exit \<times> decode_state) option" where
  "decode_backref st =
     (if length (ds_input st) < 2 + 1 then Some (Return True, st)
      else do {
        (idx, inp) \<leftarrow> buf_moveout_bytes (ds_input st) 2 1;
        oseg \<leftarrow> window_dereference (unat (hd idx)) (xd_window (ds_dec st));
        let st = st\<lparr>ds_input := inp\<rparr>;
        (case oseg of
           None \<Rightarrow> Some (Return False, st)
         | Some seg \<Rightarrow> do {
             out \<leftarrow> buf_append_segment (ds_output st) seg;
             Some (Continue, st\<lparr>ds_output := out\<rparr>) }) })"

section \<open>The loop\<close>

definition decode_op :: "byte \<Rightarrow> decode_state \<Rightarrow> (loop_exit \<times> decode_state) option" where
  "decode_op op st =
     (if op = XCODEC_OP_ESCAPE then decode_escape st
      else if op = XCODEC_OP_EXTRACT then decode_extract st
      else if op = XCODEC_OP_REF then decode_ref st
      else if op = XCODEC_OP_BACKREF then decode_backref st
      else Some (Return False, st))"

definition decode_step :: "decode_state \<Rightarrow> (loop_exit \<times> decode_state) option" where
  "decode_step st =
     (case buf_find XCODEC_MAGIC 0 (ds_input st) of
        None \<Rightarrow>
          (let (out, inp) = buf_moveout_all (ds_output st) (ds_input st)
           in Some (Return True, st\<lparr>ds_output := out, ds_input := inp\<rparr>))
      | Some off \<Rightarrow> do {
          st \<leftarrow>
            (if off \<noteq> 0 then do {
               out \<leftarrow> buf_append_len (ds_output st) (ds_input st) off;
               inp \<leftarrow> buf_skip off (ds_input st);
               Some (st\<lparr>ds_output := out, ds_input := inp\<rparr>) }
             else Some st);
          assert_that (ds_input st \<noteq> []);
          (if length (ds_input st) = 1 then Some (Return True, st)
           else do {
             op \<leftarrow> buf_copyout (ds_input st) 1 1;
             decode_op (hd op) st }) })"

lemma buf_skip_shorter: "buf_skip n b = Some b' \<Longrightarrow> length b' < length b"
  by (auto simp: buf_skip_def)

lemma decode_extract_shorter:
  assumes "decode_extract st = Some (Continue, st')"
  shows "length (ds_input st') < length (ds_input st)"
proof -
  obtain inp inp' where "buf_skip 2 (ds_input st) = Some inp"
      "buf_skip XCODEC_SEGMENT_LENGTH inp = Some inp'" "ds_input st' = inp'"
    using assms
    by (auto simp: decode_extract_def bind_eq_Some_conv Let_def split: if_splits option.splits)
  then show ?thesis using buf_skip_shorter less_trans by metis
qed

lemma decode_op_shorter:
  assumes "decode_op op st = Some (Continue, st')"
  shows "length (ds_input st') < length (ds_input st)"
proof -
  have "length (ds_input st') < length (ds_input st)" if "decode_escape st = Some (Continue, st')"
    using that by (auto simp: decode_escape_def bind_eq_Some_conv dest: buf_skip_shorter)
  moreover have "length (ds_input st') < length (ds_input st)" if "decode_ref st = Some (Continue, st')"
    using that
    by (auto simp: decode_ref_def bind_eq_Some_conv Let_def split: if_splits option.splits
        dest!: buf_skip_shorter)
  moreover have "length (ds_input st') < length (ds_input st)" if "decode_backref st = Some (Continue, st')"
    using that
    by (auto simp: decode_backref_def buf_moveout_bytes_def bind_eq_Some_conv Let_def
        split: if_splits option.splits)
  ultimately show ?thesis
    using assms decode_extract_shorter by (auto simp: decode_op_def split: if_splits)
qed

lemma decode_step_shorter:
  "decode_step st = Some (Continue, st') \<Longrightarrow> length (ds_input st') < length (ds_input st)"
  by (auto simp: decode_step_def buf_moveout_all_def buf_skip_def bind_eq_Some_conv Let_def
      split: if_splits option.splits dest!: decode_op_shorter)

function decode_loop :: "decode_state \<Rightarrow> (bool \<times> decode_state) option" where
  "decode_loop st =
     (if ds_input st = [] then Some (True, st)
      else do {
        (leave, st') \<leftarrow> decode_step st;
        (case leave of Return r \<Rightarrow> Some (r, st') | Continue \<Rightarrow> decode_loop st') })"
  by pat_completeness auto
termination
  by (relation "measure (length \<circ> ds_input)") (auto dest: decode_step_shorter)

declare decode_loop.simps [simp del]

definition decode ::
  "bytes \<Rightarrow> bytes \<Rightarrow> u64 set \<Rightarrow> xcodec_decoder \<Rightarrow> (bool \<times> decode_state) option" where
  "decode output input unknown_hashes d =
     decode_loop \<lparr>ds_output = output, ds_input = input, ds_unknown = unknown_hashes, ds_dec = d\<rparr>"

section \<open>The reference decoder\<close>

datatype token =
    Literal byte
  | Escape
  | Extract bytes
  | Ref u64
  | Backref byte
  | Unsupported byte

text \<open>\<open>next_token\<close> cuts one token off; \<open>None\<close> means that more bytes are needed.  An
  unsupported opcode is left in the input.\<close>

definition next_op :: "byte \<Rightarrow> bytes \<Rightarrow> (token \<times> bytes) option" where
  "next_op op r =
     (if op = XCODEC_OP_ESCAPE then Some (Escape, r)
      else if op = XCODEC_OP_EXTRACT then
        (if length r < XCODEC_SEGMENT_LENGTH then None
         else Some (Extract (take XCODEC_SEGMENT_LENGTH r), drop XCODEC_SEGMENT_LENGTH r))
      else if op = XCODEC_OP_REF then
        (if length r < 8 then None else Some (Ref (be64_value (take 8 r)), drop 8 r))
      else if op = XCODEC_OP_BACKREF then
        (case r of [] \<Rightarrow> None | i # r \<Rightarrow> Some (Backref i, r))
      else Some (Unsupported op, XCODEC_MAGIC # op # r))"

definition next_token :: "bytes \<Rightarrow> (token \<times> bytes) option" where
  "next_token inp =
     (case inp of
        [] \<Rightarrow> None
      | b # r \<Rightarrow>
          if b \<noteq> XCODEC_MAGIC then Some (Literal b, r)
          else (case r of [] \<Rightarrow> None | op # r \<Rightarrow> next_op op r))"

datatype outcome = Emit bytes xcodec_decoder | Unknown u64 | Corrupt

fun token_effect :: "token \<Rightarrow> xcodec_decoder \<Rightarrow> outcome" where
  "token_effect (Literal b) d = Emit [b] d"
| "token_effect Escape d = Emit [XCODEC_MAGIC] d"
| "token_effect (Extract seg) d =
     (let hash = segment_hash seg; w = declared hash seg (xd_window d) in
      case cache_lookup (xd_cache d) hash of
        Some oseg \<Rightarrow> if oseg = seg then Emit seg (d\<lparr>xd_window := w\<rparr>) else Corrupt
      | None \<Rightarrow> Emit seg \<lparr>xd_cache = the (cache_enter hash seg (xd_cache d)), xd_window = w\<rparr>)"
| "token_effect (Ref hash) d =
     (case cache_lookup (xd_cache d) hash of
        Some seg \<Rightarrow> Emit seg (d\<lparr>xd_window := declared hash seg (xd_window d)\<rparr>)
      | None \<Rightarrow> Unknown hash)"
| "token_effect (Backref i) d =
     (let h = xw_window (xd_window d) ! unat i in
      if h = 0 then Corrupt
      else case xw_segments (xd_window d) h of Some seg \<Rightarrow> Emit seg d | None \<Rightarrow> Corrupt)"
| "token_effect (Unsupported op) d = Corrupt"

lemma next_op_shorter:
  "next_op op r = Some (t, inp') \<Longrightarrow> token_effect t d = Emit bs d' \<Longrightarrow> length inp' < Suc (Suc (length r))"
  by (auto simp: next_op_def split: if_splits list.splits)

lemma next_token_shorter:
  "next_token inp = Some (t, inp') \<Longrightarrow> token_effect t d = Emit bs d' \<Longrightarrow> length inp' < length inp"
  by (auto simp: next_token_def split: if_splits list.splits dest: next_op_shorter)

definition token_step :: "decode_state \<Rightarrow> loop_exit \<times> decode_state" where
  "token_step st =
     (case next_token (ds_input st) of
        None \<Rightarrow> (Return True, st)
      | Some (t, inp) \<Rightarrow>
          (case token_effect t (ds_dec st) of
             Emit bs d \<Rightarrow> (Continue, st\<lparr>ds_output := ds_output st @ bs, ds_input := inp, ds_dec := d\<rparr>)
           | Unknown h \<Rightarrow> (Return True, st\<lparr>ds_unknown := insert h (ds_unknown st)\<rparr>)
           | Corrupt \<Rightarrow> (Return False, st\<lparr>ds_input := inp\<rparr>)))"

function read_tokens :: "decode_state \<Rightarrow> bool \<times> decode_state" where
  "read_tokens st =
     (case token_step st of (Return r, st') \<Rightarrow> (r, st') | (Continue, st') \<Rightarrow> read_tokens st')"
  by pat_completeness auto
termination
  by (relation "measure (length \<circ> ds_input)")
    (auto simp: token_step_def split: option.splits outcome.splits dest: next_token_shorter)

declare read_tokens.simps [simp del]

section \<open>The code is the reference decoder\<close>

definition decoder_wf :: "xcodec_decoder \<Rightarrow> bool" where
  "decoder_wf d \<longleftrightarrow>
     hashed (cache_lookup (xd_cache d)) \<and> window_wf (xd_window d) \<and> hashed (xw_segments (xd_window d))"

lemma decoder_new_fields [simp]:
  "xd_cache (decoder_new c) = c" "xd_window (decoder_new c) = window_new"
  by (simp_all add: decoder_new_def)

lemma decoder_wf_new: "hashed (cache_lookup c) \<Longrightarrow> decoder_wf (decoder_new c)"
  by (simp add: decoder_wf_def)

lemma hashed_segments_declared:
  "hashed (xw_segments w) \<Longrightarrow> length seg = XCODEC_SEGMENT_LENGTH \<Longrightarrow> segment_hash seg = hash \<Longrightarrow>
     hashed (xw_segments (declared hash seg w))"
  unfolding hashed_def by (blast dest: xw_segments_declared)

lemma hashed_neq_Nil: "hashed m \<Longrightarrow> m h = Some s \<Longrightarrow> s \<noteq> []"
  using hashedD [of m h s] by (auto simp: XCODEC_SEGMENT_LENGTH_def)

text \<open>Entering a new segment, also in a cache that forgets it.\<close>

lemma cache_enter_hashed:
  assumes "hashed (cache_lookup c)" "length seg = XCODEC_SEGMENT_LENGTH"
    "cache_lookup c (segment_hash seg) = None"
  shows "\<exists>c'. cache_enter (segment_hash seg) seg c = Some c' \<and> hashed (cache_lookup c') \<and>
    (remembers c \<longrightarrow> remembers c' \<and> cache_lookup c' = (cache_lookup c)(segment_hash seg \<mapsto> seg))"
proof (cases "remembers c")
  case True
  then show ?thesis using cache.enter_ex [OF True assms(2,3)] hashed_upd [OF assms(1,2)] by auto
next
  case False
  then have "c = TackNullCache" by (simp add: remembers_def)
  then show ?thesis using assms by (simp add: remembers_def)
qed

lemma token_effect_wf:
  assumes wf: "decoder_wf d" and t: "\<And>seg. t = Extract seg \<Longrightarrow> length seg = XCODEC_SEGMENT_LENGTH"
    and e: "token_effect t d = Emit bs d'"
  shows "decoder_wf d'"
proof (cases t)
  case (Extract seg)
  then show ?thesis
    using e wf t [OF Extract] cache_enter_hashed [of "xd_cache d" seg]
    by (auto simp: decoder_wf_def window_wf_declared hashed_segments_declared Let_def
        split: option.splits if_splits)
next
  case (Ref hash)
  then show ?thesis
    using e wf
    by (auto simp: decoder_wf_def window_wf_declared hashed_segments_declared dest: hashedD split: option.splits)
qed (use e wf in \<open>auto simp: Let_def split: option.splits if_splits\<close>)

lemma next_token_Extract:
  "next_token inp = Some (Extract seg, r) \<Longrightarrow> length seg = XCODEC_SEGMENT_LENGTH"
  by (auto simp: next_token_def next_op_def split: list.splits if_splits)

lemma token_step_wf:
  assumes wf: "decoder_wf (ds_dec st)" and step: "token_step st = (l, st')"
  shows "decoder_wf (ds_dec st')"
proof (cases "next_token (ds_input st)")
  case None
  then show ?thesis using assms by (simp add: token_step_def)
next
  case (Some a)
  obtain t inp where t: "next_token (ds_input st) = Some (t, inp)" using Some by (cases a) simp
  have "decoder_wf d" if "token_effect t (ds_dec st) = Emit bs d" for bs d
    by (rule token_effect_wf [OF wf _ that]) (use t next_token_Extract in blast)
  then show ?thesis using assms t by (auto simp: token_step_def split: outcome.splits)
qed

lemma read_tokens_wf: "decoder_wf (ds_dec st) \<Longrightarrow> decoder_wf (ds_dec (snd (read_tokens st)))"
proof (induction st rule: read_tokens.induct)
  case (1 st)
  then show ?case
    by (subst read_tokens.simps) (auto split: prod.splits loop_exit.splits dest: token_step_wf)
qed

lemma read_tokens_literals:
  "XCODEC_MAGIC \<notin> set xs \<Longrightarrow> ds_input st = xs @ r \<Longrightarrow>
     read_tokens st = read_tokens (st\<lparr>ds_output := ds_output st @ xs, ds_input := r\<rparr>)"
proof (induction xs arbitrary: st)
  case (Cons x xs)
  have "token_step st = (Continue, st\<lparr>ds_output := ds_output st @ [x], ds_input := xs @ r\<rparr>)"
    using Cons.prems by (auto simp: token_step_def next_token_def)
  then show ?case
    using Cons.prems Cons.IH [of "st\<lparr>ds_output := ds_output st @ [x], ds_input := xs @ r\<rparr>"]
    by (simp add: read_tokens.simps [of st])
next
  case Nil
  then show ?case by (cases st) auto
qed

text \<open>Each case of the switch does what the token says.\<close>

lemma decode_extract_eq:
  assumes wf: "decoder_wf (ds_dec st)" and inp: "ds_input st = XCODEC_MAGIC # XCODEC_OP_EXTRACT # r"
  shows "decode_extract st = Some (token_step st)"
proof (cases "length r < XCODEC_SEGMENT_LENGTH")
  case True
  then show ?thesis using inp by (simp add: decode_extract_def token_step_def next_token_def next_op_def)
next
  case False
  define seg d where "seg = take XCODEC_SEGMENT_LENGTH r" and "d = ds_dec st"
  have len: "length seg = XCODEC_SEGMENT_LENGTH" and ne: "seg \<noteq> []" "r \<noteq> []"
    using False XCODEC_SEGMENT_LENGTH_pos by (auto simp: seg_def)
  have d: "hashed (cache_lookup (xd_cache d))" "window_wf (xd_window d)"
    using wf by (auto simp: decoder_wf_def d_def)
  have tok: "next_token (ds_input st) = Some (Extract seg, drop XCODEC_SEGMENT_LENGTH r)"
    using False inp by (simp add: next_token_def next_op_def seg_def)
  have copy: "buf_copyout_segment r XCODEC_SEGMENT_LENGTH = Some seg"
    using False XCODEC_SEGMENT_fits by (simp add: seg_def buf_simps)
  have code: "decode_extract st =
      do { entered \<leftarrow> decode_enter (segment_hash seg) seg (xd_cache d);
           (case entered of
              None \<Rightarrow> Some (Return False, st\<lparr>ds_input := drop XCODEC_SEGMENT_LENGTH r\<rparr>)
            | Some c \<Rightarrow> Some (Continue, st\<lparr>ds_output := ds_output st @ seg, ds_input := drop XCODEC_SEGMENT_LENGTH r,
                ds_dec := \<lparr>xd_cache = c, xd_window = declared (segment_hash seg) seg (xd_window d)\<rparr>\<rparr>)) }"
    using False inp ne copy hash_data_eq [OF len] window_declare_eq [OF d(2), of "segment_hash seg" seg]
    by (cases st) (simp add: decode_extract_def buf_simps Let_def d_def cong: option.case_cong)
  show ?thesis
  proof (cases "cache_lookup (xd_cache d) (segment_hash seg)")
    case None
    then obtain c where "cache_enter (segment_hash seg) seg (xd_cache d) = Some c"
      using cache_enter_hashed [OF d(1) len] by auto
    then show ?thesis using None by (simp add: code token_step_def tok decode_enter_def Let_def d_def)
  next
    case (Some oseg)
    then show ?thesis by (simp add: code token_step_def tok decode_enter_def Let_def d_def)
  qed
qed

lemma decode_ref_eq:
  assumes wf: "decoder_wf (ds_dec st)" and inp: "ds_input st = XCODEC_MAGIC # XCODEC_OP_REF # r"
  shows "decode_ref st = Some (token_step st)"
proof (cases "length r < 8")
  case True
  then show ?thesis using inp by (simp add: decode_ref_def token_step_def next_token_def next_op_def)
next
  case False
  define h where "h = be64_value (take 8 r)"
  have tok: "next_token (ds_input st) = Some (Ref h, drop 8 r)"
    using False inp by (simp add: next_token_def next_op_def h_def)
  have copy: "buf_copyout (ds_input st) 2 8 = Some (take 8 r)"
    using False inp by (simp add: buf_simps numeral_2_eq_2)
  have skip: "buf_skip (2 + 8) (ds_input st) = Some (drop 8 r)"
    using inp by (simp add: buf_skip_def numeral_eq_Suc)
  show ?thesis
  proof (cases "cache_lookup (xd_cache (ds_dec st)) h")
    case None
    then show ?thesis using False inp copy
      unfolding decode_ref_def token_step_def tok by (simp flip: h_def)
  next
    case (Some seg)
    then have "seg \<noteq> []" using wf hashed_neq_Nil unfolding decoder_wf_def by blast
    moreover have "window_wf (xd_window (ds_dec st))" using wf by (simp add: decoder_wf_def)
    moreover have "\<not> length (ds_input st) < 2 + 8" using False inp by simp
    ultimately show ?thesis using Some copy skip
      unfolding decode_ref_def token_step_def tok
      by (cases st) (simp add: window_declare_eq buf_simps flip: h_def)
  qed
qed

lemma decode_backref_eq:
  assumes wf: "decoder_wf (ds_dec st)" and inp: "ds_input st = XCODEC_MAGIC # XCODEC_OP_BACKREF # r"
  shows "decode_backref st = Some (token_step st)"
proof (cases r)
  case Nil
  then show ?thesis using inp by (simp add: decode_backref_def token_step_def next_token_def next_op_def)
next
  case (Cons i r')
  define w where "w = xd_window (ds_dec st)"
  have w: "window_wf w" "hashed (xw_segments w)" using wf by (auto simp: decoder_wf_def w_def)
  have lt: "unat i < XCODEC_WINDOW_COUNT" using unsigned_less [of i] by (simp add: XCODEC_WINDOW_COUNT_eq)
  have move: "buf_moveout_bytes (ds_input st) 2 1 = Some ([i], r')"
    using inp Cons by (simp add: buf_simps numeral_2_eq_2)
  have tok: "next_token (ds_input st) = Some (Backref i, r')"
    using inp Cons by (simp add: next_token_def next_op_def)
  have ne: "xw_segments w h = Some seg \<Longrightarrow> seg \<noteq> []" for h seg
    using w(2) hashed_neq_Nil by blast
  have len: "\<not> length (ds_input st) < 2 + 1" using inp Cons by simp
  show ?thesis
    using move window_dereference_eq [OF w(1) lt] window_wf_segments [OF w(1) lt] ne len
    unfolding decode_backref_def token_step_def tok
    by (cases "xw_window w ! unat i = 0") (auto simp: buf_simps Let_def simp flip: w_def)
qed

lemma decode_op_eq:
  assumes "decoder_wf (ds_dec st)" and inp: "ds_input st = XCODEC_MAGIC # op # r"
  shows "decode_op op st = Some (token_step st)"
proof -
  have "decode_escape st = Some (token_step st)" if "op = XCODEC_OP_ESCAPE"
    using that inp
    by (cases st) (simp add: decode_escape_def token_step_def next_token_def next_op_def buf_simps numeral_2_eq_2)
  moreover have "token_step st = (Return False, st)"
    if "op \<notin> {XCODEC_OP_ESCAPE, XCODEC_OP_EXTRACT, XCODEC_OP_REF, XCODEC_OP_BACKREF}"
    using that inp by (cases st) (simp add: token_step_def next_token_def next_op_def)
  ultimately show ?thesis
    using decode_extract_eq [OF assms(1)] decode_ref_eq [OF assms(1)] decode_backref_eq [OF assms(1)] inp
    by (simp add: decode_op_def)
qed

lemma decode_step_None:
  "XCODEC_MAGIC \<notin> set (ds_input st) \<Longrightarrow>
     decode_step st = Some (Return True, st\<lparr>ds_output := ds_output st @ ds_input st, ds_input := []\<rparr>)"
  by (simp add: decode_step_def buf_find_None_iff [THEN iffD2] buf_moveout_all_def)

lemma decode_step_Some:
  assumes wf: "decoder_wf (ds_dec st)" and inp: "ds_input st = xs @ XCODEC_MAGIC # r"
    and xs: "XCODEC_MAGIC \<notin> set xs"
  shows "decode_step st = Some (token_step (st\<lparr>ds_output := ds_output st @ xs, ds_input := XCODEC_MAGIC # r\<rparr>))"
proof -
  define st1 where "st1 = st\<lparr>ds_output := ds_output st @ xs, ds_input := XCODEC_MAGIC # r\<rparr>"
  have find: "buf_find XCODEC_MAGIC 0 (ds_input st) = Some (length xs)"
    unfolding inp using xs by (rule buf_find_append_hit)
  have "decode_step st =
      (if r = [] then Some (Return True, st1) else do { op \<leftarrow> buf_copyout (ds_input st1) 1 1; decode_op (hd op) st1 })"
    using find inp by (cases st; cases "xs = []") (auto simp: decode_step_def buf_simps st1_def)
  also have "\<dots> = Some (token_step st1)"
  proof (cases r)
    case Nil
    then show ?thesis by (simp add: token_step_def st1_def next_token_def)
  next
    case (Cons op r')
    then have "ds_input st1 = XCODEC_MAGIC # op # r'" by (simp add: st1_def)
    with decode_op_eq [of st1 op r'] wf Cons show ?thesis by (simp add: buf_simps st1_def)
  qed
  finally show ?thesis by (simp add: st1_def)
qed

lemma decode_loop_eq: "decoder_wf (ds_dec st) \<Longrightarrow> decode_loop st = Some (read_tokens st)"
proof (induction st rule: decode_loop.induct)
  case (1 st)
  consider "ds_input st = []" | "ds_input st \<noteq> []" "XCODEC_MAGIC \<notin> set (ds_input st)"
    | xs r where "ds_input st = xs @ XCODEC_MAGIC # r" "XCODEC_MAGIC \<notin> set xs"
    by (meson split_list_first)
  then show ?case
  proof cases
    case 1
    then show ?thesis by (simp add: decode_loop.simps read_tokens.simps token_step_def next_token_def)
  next
    case 2
    then show ?thesis using read_tokens_literals [of "ds_input st" st "[]"]
      by (simp add: decode_loop.simps decode_step_None read_tokens.simps token_step_def next_token_def)
  next
    case 3
    define st1 where "st1 = st\<lparr>ds_output := ds_output st @ xs, ds_input := XCODEC_MAGIC # r\<rparr>"
    have step: "decode_step st = Some (token_step st1)"
      using decode_step_Some [OF "1.prems" 3] by (simp add: st1_def)
    have lit: "read_tokens st = read_tokens st1"
      using read_tokens_literals [OF 3(2,1)] by (simp add: st1_def)
    have wf1: "decoder_wf (ds_dec st1)" using "1.prems" by (simp add: st1_def)
    obtain l st2 where ts: "token_step st1 = (l, st2)" by (cases "token_step st1")
    have ne: "ds_input st \<noteq> []" using 3 by simp
    have "decode_loop st2 = Some (read_tokens st2)" if "l = Continue"
      using "1.IH" [OF ne _ _ that] step ts token_step_wf [OF wf1 ts] by simp
    then show ?thesis
      using step ts ne lit
      by (cases l) (simp_all add: decode_loop.simps [of st] read_tokens.simps [of st1])
  qed
qed

section \<open>Input in chunks\<close>

lemma next_op_append: "next_op op a = Some (t, r) \<Longrightarrow> next_op op (a @ b) = Some (t, r @ b)"
  by (auto simp: next_op_def split: if_splits list.splits)

lemma next_token_append: "next_token a = Some (t, r) \<Longrightarrow> next_token (a @ b) = Some (t, r @ b)"
  by (cases a; cases "tl a") (auto simp: next_token_def next_op_append split: if_splits)

lemma token_step_append:
  assumes "next_token (ds_input st) = Some (t, r)" "token_step st = (l, st')"
  shows "token_step (st\<lparr>ds_input := ds_input st @ b\<rparr>) = (l, st'\<lparr>ds_input := ds_input st' @ b\<rparr>)"
  using assms next_token_append [OF assms(1), of b]
  by (cases st) (auto simp: token_step_def split: outcome.splits)

text \<open>What the decoder leaves of its input is what it needs to go on when more arrives.\<close>

lemma read_tokens_append:
  "read_tokens st = (r, st') \<Longrightarrow>
     read_tokens (st\<lparr>ds_input := ds_input st @ b\<rparr>) =
       (if r then read_tokens (st'\<lparr>ds_input := ds_input st' @ b\<rparr>)
        else (False, st'\<lparr>ds_input := ds_input st' @ b\<rparr>))"
proof (induction st rule: read_tokens.induct)
  case (1 st)
  show ?case
  proof (cases "next_token (ds_input st)")
    case None
    then show ?thesis using "1.prems" by (simp add: read_tokens.simps [of st] token_step_def)
  next
    case (Some a)
    obtain t inp where t: "next_token (ds_input st) = Some (t, inp)" using Some by (cases a) simp
    note app = next_token_append [OF t, of b]
    show ?thesis
    proof (cases "token_effect t (ds_dec st)")
      case (Emit bs d)
      define st1 where "st1 = st\<lparr>ds_output := ds_output st @ bs, ds_input := inp, ds_dec := d\<rparr>"
      have step: "token_step st = (Continue, st1)" using t Emit by (simp add: token_step_def st1_def)
      then have "read_tokens st1 = (r, st')" using "1.prems" by (simp add: read_tokens.simps [of st])
      note IH = "1.IH" [OF step [symmetric] refl this]
      show ?thesis using IH token_step_append [OF t step, of b]
        by (simp add: read_tokens.simps [of "st\<lparr>ds_input := ds_input st @ b\<rparr>"])
    next
      case (Unknown h)
      then have st': "r" "st' = st\<lparr>ds_unknown := insert h (ds_unknown st)\<rparr>"
        using "1.prems" t by (auto simp: read_tokens.simps [of st] token_step_def)
      then show ?thesis using t app Unknown
        by (cases st) (simp add: read_tokens.simps token_step_def)
    next
      case Corrupt
      then show ?thesis using "1.prems" t app
        by (auto simp: read_tokens.simps [of st] read_tokens.simps [of "st\<lparr>ds_input := ds_input st @ b\<rparr>"]
            token_step_def)
    qed
  qed
qed

section \<open>Reading a stream\<close>

text \<open>\<open>follows U d\<close>: what the decoder knows agrees with the dictionary \<open>U\<close>.\<close>

definition follows :: "(u64 \<rightharpoonup> bytes) \<Rightarrow> xcodec_decoder \<Rightarrow> bool" where
  "follows U d \<longleftrightarrow> decoder_wf d \<and> remembers (xd_cache d) \<and> cache_lookup (xd_cache d) \<subseteq>\<^sub>m U"

definition reads ::
  "(u64 \<rightharpoonup> bytes) \<Rightarrow> xcodec_decoder \<Rightarrow> bytes \<Rightarrow> bytes \<Rightarrow> xcodec_decoder \<Rightarrow> bool" where
  "reads U d bs data d' \<longleftrightarrow>
     follows U d' \<and> cache_lookup (xd_cache d) \<subseteq>\<^sub>m cache_lookup (xd_cache d') \<and>
     (\<forall>st tail. ds_input st = bs @ tail \<and> ds_dec st = d \<longrightarrow>
        read_tokens st =
          read_tokens (st\<lparr>ds_output := ds_output st @ data, ds_input := tail, ds_dec := d'\<rparr>))"

lemma readsD:
  "reads U d bs data d' \<Longrightarrow> ds_input st = bs @ tail \<Longrightarrow> ds_dec st = d \<Longrightarrow>
     read_tokens st = read_tokens (st\<lparr>ds_output := ds_output st @ data, ds_input := tail, ds_dec := d'\<rparr>)"
  unfolding reads_def by blast

lemma reads_refl: "follows U d \<Longrightarrow> reads U d [] [] d"
proof -
  have "st\<lparr>ds_output := ds_output st @ [], ds_input := tail, ds_dec := d\<rparr> = st"
    if "ds_input st = [] @ tail" "ds_dec st = d" for st tail
    using that by (cases st) simp
  then show "follows U d \<Longrightarrow> reads U d [] [] d" unfolding reads_def by (metis map_le_refl)
qed

lemma reads_trans:
  assumes r1: "reads U d bs data d1" and r2: "reads U d1 bs' data' d2"
  shows "reads U d (bs @ bs') (data @ data') d2"
proof -
  have "read_tokens st =
      read_tokens (st\<lparr>ds_output := ds_output st @ data @ data', ds_input := tail, ds_dec := d2\<rparr>)"
    if "ds_input st = (bs @ bs') @ tail" "ds_dec st = d" for st tail
    using readsD [OF r1, of st "bs' @ tail"] that
      readsD [OF r2, of "st\<lparr>ds_output := ds_output st @ data, ds_input := bs' @ tail, ds_dec := d1\<rparr>" tail]
    by simp
  then show ?thesis using r1 r2 unfolding reads_def by (blast intro: map_le_trans)
qed

lemma reads_token:
  assumes "next_token bs = Some (t, [])" and "token_effect t d = Emit data d'"
    and "follows U d'" and "cache_lookup (xd_cache d) \<subseteq>\<^sub>m cache_lookup (xd_cache d')"
  shows "reads U d bs data d'"
  using assms next_token_append [OF assms(1)]
  by (auto simp: reads_def read_tokens.simps token_step_def)

text \<open>The operations of a stream.\<close>

lemma follows_declared:
  assumes f: "follows U d" and h: "cache_lookup (xd_cache d) hash = Some seg"
  shows "follows U (d\<lparr>xd_window := declared hash seg (xd_window d)\<rparr>)"
proof -
  have "length seg = XCODEC_SEGMENT_LENGTH" "segment_hash seg = hash"
    using f h hashedD unfolding follows_def decoder_wf_def by blast+
  then show ?thesis
    using f by (simp add: follows_def decoder_wf_def window_wf_declared hashed_segments_declared)
qed

lemma reads_literal: "follows U d \<Longrightarrow> b \<noteq> XCODEC_MAGIC \<Longrightarrow> reads U d [b] [b] d"
  by (rule reads_token [where t = "Literal b"]) (simp_all add: next_token_def)

lemma reads_escape: "follows U d \<Longrightarrow> reads U d [XCODEC_MAGIC, XCODEC_OP_ESCAPE] [XCODEC_MAGIC] d"
  by (rule reads_token [where t = Escape]) (simp_all add: next_token_def next_op_def)

lemma reads_ref:
  assumes "follows U d" and "cache_lookup (xd_cache d) hash = Some seg"
  shows "reads U d (XCODEC_MAGIC # XCODEC_OP_REF # be64 hash) seg
           (d\<lparr>xd_window := declared hash seg (xd_window d)\<rparr>)"
  by (rule reads_token [where t = "Ref hash"])
    (use assms follows_declared [OF assms] in \<open>simp_all add: next_token_def next_op_def\<close>)

lemma reads_backref:
  assumes f: "follows U d" and deref: "window_dereference (unat idx) (xd_window d) = Some (Some seg)"
  shows "reads U d [XCODEC_MAGIC, XCODEC_OP_BACKREF, idx] seg d"
proof -
  have "unat idx < XCODEC_WINDOW_COUNT" "window_wf (xd_window d)"
    using unsigned_less [of idx] f by (simp_all add: XCODEC_WINDOW_COUNT_eq follows_def decoder_wf_def)
  then have "token_effect (Backref idx) d = Emit seg d"
    using deref by (auto simp: window_dereference_eq split: if_splits)
  then show ?thesis
    by (intro reads_token [where t = "Backref idx"]) (use f in \<open>simp_all add: next_token_def next_op_def\<close>)
qed

lemma reads_extract:
  assumes f: "follows U d" and len: "length seg = XCODEC_SEGMENT_LENGTH"
    and U: "U (segment_hash seg) = Some seg"
  obtains d' where "reads U d (XCODEC_MAGIC # XCODEC_OP_EXTRACT # seg) seg d'"
    "xd_window d' = declared (segment_hash seg) seg (xd_window d)"
    "cache_lookup (xd_cache d') = (cache_lookup (xd_cache d))(segment_hash seg \<mapsto> seg)"
proof -
  let ?h = "segment_hash seg" and ?op = "XCODEC_MAGIC # XCODEC_OP_EXTRACT # seg"
  have tok: "next_token ?op = Some (Extract seg, [])" using len by (simp add: next_token_def next_op_def)
  have d: "decoder_wf d" "remembers (xd_cache d)" "cache_lookup (xd_cache d) \<subseteq>\<^sub>m U"
    using f by (auto simp: follows_def)
  show ?thesis
  proof (cases "cache_lookup (xd_cache d) ?h")
    case None
    obtain c where c: "cache_enter ?h seg (xd_cache d) = Some c"
        "cache_lookup c = (cache_lookup (xd_cache d))(?h \<mapsto> seg)" "remembers c"
      using cache.enter_ex [OF d(2) len None] by blast
    define d' where "d' = \<lparr>xd_cache = c, xd_window = declared ?h seg (xd_window d)\<rparr>"
    have eff: "token_effect (Extract seg) d = Emit seg d'" using None c by (simp add: d'_def Let_def)
    have "decoder_wf d'" by (rule token_effect_wf [OF d(1) _ eff]) (use len in simp)
    moreover have "cache_lookup c \<subseteq>\<^sub>m U"
      unfolding c(2) using U d(3) by (auto intro!: map_leI dest: map_leD split: if_splits)
    ultimately have "follows U d'" using c(3) by (simp add: follows_def d'_def)
    moreover have "cache_lookup (xd_cache d) \<subseteq>\<^sub>m cache_lookup (xd_cache d')"
      using None c(2) by (simp add: d'_def map_le_upd_None)
    ultimately have "reads U d ?op seg d'" by (rule reads_token [OF tok eff])
    then show ?thesis by (rule that) (simp_all add: d'_def c)
  next
    case (Some s)
    then have s: "s = seg" using map_leD [OF d(3) Some] U by simp
    let ?d = "d\<lparr>xd_window := declared ?h seg (xd_window d)\<rparr>"
    have "reads U d ?op seg ?d"
      by (rule reads_token [OF tok]) (use Some s follows_declared [OF f, of ?h seg] in \<open>simp_all add: Let_def\<close>)
    then show ?thesis by (rule that) (use Some s in auto)
  qed
qed

text \<open>A decoder that knows what the writer of the stream knew at its start reads it to the
  end.\<close>

lemma read_stream:
  assumes "xstream D w bs data D' w'" and "follows U d" and "xd_window d = w"
    and "D \<subseteq>\<^sub>m cache_lookup (xd_cache d)" and "D' \<subseteq>\<^sub>m U"
  shows "\<exists>d'. reads U d bs data d' \<and> xd_window d' = w' \<and> D' \<subseteq>\<^sub>m cache_lookup (xd_cache d')"
  using assms
proof (induction arbitrary: d rule: xstream.induct)
  case (xs_end D w)
  then show ?case using reads_refl by blast
next
  case (xs_literal b D w bs out D' w')
  then show ?case using reads_trans [OF reads_literal] by fastforce
next
  case (xs_escape D w bs out D' w')
  then show ?case using reads_trans [OF reads_escape] by fastforce
next
  case (xs_extract seg D w bs out D' w')
  have "U (segment_hash seg) = Some seg"
    using map_le_trans [OF xstream_grows [OF xs_extract.hyps(3)] xs_extract.prems(4)] map_leD by fastforce
  with xs_extract.prems(1) xs_extract.hyps(1) obtain d1 where
    d1: "reads U d (XCODEC_MAGIC # XCODEC_OP_EXTRACT # seg) seg d1"
      "xd_window d1 = declared (segment_hash seg) seg (xd_window d)"
      "cache_lookup (xd_cache d1) = (cache_lookup (xd_cache d))(segment_hash seg \<mapsto> seg)"
    by (rule reads_extract)
  have "D(segment_hash seg \<mapsto> seg) \<subseteq>\<^sub>m cache_lookup (xd_cache d1)"
    unfolding d1(3) using xs_extract.prems(3) by (auto simp: map_le_def)
  moreover have "follows U d1" using d1(1) by (simp add: reads_def)
  ultimately show ?case using xs_extract.IH [of d1] xs_extract.prems d1(2) reads_trans [OF d1(1)] by fastforce
next
  case (xs_ref D hash seg w bs out D' w')
  have h: "cache_lookup (xd_cache d) hash = Some seg" using xs_ref.hyps xs_ref.prems map_leD by metis
  note r = reads_ref [OF xs_ref.prems(1) h]
  show ?case
    using xs_ref.IH [OF follows_declared [OF xs_ref.prems(1) h]] xs_ref.prems reads_trans [OF r] by fastforce
next
  case (xs_backref idx w seg D bs out D' w')
  then show ?case using reads_trans [OF reads_backref] by fastforce
qed

text \<open>A decoder that knows less reads up to the first reference it cannot resolve.\<close>

definition waits_for :: "xcodec_decoder \<Rightarrow> u64 \<Rightarrow> bytes \<Rightarrow> bool" where
  "waits_for d hash bs \<longleftrightarrow>
     cache_lookup (xd_cache d) hash = None \<and> (\<exists>r. bs = XCODEC_MAGIC # XCODEC_OP_REF # be64 hash @ r)"

lemma waits_for_read:
  assumes "waits_for (ds_dec st) hash bs" and "ds_input st = bs @ tail"
  shows "read_tokens st = (True, st\<lparr>ds_unknown := insert hash (ds_unknown st)\<rparr>)"
proof -
  obtain r where "bs = XCODEC_MAGIC # XCODEC_OP_REF # be64 hash @ r" "cache_lookup (xd_cache (ds_dec st)) hash = None"
    using assms(1) by (auto simp: waits_for_def)
  with assms(2) show ?thesis
    by (simp add: read_tokens.simps token_step_def next_token_def next_op_def)
qed

definition reads_or_waits ::
  "(u64 \<rightharpoonup> bytes) \<Rightarrow> xcodec_decoder \<Rightarrow> bytes \<Rightarrow> bytes \<Rightarrow> xcodec_window \<Rightarrow> bool" where
  "reads_or_waits U d bs data w' \<longleftrightarrow>
     (\<exists>bs1 bs2 data1 data2 d1.
        bs = bs1 @ bs2 \<and> data = data1 @ data2 \<and> reads U d bs1 data1 d1 \<and>
        xstream U (xd_window d1) bs2 data2 U w' \<and>
        (bs2 = [] \<or> (\<exists>h. waits_for d1 h bs2 \<and> U h \<noteq> None)))"

lemma reads_or_waits_now:
  assumes "follows U d" and "xstream U (xd_window d) bs data U w'"
    and "bs = [] \<or> (\<exists>h. waits_for d h bs \<and> U h \<noteq> None)"
  shows "reads_or_waits U d bs data w'"
  unfolding reads_or_waits_def
  by (rule exI [of _ "[]"], rule exI [of _ bs], rule exI [of _ "[]"], rule exI [of _ data], rule exI [of _ d])
    (use assms reads_refl [OF assms(1)] in simp)

lemma reads_or_waits_step:
  assumes r: "reads U d bs0 data0 d0" and "reads_or_waits U d0 bs data w'"
  shows "reads_or_waits U d (bs0 @ bs) (data0 @ data) w'"
proof -
  obtain bs1 bs2 data1 data2 d1 where p: "bs = bs1 @ bs2" "data = data1 @ data2" "reads U d0 bs1 data1 d1"
      "xstream U (xd_window d1) bs2 data2 U w'" "bs2 = [] \<or> (\<exists>h. waits_for d1 h bs2 \<and> U h \<noteq> None)"
    using assms(2) unfolding reads_or_waits_def by blast
  show ?thesis
    unfolding reads_or_waits_def
    by (rule exI [of _ "bs0 @ bs1"], rule exI [of _ bs2], rule exI [of _ "data0 @ data1"], rule exI [of _ data2],
        rule exI [of _ d1]) (use p reads_trans [OF r p(3)] in simp)
qed

lemma read_stream_or_wait:
  assumes "xstream D w bs data D' w'" and "follows U d" and "xd_window d = w" and "D' \<subseteq>\<^sub>m U"
  shows "reads_or_waits U d bs data w'"
  using assms
proof (induction arbitrary: d rule: xstream.induct)
  case (xs_end D w)
  then show ?case using reads_or_waits_now [OF _ xstream.xs_end] by blast
next
  case (xs_literal b D w bs out D' w')
  then show ?case using reads_or_waits_step [OF reads_literal] by fastforce
next
  case (xs_escape D w bs out D' w')
  then show ?case using reads_or_waits_step [OF reads_escape] by fastforce
next
  case (xs_extract seg D w bs out D' w')
  have "U (segment_hash seg) = Some seg"
    using map_le_trans [OF xstream_grows [OF xs_extract.hyps(3)] xs_extract.prems(3)] map_leD by fastforce
  with xs_extract.prems(1) xs_extract.hyps(1) obtain d1 where
    d1: "reads U d (XCODEC_MAGIC # XCODEC_OP_EXTRACT # seg) seg d1"
      "xd_window d1 = declared (segment_hash seg) seg (xd_window d)"
      "cache_lookup (xd_cache d1) = (cache_lookup (xd_cache d))(segment_hash seg \<mapsto> seg)"
    by (rule reads_extract)
  have "follows U d1" using d1(1) by (simp add: reads_def)
  then show ?case using xs_extract.IH [of d1] xs_extract.prems d1(2) reads_or_waits_step [OF d1(1)] by fastforce
next
  case (xs_ref D hash seg w bs out D' w')
  have U: "U hash = Some seg" using xs_ref.hyps xstream_grows xs_ref.prems(3) map_leD by metis
  show ?case
  proof (cases "cache_lookup (xd_cache d) hash")
    case None
    let ?bs = "XCODEC_MAGIC # XCODEC_OP_REF # be64 hash @ bs"
    have "waits_for d hash ?bs" using None by (simp add: waits_for_def)
    moreover have "xstream U w ?bs (seg @ out) U w'"
      using xstream.xs_ref [OF U xstream_mono [OF xs_ref.hyps(2) xs_ref.prems(3)]] .
    ultimately show ?thesis using reads_or_waits_now [OF xs_ref.prems(1)] xs_ref.prems(2) U by blast
  next
    case (Some s)
    then have h: "cache_lookup (xd_cache d) hash = Some seg"
      using U xs_ref.prems(1) map_leD unfolding follows_def by fastforce
    note r = reads_ref [OF xs_ref.prems(1) h]
    show ?thesis
      using xs_ref.IH [OF follows_declared [OF xs_ref.prems(1) h]] xs_ref.prems reads_or_waits_step [OF r]
      by fastforce
  qed
next
  case (xs_backref idx w seg D bs out D' w')
  then show ?case using reads_or_waits_step [OF reads_backref] by fastforce
qed

end
