(* ===== verification/XCodec.thy ===== *)
theory XCodec
  imports XCodec_Encoder XCodec_Decoder
begin

text \<open>
  The encoder and the decoder together.  \<open>synchronised\<close> relates an encoder with the
  decoder that reads its output; a call of \<^verbatim>\<open>encode\<close> followed by \<^verbatim>\<open>decode\<close> keeps it and
  hands the data over.  \<open>encode_all\<close> and \<open>decode_chunks\<close> are sessions: many calls, with the
  encoded bytes cut anywhere on the way.
\<close>

definition synchronised :: "xcodec_encoder \<Rightarrow> xcodec_decoder \<Rightarrow> bool" where
  "synchronised e d \<longleftrightarrow>
     encoder_wf e \<and> xe_stream e \<and> decoder_wf d \<and> remembers (xd_cache d) \<and>
     xd_window d = xe_window e \<and> cache_lookup (xd_cache d) = cache_lookup (xe_cache e)"

lemma synchronised_new:
  assumes "remembers c" "remembers c'" "\<not> cache_out_of_band c" "cache_lookup c = cache_lookup c'"
    "hashed (cache_lookup c)"
  shows "synchronised (encoder_new c) (decoder_new c')"
proof -
  have "encoder_wf (encoder_new c)" "decoder_wf (decoder_new c')"
    using assms by (simp_all add: encoder_wf_new decoder_wf_new)
  moreover have "xe_stream (encoder_new c)" using assms by (simp add: encoder_new_def)
  ultimately show ?thesis using assms by (simp add: synchronised_def)
qed

lemma decode_eq:
  "decoder_wf d \<Longrightarrow> decode out inp unk d =
     Some (read_tokens \<lparr>ds_output = out, ds_input = inp, ds_unknown = unk, ds_dec = d\<rparr>)"
  by (simp add: decode_def decode_loop_eq)

lemma read_tokens_empty: "ds_input st = [] \<Longrightarrow> read_tokens st = (True, st)"
  by (simp add: read_tokens.simps token_step_def next_token_def)

text \<open>The bytes of one call of \<^verbatim>\<open>encode\<close> take the decoder to a state synchronised with the
  encoder again, whatever follows them.\<close>

lemma synchronised_reads:
  assumes s: "synchronised e d" and m: "emits e bs data e'"
  obtains d' where "reads (cache_lookup (xe_cache e')) d bs data d'" "synchronised e' d'"
proof -
  let ?C = "cache_lookup (xe_cache e)" and ?C' = "cache_lookup (xe_cache e')"
  have x: "xstream ?C (xe_window e) bs data ?C' (xe_window e')" and wf: "encoder_wf e'" "xe_stream e'" "?C \<subseteq>\<^sub>m ?C'"
    using s m by (auto simp: synchronised_def emits_def Let_def)
  have "follows ?C' d" using s wf by (simp add: synchronised_def follows_def)
  then obtain d' where d': "reads ?C' d bs data d'" "xd_window d' = xe_window e'"
      "?C' \<subseteq>\<^sub>m cache_lookup (xd_cache d')"
    using read_stream [OF x, of ?C' d] s by (auto simp: synchronised_def)
  then have "synchronised e' d'"
    using wf by (auto simp: synchronised_def reads_def follows_def intro: map_le_antisym)
  with d'(1) show ?thesis by (rule that)
qed

lemma reads_all:
  assumes "reads U d bs data d'"
  shows "read_tokens \<lparr>ds_output = out, ds_input = bs, ds_unknown = unk, ds_dec = d\<rparr> =
    (True, \<lparr>ds_output = out @ data, ds_input = [], ds_unknown = unk, ds_dec = d'\<rparr>)"
  using readsD [OF assms, of "\<lparr>ds_output = out, ds_input = bs, ds_unknown = unk, ds_dec = d\<rparr>" "[]"]
  by (simp add: read_tokens_empty)

section \<open>Sessions\<close>

fun encode_all :: "bytes \<Rightarrow> bytes list list \<Rightarrow> xcodec_encoder \<Rightarrow> (bytes \<times> xcodec_encoder) option" where
  "encode_all out [] e = Some (out, e)"
| "encode_all out (m # ms) e = do { (out, e) \<leftarrow> encode out m e; encode_all out ms e }"

text \<open>A receiver appends what arrives to the bytes left over and decodes.\<close>

fun decode_chunks :: "bytes list \<Rightarrow> decode_state \<Rightarrow> (bool \<times> decode_state) option" where
  "decode_chunks [] st = Some (True, st)"
| "decode_chunks (c # cs) st = do {
     (ok, st) \<leftarrow> decode (ds_output st) (ds_input st @ c) (ds_unknown st) (ds_dec st);
     (if ok then decode_chunks cs st else Some (False, st)) }"

lemma encode_all_emits:
  assumes "encoder_wf e" and "\<forall>m\<in>set ms. \<forall>seg\<in>set m. seg \<noteq> []"
  obtains bs e' where "encode_all out ms e = Some (out @ bs, e')" "emits e bs (concat (map concat ms)) e'"
proof -
  have "\<exists>bs e'. encode_all out ms e = Some (out @ bs, e') \<and> emits e bs (concat (map concat ms)) e'"
    using assms
  proof (induction ms arbitrary: e out)
    case Nil
    then show ?case using emits_escape [of e "[]"] by simp
  next
    case (Cons m ms)
    obtain bs1 e1 where m: "encode out m e = Some (out @ bs1, e1)" "emits e bs1 (concat m) e1"
      using encode_ok [of e m out] Cons.prems by auto
    obtain bs2 e2 where ms: "encode_all (out @ bs1) ms e1 = Some ((out @ bs1) @ bs2, e2)"
        "emits e1 bs2 (concat (map concat ms)) e2"
      using Cons.IH [OF emits_wf [OF m(2)], of "out @ bs1"] Cons.prems by auto
    show ?case using m(1) ms(1) emits_trans [OF m(2) ms(2)] by auto
  qed
  then show ?thesis using that by blast
qed

text \<open>Cutting the input differently makes no difference.\<close>

lemma decode_chunks_eq:
  assumes "decoder_wf (ds_dec st)" and "read_tokens st = (True, st)"
    and "read_tokens (st\<lparr>ds_input := ds_input st @ concat cs\<rparr>) = (True, st')"
  shows "decode_chunks cs st = Some (True, st')"
  using assms
proof (induction cs arbitrary: st)
  case Nil
  then show ?case by (cases st) simp
next
  case (Cons c cs)
  let ?st = "st\<lparr>ds_input := ds_input st @ c\<rparr>"
  obtain r st1 where r: "read_tokens ?st = (r, st1)" by (cases "read_tokens ?st")
  have app: "?st\<lparr>ds_input := ds_input ?st @ concat cs\<rparr> = st\<lparr>ds_input := ds_input st @ concat (c # cs)\<rparr>"
    by (cases st) simp
  have d: "decode (ds_output st) (ds_input st @ c) (ds_unknown st) (ds_dec st) = Some (r, st1)"
    using decode_eq [OF Cons.prems(1)] r by (cases st) simp
  have wf: "decoder_wf (ds_dec st1)" using read_tokens_wf [of ?st] r Cons.prems(1) by simp
  have true: "r" and rest: "read_tokens (st1\<lparr>ds_input := ds_input st1 @ concat cs\<rparr>) = (True, st')"
    using read_tokens_append [OF r, of "concat cs"] Cons.prems(3) unfolding app by (auto split: if_splits)
  have "read_tokens st1 = (True, st1)"
    using read_tokens_append [OF r, of "[]"] r true by (cases st1) simp
  then show ?case using Cons.IH [OF wf _ rest] d true by simp
qed

end
