(* ===== verification/Pipe_Producer.thy ===== *)
theory Pipe_Producer
  imports Buffer_Spec
begin

text \<open>
  struct Event (event/event.h) and class PipeProducer (io/pipe/pipe_producer.cc) with the
  pipes derived from it: PipeNull, PipeSink and PipePairEcho.  A consumer asks for data
  with \<^verbatim>\<open>output\<close>; the pipe schedules the callback at once when it has something to
  deliver, or keeps it until the producer produces.  An Action is represented by the Event
  its callback will be called with.
\<close>

section \<open>Events\<close>

datatype event_type = Invalid | Done | EOS | Error

record event =
  ev_type :: event_type
  ev_error :: int
  ev_buffer :: bytes

definition event_of :: "event_type \<Rightarrow> event" where
  "event_of t = \<lparr>ev_type = t, ev_error = 0, ev_buffer = []\<rparr>"

definition event_error :: "event_type \<Rightarrow> int \<Rightarrow> event" where
  "event_error t e = \<lparr>ev_type = t, ev_error = e, ev_buffer = []\<rparr>"

definition event_with :: "event_type \<Rightarrow> bytes \<Rightarrow> event" where
  "event_with t buf = \<lparr>ev_type = t, ev_error = 0, ev_buffer = buf\<rparr>"

lemma event_fields [simp]:
  "ev_type (event_of t) = t" "ev_buffer (event_of t) = []"
  "ev_type (event_with t buf) = t" "ev_buffer (event_with t buf) = buf"
  by (simp_all add: event_of_def event_with_def)

section \<open>class PipeProducer\<close>

record pipe_producer =
  pp_output_buffer :: bytes
  pp_output_action :: "event option"
  pp_output_callback :: bool
  pp_output_eos :: bool
  pp_error :: bool

definition pipe_producer_new :: pipe_producer where
  "pipe_producer_new = \<lparr>pp_output_buffer = [], pp_output_action = None, pp_output_callback = False,
     pp_output_eos = False, pp_error = False\<rparr>"

definition output_do :: "pipe_producer \<Rightarrow> (event option \<times> pipe_producer) option" where
  "output_do p =
     (if pp_error p then do {
        assert_that (pp_output_buffer p = []);
        Some (Some (event_of Error), p) }
      else if pp_output_buffer p \<noteq> [] then
        Some (Some (event_with Done (pp_output_buffer p)), p\<lparr>pp_output_buffer := []\<rparr>)
      else if pp_output_eos p then Some (Some (event_of EOS), p)
      else Some (None, p))"

text \<open>The end of \<^verbatim>\<open>produce\<close>, \<^verbatim>\<open>produce_eos\<close> and \<^verbatim>\<open>produce_error\<close>.\<close>

definition output_notify :: "pipe_producer \<Rightarrow> pipe_producer option" where
  "output_notify p =
     (if pp_output_callback p then do {
        assert_that (pp_output_action p = None);
        (a, p) \<leftarrow> output_do p;
        (case a of None \<Rightarrow> Some p
         | Some e \<Rightarrow> Some (p\<lparr>pp_output_action := Some e, pp_output_callback := False\<rparr>)) }
      else Some p)"

definition produce :: "bytes \<Rightarrow> pipe_producer \<Rightarrow> pipe_producer option" where
  "produce buf p = do {
     assert_that (\<not> pp_error p);
     assert_that (\<not> pp_output_eos p);
     output_notify
       (if buf \<noteq> [] then p\<lparr>pp_output_buffer := pp_output_buffer p @ buf\<rparr>
        else p\<lparr>pp_output_eos := True\<rparr>) }"

definition produce_eos :: "bytes option \<Rightarrow> pipe_producer \<Rightarrow> pipe_producer option" where
  "produce_eos buf p = do {
     assert_that (\<not> pp_error p);
     assert_that (\<not> pp_output_eos p);
     let p = (case buf of Some b \<Rightarrow> if b \<noteq> [] then p\<lparr>pp_output_buffer := pp_output_buffer p @ b\<rparr> else p | None \<Rightarrow> p);
     output_notify (p\<lparr>pp_output_eos := True\<rparr>) }"

definition produce_error :: "pipe_producer \<Rightarrow> pipe_producer option" where
  "produce_error p = do {
     assert_that (\<not> pp_error p);
     (if pp_output_eos p then do { assert_that (\<not> pp_output_callback p); Some p }
      else output_notify (p\<lparr>pp_error := True, pp_output_buffer := []\<rparr>)) }"

text \<open>Returns the Event of the Action scheduled at once, or \<open>None\<close> when the callback is kept.\<close>

definition pipe_output :: "pipe_producer \<Rightarrow> (event option \<times> pipe_producer) option" where
  "pipe_output p = do {
     assert_that (pp_output_action p = None);
     assert_that (\<not> pp_output_callback p);
     (a, p) \<leftarrow> output_do p;
     (case a of Some e \<Rightarrow> Some (Some e, p) | None \<Rightarrow> Some (None, p\<lparr>pp_output_callback := True\<rparr>)) }"

definition output_cancel :: "pipe_producer \<Rightarrow> pipe_producer option" where
  "output_cancel p = do {
     p \<leftarrow> (if pp_output_action p \<noteq> None then do {
             assert_that (\<not> pp_output_callback p);
             Some (p\<lparr>pp_output_action := None\<rparr>) }
           else Some p);
     Some (if pp_output_callback p then p\<lparr>pp_output_callback := False\<rparr> else p) }"

text \<open>\<^verbatim>\<open>input\<close> for an object with the virtual function \<^verbatim>\<open>consume\<close>: \<open>get\<close> gives the PipeProducer part
  of its state.  Returns the Event that the caller is told.\<close>

definition pipe_input ::
  "('s \<Rightarrow> pipe_producer) \<Rightarrow> (bytes \<Rightarrow> 's \<Rightarrow> (bytes \<times> 's) option) \<Rightarrow> bytes \<Rightarrow> 's \<Rightarrow> (event \<times> 's) option" where
  "pipe_input get consume buf s = do {
     s \<leftarrow> (if \<not> pp_error (get s) then do {
             (buf, s) \<leftarrow> consume buf s;
             let buf = (if pp_error (get s) \<and> buf \<noteq> [] then [] else buf);
             assert_that (buf = []);
             Some s }
           else Some s);
     Some (if pp_error (get s) then event_of Error else event_of Done, s) }"

section \<open>Derived pipes\<close>

text \<open>\<^verbatim>\<open>produce\<close> moves the data out of its argument.\<close>

definition pipe_null_consume :: "bytes \<Rightarrow> pipe_producer \<Rightarrow> (bytes \<times> pipe_producer) option" where
  "pipe_null_consume buf p = do { p \<leftarrow> produce buf p; Some ([], p) }"

definition pipe_sink_consume :: "bytes \<Rightarrow> pipe_producer \<Rightarrow> (bytes \<times> pipe_producer) option" where
  "pipe_sink_consume buf p =
     (if buf = [] then do { p \<leftarrow> produce_eos None p; Some ([], p) } else Some ([], p))"

record pipe_pair =
  incoming_pipe :: pipe_producer
  outgoing_pipe :: pipe_producer

definition echo_incoming_consume :: "bytes \<Rightarrow> pipe_pair \<Rightarrow> (bytes \<times> pipe_pair) option" where
  "echo_incoming_consume buf pp = do { p \<leftarrow> produce buf (outgoing_pipe pp); Some ([], pp\<lparr>outgoing_pipe := p\<rparr>) }"

definition echo_outgoing_consume :: "bytes \<Rightarrow> pipe_pair \<Rightarrow> (bytes \<times> pipe_pair) option" where
  "echo_outgoing_consume buf pp = do { p \<leftarrow> produce buf (incoming_pipe pp); Some ([], pp\<lparr>incoming_pipe := p\<rparr>) }"

section \<open>The invariant\<close>

text \<open>A callback is kept only while there is nothing to deliver.\<close>

definition pipe_wf :: "pipe_producer \<Rightarrow> bool" where
  "pipe_wf p \<longleftrightarrow>
     (pp_error p \<longrightarrow> pp_output_buffer p = []) \<and>
     (pp_output_callback p \<longrightarrow>
        pp_output_action p = None \<and> pp_output_buffer p = [] \<and> \<not> pp_output_eos p \<and> \<not> pp_error p)"

lemma pipe_wf_new [simp]: "pipe_wf pipe_producer_new"
  by (simp add: pipe_wf_def pipe_producer_new_def)

text \<open>What a pipe has produced and not yet delivered.\<close>

definition undelivered :: "pipe_producer \<Rightarrow> bytes" where
  "undelivered p = (case pp_output_action p of Some e \<Rightarrow> ev_buffer e | None \<Rightarrow> []) @ pp_output_buffer p"

lemmas pipe_defs = pipe_wf_def output_do_def output_notify_def undelivered_def

lemma produce_ok:
  assumes wf: "pipe_wf p" and ok: "\<not> pp_error p" "\<not> pp_output_eos p"
  obtains p' where "produce buf p = Some p'" "pipe_wf p'" "\<not> pp_error p'" "pp_output_eos p' \<longleftrightarrow> buf = []"
    "undelivered p' = undelivered p @ buf"
proof -
  have "\<exists>p'. produce buf p = Some p' \<and> pipe_wf p' \<and> \<not> pp_error p' \<and> (pp_output_eos p' \<longleftrightarrow> buf = []) \<and>
      undelivered p' = undelivered p @ buf"
    using assms by (cases "buf = []"; cases "pp_output_callback p") (simp_all add: produce_def pipe_defs split: option.splits)
  then show ?thesis using that by blast
qed

lemma produce_eos_ok:
  assumes wf: "pipe_wf p" and ok: "\<not> pp_error p" "\<not> pp_output_eos p"
  obtains p' where "produce_eos None p = Some p'" "pipe_wf p'" "\<not> pp_error p'" "pp_output_eos p'"
    "undelivered p' = undelivered p"
proof -
  have "\<exists>p'. produce_eos None p = Some p' \<and> pipe_wf p' \<and> \<not> pp_error p' \<and> pp_output_eos p' \<and> undelivered p' = undelivered p"
    using assms by (cases "pp_output_callback p") (simp_all add: produce_eos_def pipe_defs split: option.splits)
  then show ?thesis using that by blast
qed

lemma produce_error_ok:
  assumes wf: "pipe_wf p" and ok: "\<not> pp_error p"
  obtains p' where "produce_error p = Some p'" "pipe_wf p'" "pp_error p' \<longleftrightarrow> \<not> pp_output_eos p"
    "pp_output_eos p' = pp_output_eos p"
proof -
  have "\<exists>p'. produce_error p = Some p' \<and> pipe_wf p' \<and> (pp_error p' \<longleftrightarrow> \<not> pp_output_eos p) \<and> pp_output_eos p' = pp_output_eos p"
    using assms by (cases "pp_output_callback p"; cases "pp_output_eos p") (simp_all add: produce_error_def pipe_defs)
  then show ?thesis using that by blast
qed

section \<open>A pipe and its consumer\<close>

text \<open>The producer produces at any time.  The consumer calls \<^verbatim>\<open>output\<close> when it holds no Action
  (\<^verbatim>\<open>Listen\<close>); when its callback is called it cancels its Action first (\<^verbatim>\<open>Deliver\<close>).\<close>

datatype pipe_cmd = Produce bytes | ProduceEOS | ProduceError | Listen | Deliver

record pipe_link =
  pl_pipe :: pipe_producer
  pl_scheduled :: "event option"
  pl_received :: "event list"

definition pipe_link_new :: pipe_link where
  "pipe_link_new = \<lparr>pl_pipe = pipe_producer_new, pl_scheduled = None, pl_received = []\<rparr>"

fun pipe_link_step :: "pipe_cmd \<Rightarrow> pipe_link \<Rightarrow> pipe_link option" where
  "pipe_link_step (Produce buf) l = do { p \<leftarrow> produce buf (pl_pipe l); Some (l\<lparr>pl_pipe := p\<rparr>) }"
| "pipe_link_step ProduceEOS l = do { p \<leftarrow> produce_eos None (pl_pipe l); Some (l\<lparr>pl_pipe := p\<rparr>) }"
| "pipe_link_step ProduceError l = do { p \<leftarrow> produce_error (pl_pipe l); Some (l\<lparr>pl_pipe := p\<rparr>) }"
| "pipe_link_step Listen l = do {
     assert_that (pl_scheduled l = None);
     (e, p) \<leftarrow> pipe_output (pl_pipe l);
     Some (l\<lparr>pl_pipe := p, pl_scheduled := e\<rparr>) }"
| "pipe_link_step Deliver l =
     (case pl_scheduled l of
        Some e \<Rightarrow> Some (l\<lparr>pl_scheduled := None, pl_received := pl_received l @ [e]\<rparr>)
      | None \<Rightarrow> do {
          e \<leftarrow> pp_output_action (pl_pipe l);
          p \<leftarrow> output_cancel (pl_pipe l);
          Some (l\<lparr>pl_pipe := p, pl_received := pl_received l @ [e]\<rparr>) })"

fun pipe_link_run :: "pipe_cmd list \<Rightarrow> pipe_link \<Rightarrow> pipe_link option" where
  "pipe_link_run [] l = Some l"
| "pipe_link_run (c # cs) l = do { l \<leftarrow> pipe_link_step c l; pipe_link_run cs l }"

fun produced :: "pipe_cmd list \<Rightarrow> bytes" where
  "produced [] = []"
| "produced (Produce buf # cs) = buf @ produced cs"
| "produced (c # cs) = produced cs"

definition pl_data :: "pipe_link \<Rightarrow> bytes" where
  "pl_data l = concat (map ev_buffer (pl_received l)) @
     (case pl_scheduled l of Some e \<Rightarrow> ev_buffer e | None \<Rightarrow> []) @ undelivered (pl_pipe l)"

text \<open>The Events on their way and received, oldest first.\<close>

definition pl_events :: "pipe_link \<Rightarrow> event list" where
  "pl_events l = pl_received l @ (case pl_scheduled l of Some e \<Rightarrow> [e] | None \<Rightarrow> []) @
     (case pp_output_action (pl_pipe l) of Some e \<Rightarrow> [e] | None \<Rightarrow> [])"

definition pl_wf :: "pipe_link \<Rightarrow> bool" where
  "pl_wf l \<longleftrightarrow> pipe_wf (pl_pipe l) \<and>
     (pl_scheduled l \<noteq> None \<longrightarrow> pp_output_action (pl_pipe l) = None \<and> \<not> pp_output_callback (pl_pipe l)) \<and>
     (\<forall>e\<in>set (pl_events l). ev_type e = EOS \<longrightarrow> pp_output_eos (pl_pipe l) \<and> pp_output_buffer (pl_pipe l) = [])"

lemma pl_wf_new: "pl_wf pipe_link_new" "pl_data pipe_link_new = []"
  by (simp_all add: pl_wf_def pl_events_def pl_data_def pipe_link_new_def pipe_producer_new_def pipe_wf_def undelivered_def)

lemma produce_eq:
  assumes "pipe_wf p" and "produce buf p = Some p'"
  shows "\<not> pp_error p \<and> \<not> pp_output_eos p \<and> p' =
    (if buf = [] then (if pp_output_callback p
       then p\<lparr>pp_output_eos := True, pp_output_action := Some (event_of EOS), pp_output_callback := False\<rparr>
       else p\<lparr>pp_output_eos := True\<rparr>)
     else if pp_output_callback p then p\<lparr>pp_output_action := Some (event_with Done buf), pp_output_callback := False\<rparr>
     else p\<lparr>pp_output_buffer := pp_output_buffer p @ buf\<rparr>)"
  using assms by (cases p; cases "pp_output_callback p"; cases "buf = []")
    (auto simp: produce_def pipe_wf_def output_notify_def output_do_def)

lemma produce_eos_eq:
  assumes "pipe_wf p" and "produce_eos None p = Some p'"
  shows "\<not> pp_error p \<and> \<not> pp_output_eos p \<and> p' = (if pp_output_callback p
     then p\<lparr>pp_output_eos := True, pp_output_action := Some (event_of EOS), pp_output_callback := False\<rparr>
     else p\<lparr>pp_output_eos := True\<rparr>)"
  using assms by (cases p; cases "pp_output_callback p")
    (auto simp: produce_eos_def pipe_wf_def output_notify_def output_do_def Let_def)

lemma pipe_output_eq:
  assumes "pipe_wf p" and "pipe_output p = Some (e, p')"
  shows "pp_output_action p = None \<and> \<not> pp_output_callback p \<and> (e, p') =
    (if pp_error p then (Some (event_of Error), p)
     else if pp_output_buffer p \<noteq> [] then (Some (event_with Done (pp_output_buffer p)), p\<lparr>pp_output_buffer := []\<rparr>)
     else if pp_output_eos p then (Some (event_of EOS), p) else (None, p\<lparr>pp_output_callback := True\<rparr>))"
  using assms by (simp add: pipe_output_def pipe_wf_def output_do_def split: if_splits)

lemmas pl_defs = pl_wf_def pl_events_def pl_data_def pipe_wf_def undelivered_def

lemma pipe_link_step_ok:
  assumes wf: "pl_wf l" and step: "pipe_link_step c l = Some l'"
  shows "pl_wf l' \<and> (\<not> pp_error (pl_pipe l') \<longrightarrow> \<not> pp_error (pl_pipe l) \<and> pl_data l' = pl_data l @ produced [c])"
proof -
  have pwf: "pipe_wf (pl_pipe l)" using wf by (simp add: pl_wf_def)
  show ?thesis
  proof (cases c)
    case (Produce buf)
    then obtain p' where p': "produce buf (pl_pipe l) = Some p'" "l' = l\<lparr>pl_pipe := p'\<rparr>"
      using step by (auto simp: bind_eq_Some_conv)
    show ?thesis using wf Produce p'(2) produce_eq [OF pwf p'(1)]
      by (cases "pl_scheduled l"; cases "pp_output_callback (pl_pipe l)"; cases "buf = []")
        (auto simp: pl_defs split: option.splits)
  next
    case ProduceEOS
    then obtain p' where p': "produce_eos None (pl_pipe l) = Some p'" "l' = l\<lparr>pl_pipe := p'\<rparr>"
      using step by (auto simp: bind_eq_Some_conv)
    show ?thesis using wf ProduceEOS p'(2) produce_eos_eq [OF pwf p'(1)]
      by (cases "pl_scheduled l"; cases "pp_output_callback (pl_pipe l)") (simp_all add: pl_defs)
  next
    case ProduceError
    then show ?thesis using assms
      by (auto simp: produce_error_def pl_wf_def pl_events_def pl_data_def pipe_defs split: if_splits option.splits)
  next
    case Listen
    then show ?thesis using assms
      by (auto simp: pipe_output_def pl_wf_def pl_events_def pl_data_def pipe_defs split: if_splits option.splits)
  next
    case Deliver
    show ?thesis
    proof (cases "pl_scheduled l")
      case None
      then obtain e where e: "pp_output_action (pl_pipe l) = Some e"
          "l' = l\<lparr>pl_pipe := (pl_pipe l)\<lparr>pp_output_action := None\<rparr>, pl_received := pl_received l @ [e]\<rparr>"
          "\<not> pp_output_callback (pl_pipe l)"
        using step Deliver by (auto simp: bind_eq_Some_conv output_cancel_def split: if_splits)
      then show ?thesis using wf Deliver None by (simp add: pl_defs)
    next
      case (Some e)
      then show ?thesis using wf step Deliver by (auto simp: pl_defs)
    qed
  qed
qed

lemma produced_Cons: "produced (c # cs) = produced [c] @ produced cs"
  by (cases c) simp_all

lemma pipe_link_run_ok:
  assumes "pl_wf l" and "pipe_link_run cs l = Some l'"
  shows "pl_wf l' \<and> (\<not> pp_error (pl_pipe l') \<longrightarrow> \<not> pp_error (pl_pipe l) \<and> pl_data l' = pl_data l @ produced cs)"
  using assms
proof (induction cs arbitrary: l)
  case (Cons c cs)
  then obtain l1 where l1: "pipe_link_step c l = Some l1" "pipe_link_run cs l1 = Some l'"
    by (auto simp: bind_eq_Some_conv)
  with pipe_link_step_ok [OF Cons.prems(1) l1(1)] Cons.IH [of l1] produced_Cons [of c cs] show ?case by auto
qed simp

section \<open>Properties\<close>

text \<open>C15: Whatever the interleaving of the producer's \<^verbatim>\<open>produce\<close>, \<^verbatim>\<open>produce_eos\<close> and \<^verbatim>\<open>produce_error\<close>
  with the consumer's \<^verbatim>\<open>output\<close> and the delivery of its callbacks, the data received, the data in a
  scheduled Event and the data still buffered are together exactly the data produced, in order, as
  long as no error was produced; an EOS Event is only scheduled when nothing is left in the buffer.\<close>

theorem pipe_conserves_data:
  assumes "pipe_link_run cs pipe_link_new = Some l" and "\<not> pp_error (pl_pipe l)"
  shows "pl_data l = produced cs \<and>
    (\<forall>e\<in>set (pl_events l). ev_type e = EOS \<longrightarrow> pp_output_buffer (pl_pipe l) = [])"
  using pipe_link_run_ok [OF pl_wf_new(1) assms(1)] assms(2) by (auto simp: pl_wf_new pl_wf_def)

theorem pipe_conserves_data_witness:
  "\<exists>l. pipe_link_run [Listen, Produce [1, 2], Produce [3], Deliver, Listen, ProduceEOS, Deliver, Listen, Deliver] pipe_link_new =
      Some l \<and> concat (map ev_buffer (pl_received l)) = [1, 2, 3] \<and> map ev_type (pl_received l) = [Done, Done, EOS]"
proof -
  let ?cs = "[Listen, Produce [1, 2], Produce [3], Deliver, Listen, ProduceEOS, Deliver, Listen, Deliver]"
  let ?p = "\<lparr>pp_output_buffer = [], pp_output_action = None, pp_output_callback = False, pp_output_eos = True, pp_error = False\<rparr>"
  let ?l = "\<lparr>pl_pipe = ?p, pl_scheduled = None, pl_received = [event_with Done [1, 2], event_with Done [3], event_of EOS]\<rparr>"
  have l: "pipe_link_run ?cs pipe_link_new = Some ?l"
    by (simp add: pipe_link_new_def pipe_producer_new_def pipe_output_def produce_def produce_eos_def output_cancel_def pipe_defs)
  with pipe_conserves_data [OF l] show ?thesis by simp
qed

text \<open>C16: The assertions of PipeProducer hold in every reachable state: \<^verbatim>\<open>produce\<close> and \<^verbatim>\<open>produce_eos\<close>
  succeed until EOS or an error was produced, \<^verbatim>\<open>produce_error\<close> until an error was, and a consumer that
  holds no Action can always call \<^verbatim>\<open>output\<close>, which schedules its callback at once exactly when there
  is data, EOS or an error to report.\<close>

theorem pipe_never_stuck:
  assumes "pipe_link_run cs pipe_link_new = Some l"
  shows "(\<not> pp_error (pl_pipe l) \<and> \<not> pp_output_eos (pl_pipe l) \<longrightarrow>
      pipe_link_step (Produce buf) l \<noteq> None \<and> pipe_link_step ProduceEOS l \<noteq> None) \<and>
    (\<not> pp_error (pl_pipe l) \<longrightarrow> pipe_link_step ProduceError l \<noteq> None) \<and>
    (pl_scheduled l = None \<and> pp_output_action (pl_pipe l) = None \<and> \<not> pp_output_callback (pl_pipe l) \<longrightarrow>
      (\<exists>l'. pipe_link_step Listen l = Some l' \<and>
        (pl_scheduled l' \<noteq> None \<longleftrightarrow>
           pp_error (pl_pipe l) \<or> pp_output_buffer (pl_pipe l) \<noteq> [] \<or> pp_output_eos (pl_pipe l))))"
proof -
  have wf: "pipe_wf (pl_pipe l)" using pipe_link_run_ok [OF pl_wf_new(1) assms] by (simp add: pl_wf_def)
  have "pipe_link_step (Produce buf) l \<noteq> None" if "\<not> pp_error (pl_pipe l)" "\<not> pp_output_eos (pl_pipe l)"
    by (rule produce_ok [OF wf that, of buf]) simp
  moreover have "pipe_link_step ProduceEOS l \<noteq> None" if "\<not> pp_error (pl_pipe l)" "\<not> pp_output_eos (pl_pipe l)"
    by (rule produce_eos_ok [OF wf that]) simp
  moreover have "pipe_link_step ProduceError l \<noteq> None" if "\<not> pp_error (pl_pipe l)"
    by (rule produce_error_ok [OF wf that]) simp
  moreover have "\<exists>l'. pipe_link_step Listen l = Some l' \<and> (pl_scheduled l' \<noteq> None \<longleftrightarrow>
       pp_error (pl_pipe l) \<or> pp_output_buffer (pl_pipe l) \<noteq> [] \<or> pp_output_eos (pl_pipe l))"
    if "pl_scheduled l = None" "pp_output_action (pl_pipe l) = None" "\<not> pp_output_callback (pl_pipe l)"
    using wf that by (auto simp: pipe_output_def pipe_defs)
  ultimately show ?thesis by blast
qed

theorem pipe_never_stuck_witness:
  "\<exists>l. pipe_link_run [Listen, Produce [1], Deliver] pipe_link_new = Some l \<and> pipe_link_step ProduceError l \<noteq> None"
proof -
  let ?p = "\<lparr>pp_output_buffer = [], pp_output_action = None, pp_output_callback = False, pp_output_eos = False, pp_error = False\<rparr>"
  have l: "pipe_link_run [Listen, Produce [1], Deliver] pipe_link_new =
      Some \<lparr>pl_pipe = ?p, pl_scheduled = None, pl_received = [event_with Done [1]]\<rparr>"
    by (simp add: pipe_link_new_def pipe_producer_new_def pipe_output_def produce_def output_cancel_def pipe_defs)
  with pipe_never_stuck [OF l] show ?thesis by simp
qed

end
