(* ===== verification/XCodec_Pipe.thy ===== *)
theory XCodec_Pipe
  imports XCodec Pipe_Producer
begin

text \<open>
  class XCodecPipePair (xcodec/xcodec_pipe_pair.cc): the framing of encoded data, the
  <ASK>/<LEARN> exchange and the end of stream between two peers, over the encoder, the
  decoder and two PipeProducers.  \<^verbatim>\<open>decoder_consume\<close> is one definition per operation of the
  stream, the rest of the loop body (\<open>pipe_decode\<close>), the loop and the code after it.  The
  caches are shared objects: an object that refers to one has the UUID it is filed under in
  \<^verbatim>\<open>XCodecCache::cache_map\<close> and the contents are fetched from and put back into the map.  The
  check of the text form of a UUID by the system library is a parameter.
\<close>

section \<open>struct UUID\<close>

definition UUID_SIZE :: nat where "UUID_SIZE = 36"

definition uuid_encode :: "bytes \<Rightarrow> bytes \<Rightarrow> (bool \<times> bytes) option" where
  "uuid_encode uuid buf = do {
     assert_that (length uuid = UUID_SIZE);
     buf \<leftarrow> buf_append_bytes buf uuid;
     Some (True, buf) }"

text \<open>Returns whether a UUID was decoded, the string and the rest of the Buffer.\<close>

definition uuid_decode :: "(bytes \<Rightarrow> bool) \<Rightarrow> bytes \<Rightarrow> (bool \<times> bytes \<times> bytes) option" where
  "uuid_decode valid buf =
     (if length buf < UUID_SIZE then Some (False, [], buf)
      else do {
        (str, buf) \<leftarrow> buf_moveout_bytes buf 0 UUID_SIZE;
        Some (valid str, str, buf) })"

section \<open>State\<close>

definition XCODEC_PIPE_OP_HELLO :: byte where "XCODEC_PIPE_OP_HELLO = 0xff"
definition XCODEC_PIPE_OP_LEARN :: byte where "XCODEC_PIPE_OP_LEARN = 0xfe"
definition XCODEC_PIPE_OP_ASK :: byte where "XCODEC_PIPE_OP_ASK = 0xfd"
definition XCODEC_PIPE_OP_EOS :: byte where "XCODEC_PIPE_OP_EOS = 0xfc"
definition XCODEC_PIPE_OP_EOS_ACK :: byte where "XCODEC_PIPE_OP_EOS_ACK = 0xfb"
definition XCODEC_PIPE_OP_FRAME :: byte where "XCODEC_PIPE_OP_FRAME = 0x00"
definition XCODEC_PIPE_MAX_FRAME :: nat where "XCODEC_PIPE_MAX_FRAME = 32768"

record xcodec_pipe_pair =
  xp_caches :: "bytes \<rightharpoonup> xcodec_cache"
  xp_codec :: bytes
  xp_decoder :: "xcodec_decoder option"
  xp_decoder_cache :: "bytes option"
  xp_unknown_hashes :: "u64 set"
  xp_received_eos :: bool
  xp_received_eos_ack :: bool
  xp_sent_eos :: bool
  xp_buffer :: bytes
  xp_frame_buffer :: bytes
  xp_decoder_pipe :: pipe_producer
  xp_encoder :: "xcodec_encoder option"
  xp_produced_eos :: bool
  xp_encoder_sent_eos :: bool
  xp_encoder_sent_eos_ack :: bool
  xp_encoder_pipe :: pipe_producer

definition pipe_pair_new :: "(bytes \<rightharpoonup> xcodec_cache) \<Rightarrow> bytes \<Rightarrow> xcodec_pipe_pair" where
  "pipe_pair_new caches codec =
     \<lparr>xp_caches = caches, xp_codec = codec, xp_decoder = None, xp_decoder_cache = None, xp_unknown_hashes = {},
      xp_received_eos = False, xp_received_eos_ack = False, xp_sent_eos = False, xp_buffer = [],
      xp_frame_buffer = [], xp_decoder_pipe = pipe_producer_new, xp_encoder = None, xp_produced_eos = False,
      xp_encoder_sent_eos = False, xp_encoder_sent_eos_ack = False, xp_encoder_pipe = pipe_producer_new\<rparr>"

definition decoder_error :: "xcodec_pipe_pair \<Rightarrow> xcodec_pipe_pair option" where
  "decoder_error xp = do { p \<leftarrow> produce_error (xp_decoder_pipe xp); Some (xp\<lparr>xp_decoder_pipe := p\<rparr>) }"

definition decoder_produce :: "bytes \<Rightarrow> xcodec_pipe_pair \<Rightarrow> xcodec_pipe_pair option" where
  "decoder_produce buf xp = do {
     assert_that (buf \<noteq> []);
     p \<leftarrow> produce buf (xp_decoder_pipe xp);
     Some (xp\<lparr>xp_decoder_pipe := p\<rparr>) }"

definition decoder_produce_eos :: "xcodec_pipe_pair \<Rightarrow> xcodec_pipe_pair option" where
  "decoder_produce_eos xp = do { p \<leftarrow> produce_eos None (xp_decoder_pipe xp); Some (xp\<lparr>xp_decoder_pipe := p\<rparr>) }"

definition encoder_error :: "xcodec_pipe_pair \<Rightarrow> xcodec_pipe_pair option" where
  "encoder_error xp = do { p \<leftarrow> produce_error (xp_encoder_pipe xp); Some (xp\<lparr>xp_encoder_pipe := p\<rparr>) }"

definition encoder_produce :: "bytes \<Rightarrow> xcodec_pipe_pair \<Rightarrow> xcodec_pipe_pair option" where
  "encoder_produce buf xp = do {
     assert_that (buf \<noteq> []);
     p \<leftarrow> produce buf (xp_encoder_pipe xp);
     Some (xp\<lparr>xp_encoder_pipe := p\<rparr>) }"

definition encoder_produce_eos :: "xcodec_pipe_pair \<Rightarrow> xcodec_pipe_pair option" where
  "encoder_produce_eos xp = do { p \<leftarrow> produce_eos None (xp_encoder_pipe xp); Some (xp\<lparr>xp_encoder_pipe := p\<rparr>) }"

section \<open>decoder_consume: the operations\<close>

text \<open>An operation ends with \<^verbatim>\<open>break\<close> out of the switch or with \<^verbatim>\<open>return\<close> from the function.\<close>

datatype op_exit = Break | Leave

definition leave_error :: "xcodec_pipe_pair \<Rightarrow> (op_exit \<times> xcodec_pipe_pair) option" where
  "leave_error xp = do { xp \<leftarrow> decoder_error xp; Some (Leave, xp) }"

definition pipe_hello :: "(bytes \<Rightarrow> bool) \<Rightarrow> xcodec_pipe_pair \<Rightarrow> (op_exit \<times> xcodec_pipe_pair) option" where
  "pipe_hello valid xp =
     (if xp_decoder_cache xp \<noteq> None then leave_error xp
      else if length (xp_buffer xp) < 1 + 1 then Some (Leave, xp)
      else do {
        b \<leftarrow> buf_copyout (xp_buffer xp) 1 1;
        let len = unat (hd b);
        (if length (xp_buffer xp) < 1 + 1 + len then Some (Leave, xp)
         else if len \<noteq> UUID_SIZE then leave_error xp
         else do {
           (uubuf, buf) \<leftarrow> buf_moveout_buffer [] (xp_buffer xp) (1 + 1) UUID_SIZE;
           let xp = xp\<lparr>xp_buffer := buf\<rparr>;
           (ok, uuid, uubuf) \<leftarrow> uuid_decode valid uubuf;
           (if \<not> ok then leave_error xp
            else do {
              caches \<leftarrow> (case cache_map_lookup (xp_caches xp) uuid of
                 None \<Rightarrow> cache_map_enter uuid (XCodecMemoryCache Map.empty) (xp_caches xp)
               | Some cache \<Rightarrow> Some (xp_caches xp));
              assert_that (xp_decoder xp = None);
              cache \<leftarrow> caches uuid;
              Some (Break, xp\<lparr>xp_caches := caches, xp_decoder_cache := Some uuid,
                xp_decoder := Some (decoder_new cache)\<rparr>) }) }) })"

definition pipe_ask :: "xcodec_pipe_pair \<Rightarrow> (op_exit \<times> xcodec_pipe_pair) option" where
  "pipe_ask xp =
     (if xp_encoder xp = None then leave_error xp
      else if length (xp_buffer xp) < 1 + 8 then Some (Leave, xp)
      else do {
        buf \<leftarrow> buf_skip 1 (xp_buffer xp);
        (behash, buf) \<leftarrow> buf_moveout_bytes buf 0 8;
        let hash = be64_value behash;
        let xp = xp\<lparr>xp_buffer := buf\<rparr>;
        cache \<leftarrow> xp_caches xp (xp_codec xp);
        (case cache_lookup cache hash of
           None \<Rightarrow> leave_error xp
         | Some oseg \<Rightarrow> do {
             learn \<leftarrow> buf_append_bytes [] [XCODEC_PIPE_OP_LEARN];
             learn \<leftarrow> buf_append_segment learn oseg;
             xp \<leftarrow> encoder_produce learn xp;
             Some (Break, xp) }) })"

definition pipe_learn :: "xcodec_pipe_pair \<Rightarrow> (op_exit \<times> xcodec_pipe_pair) option" where
  "pipe_learn xp =
     (case xp_decoder_cache xp of
        None \<Rightarrow> leave_error xp
      | Some uuid \<Rightarrow>
          (if length (xp_buffer xp) < 1 + XCODEC_SEGMENT_LENGTH then Some (Leave, xp)
           else do {
             buf \<leftarrow> buf_skip 1 (xp_buffer xp);
             seg \<leftarrow> buf_copyout_segment buf XCODEC_SEGMENT_LENGTH;
             buf \<leftarrow> buf_skip XCODEC_SEGMENT_LENGTH buf;
             hash \<leftarrow> hash_data seg;
             let xp = xp\<lparr>xp_buffer := buf, xp_unknown_hashes := xp_unknown_hashes xp - {hash}\<rparr>;
             cache \<leftarrow> xp_caches xp uuid;
             (case cache_lookup cache hash of
                Some oseg \<Rightarrow> if oseg \<noteq> seg then leave_error xp else Some (Break, xp)
              | None \<Rightarrow> do {
                  cache \<leftarrow> cache_enter hash seg cache;
                  Some (Break, xp\<lparr>xp_caches := (xp_caches xp)(uuid \<mapsto> cache)\<rparr>) }) }))"

definition pipe_eos :: "xcodec_pipe_pair \<Rightarrow> (op_exit \<times> xcodec_pipe_pair) option" where
  "pipe_eos xp =
     (if xp_received_eos xp then leave_error xp
      else do {
        buf \<leftarrow> buf_skip 1 (xp_buffer xp);
        Some (Break, xp\<lparr>xp_buffer := buf, xp_received_eos := True\<rparr>) })"

definition pipe_eos_ack :: "xcodec_pipe_pair \<Rightarrow> (op_exit \<times> xcodec_pipe_pair) option" where
  "pipe_eos_ack xp =
     (if \<not> xp_encoder_sent_eos xp then leave_error xp
      else if xp_received_eos_ack xp then leave_error xp
      else do {
        buf \<leftarrow> buf_skip 1 (xp_buffer xp);
        Some (Break, xp\<lparr>xp_buffer := buf, xp_received_eos_ack := True\<rparr>) })"

definition pipe_frame_data :: "nat \<Rightarrow> xcodec_pipe_pair \<Rightarrow> (op_exit \<times> xcodec_pipe_pair) option" where
  "pipe_frame_data len xp =
     (if len = 0 \<or> XCODEC_PIPE_MAX_FRAME < len then leave_error xp
      else if length (xp_buffer xp) < 1 + 2 + len then Some (Leave, xp)
      else do {
        (frame, buf) \<leftarrow> buf_moveout_buffer (xp_frame_buffer xp) (xp_buffer xp) (1 + 2) len;
        Some (Break, xp\<lparr>xp_buffer := buf, xp_frame_buffer := frame\<rparr>) })"

definition pipe_frame :: "xcodec_pipe_pair \<Rightarrow> (op_exit \<times> xcodec_pipe_pair) option" where
  "pipe_frame xp =
     (if xp_decoder xp = None then leave_error xp
      else if length (xp_buffer xp) < 1 + 2 then Some (Leave, xp)
      else do {
        belen \<leftarrow> buf_copyout (xp_buffer xp) 1 2;
        pipe_frame_data (unat (be16_value belen)) xp })"

definition pipe_op :: "(bytes \<Rightarrow> bool) \<Rightarrow> xcodec_pipe_pair \<Rightarrow> (op_exit \<times> xcodec_pipe_pair) option" where
  "pipe_op valid xp = do {
     op \<leftarrow> buf_peek (xp_buffer xp);
     (if op = XCODEC_PIPE_OP_HELLO then pipe_hello valid xp
      else if op = XCODEC_PIPE_OP_ASK then pipe_ask xp
      else if op = XCODEC_PIPE_OP_LEARN then pipe_learn xp
      else if op = XCODEC_PIPE_OP_EOS then pipe_eos xp
      else if op = XCODEC_PIPE_OP_EOS_ACK then pipe_eos_ack xp
      else if op = XCODEC_PIPE_OP_FRAME then pipe_frame xp
      else leave_error xp) }"

section \<open>decoder_consume: decoding the frame data\<close>

definition pipe_send_eos_ack :: "xcodec_pipe_pair \<Rightarrow> xcodec_pipe_pair option" where
  "pipe_send_eos_ack xp =
     (if xp_received_eos xp \<and> \<not> xp_encoder_sent_eos_ack xp then do {
        xp \<leftarrow> encoder_produce [XCODEC_PIPE_OP_EOS_ACK] xp;
        Some (xp\<lparr>xp_encoder_sent_eos_ack := True\<rparr>) }
      else Some xp)"

text \<open>The set is iterated in ascending order.\<close>

definition ask_bytes :: "u64 set \<Rightarrow> bytes" where
  "ask_bytes hashes = concat (map (\<lambda>hash. XCODEC_PIPE_OP_ASK # be64 hash) (sorted_list_of_set hashes))"

definition pipe_send_asks :: "xcodec_pipe_pair \<Rightarrow> xcodec_pipe_pair option" where
  "pipe_send_asks xp =
     (let ask = ask_bytes (xp_unknown_hashes xp) in if ask \<noteq> [] then encoder_produce ask xp else Some xp)"

text \<open>Calling the decoder: its cache is the one filed under \<^verbatim>\<open>decoder_cache_\<close>.\<close>

definition pipe_call_decoder :: "xcodec_pipe_pair \<Rightarrow> (bool \<times> bytes \<times> xcodec_pipe_pair) option" where
  "pipe_call_decoder xp = do {
     d \<leftarrow> xp_decoder xp;
     uuid \<leftarrow> xp_decoder_cache xp;
     cache \<leftarrow> xp_caches xp uuid;
     (ok, st) \<leftarrow> decode [] (xp_frame_buffer xp) (xp_unknown_hashes xp) (d\<lparr>xd_cache := cache\<rparr>);
     Some (ok, ds_output st, xp\<lparr>xp_frame_buffer := ds_input st, xp_unknown_hashes := ds_unknown st,
       xp_decoder := Some (ds_dec st), xp_caches := (xp_caches xp)(uuid \<mapsto> xd_cache (ds_dec st))\<rparr>) }"

definition pipe_decode :: "xcodec_pipe_pair \<Rightarrow> (op_exit \<times> xcodec_pipe_pair) option" where
  "pipe_decode xp =
     (if xp_frame_buffer xp = [] then do { xp \<leftarrow> pipe_send_eos_ack xp; Some (Break, xp) }
      else if xp_unknown_hashes xp \<noteq> {} then Some (Break, xp)
      else do {
        (ok, out, xp) \<leftarrow> pipe_call_decoder xp;
        (if \<not> ok then leave_error xp
         else do {
           xp \<leftarrow> (if out \<noteq> [] then do { assert_that (\<not> xp_sent_eos xp); decoder_produce out xp }
                 else do { assert_that (xp_frame_buffer xp \<noteq> [] \<or> xp_unknown_hashes xp \<noteq> {}); Some xp });
           xp \<leftarrow> pipe_send_asks xp;
           Some (Break, xp) }) })"

text \<open>One round of the loop.\<close>

definition pipe_step :: "(bytes \<Rightarrow> bool) \<Rightarrow> xcodec_pipe_pair \<Rightarrow> (op_exit \<times> xcodec_pipe_pair) option" where
  "pipe_step valid xp = do {
     (ex, xp) \<leftarrow> pipe_op valid xp;
     (case ex of Leave \<Rightarrow> Some (Leave, xp) | Break \<Rightarrow> pipe_decode xp) }"

section \<open>decoder_consume: the loop\<close>

lemma leave_error_exit: "leave_error xp = Some (ex, xp') \<Longrightarrow> ex = Leave"
  by (auto simp: leave_error_def bind_eq_Some_conv)

lemmas pipe_op_defs = pipe_hello_def pipe_ask_def pipe_learn_def pipe_eos_def pipe_eos_ack_def pipe_frame_def pipe_frame_data_def

lemma pipe_produce_buffer:
  "decoder_produce buf xp = Some xp' \<Longrightarrow> xp_buffer xp' = xp_buffer xp"
  "encoder_produce buf xp = Some xp' \<Longrightarrow> xp_buffer xp' = xp_buffer xp"
  by (auto simp: decoder_produce_def encoder_produce_def bind_eq_Some_conv)

lemma buf_moveout_buffer_shorter: "buf_moveout_buffer d b k n = Some (x, y) \<Longrightarrow> length y < length b"
  by (auto simp: buf_moveout_buffer_def)

lemma pipe_frame_data_shorter:
  "pipe_frame_data len xp = Some (Break, xp') \<Longrightarrow> length (xp_buffer xp') < length (xp_buffer xp)"
  by (auto simp: pipe_frame_data_def bind_eq_Some_conv split: if_splits dest: leave_error_exit buf_moveout_buffer_shorter)

lemma pipe_op_shorter:
  assumes "pipe_op valid xp = Some (Break, xp')"
  shows "length (xp_buffer xp') < length (xp_buffer xp)"
proof -
  have "pipe_hello valid xp = Some (Break, xp') \<Longrightarrow> ?thesis"
    by (auto simp: pipe_hello_def bind_eq_Some_conv buf_moveout_buffer_def UUID_SIZE_def Let_def
        split: if_splits dest: leave_error_exit)
  moreover have "pipe_ask xp = Some (Break, xp') \<Longrightarrow> ?thesis"
    by (auto simp: pipe_ask_def bind_eq_Some_conv buf_moveout_bytes_def buf_skip_def Let_def
        split: if_splits option.splits dest: leave_error_exit dest!: pipe_produce_buffer(2))
  moreover have "pipe_learn xp = Some (Break, xp') \<Longrightarrow> ?thesis"
    by (auto simp: pipe_learn_def bind_eq_Some_conv buf_skip_def Let_def
        split: if_splits option.splits dest: leave_error_exit)
  moreover have "pipe_eos xp = Some (Break, xp') \<Longrightarrow> ?thesis" "pipe_eos_ack xp = Some (Break, xp') \<Longrightarrow> ?thesis"
    by (auto simp: pipe_eos_def pipe_eos_ack_def bind_eq_Some_conv buf_skip_def split: if_splits dest: leave_error_exit)
  moreover have "pipe_frame xp = Some (Break, xp') \<Longrightarrow> ?thesis"
    by (auto simp: pipe_frame_def bind_eq_Some_conv split: if_splits dest: leave_error_exit pipe_frame_data_shorter)
  ultimately show ?thesis using assms
    by (auto simp: pipe_op_def bind_eq_Some_conv split: if_splits dest: leave_error_exit)
qed

lemma pipe_call_decoder_buffer: "pipe_call_decoder xp = Some (ok, out, xp') \<Longrightarrow> xp_buffer xp' = xp_buffer xp"
  by (auto simp: pipe_call_decoder_def bind_eq_Some_conv)

lemma pipe_send_buffer:
  "pipe_send_asks xp = Some xp' \<Longrightarrow> xp_buffer xp' = xp_buffer xp"
  "pipe_send_eos_ack xp = Some xp' \<Longrightarrow> xp_buffer xp' = xp_buffer xp"
  by (auto simp: pipe_send_asks_def pipe_send_eos_ack_def bind_eq_Some_conv Let_def split: if_splits dest: pipe_produce_buffer)

lemma pipe_decode_buffer: "pipe_decode xp = Some (Break, xp') \<Longrightarrow> xp_buffer xp' = xp_buffer xp"
  by (auto simp: pipe_decode_def bind_eq_Some_conv split: if_splits dest!: pipe_call_decoder_buffer leave_error_exit pipe_produce_buffer pipe_send_buffer)

lemma pipe_step_shorter:
  assumes "pipe_step valid xp = Some (Break, xp')"
  shows "length (xp_buffer xp') < length (xp_buffer xp)"
proof -
  obtain ex xp1 where op: "pipe_op valid xp = Some (ex, xp1)" using assms by (auto simp: pipe_step_def bind_eq_Some_conv)
  with assms have "ex = Break" "pipe_decode xp1 = Some (Break, xp')" by (cases ex; simp add: pipe_step_def)+
  then show ?thesis using pipe_op_shorter [of valid xp xp1] pipe_decode_buffer [of xp1 xp'] op by simp
qed

function decoder_loop :: "(bytes \<Rightarrow> bool) \<Rightarrow> xcodec_pipe_pair \<Rightarrow> (op_exit \<times> xcodec_pipe_pair) option" where
  "decoder_loop valid xp =
     (if xp_buffer xp = [] then Some (Break, xp)
      else case pipe_step valid xp of
        None \<Rightarrow> None
      | Some (Leave, xp) \<Rightarrow> Some (Leave, xp)
      | Some (Break, xp) \<Rightarrow> decoder_loop valid xp)"
  by pat_completeness auto
termination
  by (relation "measure (\<lambda>(valid, xp). length (xp_buffer xp))") (auto dest: pipe_step_shorter)

declare decoder_loop.simps [simp del]

text \<open>The code after the loop.\<close>

definition decoder_finish_eos :: "xcodec_pipe_pair \<Rightarrow> xcodec_pipe_pair option" where
  "decoder_finish_eos xp =
     (if xp_received_eos xp \<and> \<not> xp_sent_eos xp then
        (if xp_unknown_hashes xp = {} then do {
           assert_that (xp_frame_buffer xp = []);
           xp \<leftarrow> decoder_produce_eos xp;
           Some (xp\<lparr>xp_sent_eos := True\<rparr>) }
         else do { assert_that (xp_frame_buffer xp \<noteq> []); Some xp })
      else Some xp)"

definition decoder_finish_ack :: "xcodec_pipe_pair \<Rightarrow> xcodec_pipe_pair option" where
  "decoder_finish_ack xp =
     (if xp_encoder_sent_eos_ack xp \<and> xp_received_eos_ack xp then do {
        assert_that (xp_buffer xp = []);
        assert_that (xp_frame_buffer xp = []);
        assert_that (\<not> xp_produced_eos xp);
        xp \<leftarrow> encoder_produce_eos xp;
        Some (xp\<lparr>xp_produced_eos := True\<rparr>) }
      else Some xp)"

definition decoder_consume :: "(bytes \<Rightarrow> bool) \<Rightarrow> bytes \<Rightarrow> xcodec_pipe_pair \<Rightarrow> xcodec_pipe_pair option" where
  "decoder_consume valid buf xp =
     (if buf = [] then
        (if \<not> xp_sent_eos xp then decoder_produce_eos (xp\<lparr>xp_sent_eos := True\<rparr>) else Some xp)
      else do {
        (ex, xp) \<leftarrow> decoder_loop valid (xp\<lparr>xp_buffer := xp_buffer xp @ buf\<rparr>);
        (case ex of
           Leave \<Rightarrow> Some xp
         | Break \<Rightarrow> do { xp \<leftarrow> decoder_finish_eos xp; decoder_finish_ack xp }) })"

section \<open>encoder_consume\<close>

function encode_frame :: "bytes \<Rightarrow> bytes \<Rightarrow> bytes option" where
  "encode_frame out inp =
     (if inp = [] then Some out
      else let framelen = (if length inp \<le> XCODEC_PIPE_MAX_FRAME then length inp else XCODEC_PIPE_MAX_FRAME) in
        case buf_moveout_buffer [] inp 0 framelen of
          None \<Rightarrow> None
        | Some (frame, inp) \<Rightarrow> do {
            out \<leftarrow> buf_append_bytes out [XCODEC_PIPE_OP_FRAME];
            out \<leftarrow> buf_append_bytes out (be16 (of_nat framelen));
            encode_frame (buf_append_buffer out frame) inp })"
  by pat_completeness auto
termination
  by (relation "measure (\<lambda>(out, inp). length inp)")
    (auto simp: buf_moveout_buffer_def XCODEC_PIPE_MAX_FRAME_def split: if_splits)

declare encode_frame.simps [simp del]

text \<open>The first call writes <HELLO> and creates the encoder.\<close>

definition encoder_hello :: "xcodec_pipe_pair \<Rightarrow> (bool \<times> bytes \<times> xcodec_pipe_pair) option" where
  "encoder_hello xp = do {
     (ok, extra) \<leftarrow> uuid_encode (xp_codec xp) [];
     (if \<not> ok then do { xp \<leftarrow> encoder_error xp; Some (False, [], xp) }
      else do {
        let len = (of_nat (length extra) :: byte);
        assert_that (unat len = UUID_SIZE);
        output \<leftarrow> buf_append_bytes [] [XCODEC_PIPE_OP_HELLO];
        output \<leftarrow> buf_append_bytes output [len];
        let output = buf_append_buffer output extra;
        assert_that (length output = 2 + UUID_SIZE);
        cache \<leftarrow> xp_caches xp (xp_codec xp);
        Some (True, output, xp\<lparr>xp_encoder := Some (encoder_new cache)\<rparr>) }) }"

definition pipe_call_encoder :: "bytes list \<Rightarrow> xcodec_pipe_pair \<Rightarrow> (bytes \<times> xcodec_pipe_pair) option" where
  "pipe_call_encoder buf xp = do {
     e \<leftarrow> xp_encoder xp;
     cache \<leftarrow> xp_caches xp (xp_codec xp);
     (encoded, e) \<leftarrow> encode [] buf (e\<lparr>xe_cache := cache\<rparr>);
     Some (encoded, xp\<lparr>xp_encoder := Some e, xp_caches := (xp_caches xp)(xp_codec xp \<mapsto> xe_cache e)\<rparr>) }"

text \<open>The argument is the list of the segments of the Buffer.\<close>

definition encoder_consume :: "bytes list \<Rightarrow> xcodec_pipe_pair \<Rightarrow> xcodec_pipe_pair option" where
  "encoder_consume buf xp = do {
     assert_that (\<not> xp_encoder_sent_eos xp);
     (ok, output, xp) \<leftarrow> (if xp_encoder xp = None then encoder_hello xp else Some (True, [], xp));
     (if \<not> ok then Some xp
      else do {
        (output, xp) \<leftarrow>
          (if buf \<noteq> [] then do {
             (encoded, xp) \<leftarrow> pipe_call_encoder buf xp;
             assert_that (encoded \<noteq> []);
             output \<leftarrow> encode_frame output encoded;
             Some (output, xp) }
           else do {
             assert_that (\<not> xp_encoder_sent_eos xp);
             output \<leftarrow> buf_append_bytes output [XCODEC_PIPE_OP_EOS];
             Some (output, xp\<lparr>xp_encoder_sent_eos := True\<rparr>) });
        assert_that (output \<noteq> []);
        encoder_produce output xp }) }"

end
