(* ===== verification/XCodec_Resume.thy ===== *)
theory XCodec_Resume
  imports XCodec
begin

text \<open>
  Decoding a stream of which only a part has arrived: the decoder emits a prefix of the
  data and stops inside of a token, or at a REF whose segment it has to ask for.  What it
  leaves, followed by the rest of the stream, stands for the rest of the data.  A decoder
  that knows the dictionary the stream was written with never has to ask.
\<close>

abbreviation knows :: "xcodec_decoder \<Rightarrow> u64 \<Rightarrow> bytes option" where
  "knows d \<equiv> cache_lookup (xd_cache d)"

lemma stream_token_extract:
  assumes f: "follows U d" and len: "length seg = XCODEC_SEGMENT_LENGTH" and U: "U (segment_hash seg) = Some seg"
  shows "\<exists>d'. token_effect (Extract seg) d = Emit seg d' \<and> follows U d' \<and>
    xd_window d' = declared (segment_hash seg) seg (xd_window d) \<and> knows d' = (knows d)(segment_hash seg \<mapsto> seg)"
proof (cases "knows d (segment_hash seg)")
  case None
  have h: "hashed (knows d)" and r: "remembers (xd_cache d)" and le: "knows d \<subseteq>\<^sub>m U"
    and w: "window_wf (xd_window d)" "hashed (xw_segments (xd_window d))"
    using f by (simp_all add: follows_def decoder_wf_def)
  obtain c' where c': "cache_enter (segment_hash seg) seg (xd_cache d) = Some c'" "hashed (cache_lookup c')"
      "remembers c'" "cache_lookup c' = (knows d)(segment_hash seg \<mapsto> seg)"
    using cache_enter_hashed [OF h len None] r by auto
  have "cache_lookup c' \<subseteq>\<^sub>m U" using c'(4) map_le_upd_fresh [OF le None U] by simp
  then show ?thesis using None c' w len
    by (simp add: Let_def follows_def decoder_wf_def window_wf_declared hashed_segments_declared)
next
  case (Some oseg)
  then have o: "oseg = seg" using f U map_leD [of "knows d" U "segment_hash seg" oseg] by (simp add: follows_def)
  then have "knows d = (knows d)(segment_hash seg \<mapsto> seg)" using Some by auto
  then show ?thesis using Some o f len
    by (simp add: Let_def follows_def decoder_wf_def window_wf_declared hashed_segments_declared)
qed

lemma stream_token_ref:
  assumes f: "follows U d" and U: "U hash = Some seg"
  shows "(\<exists>d'. token_effect (Ref hash) d = Emit seg d' \<and> follows U d' \<and> xd_window d' = declared hash seg (xd_window d) \<and>
      knows d' = knows d) \<or>
    token_effect (Ref hash) d = Unknown hash \<and> knows d hash = None"
proof (cases "knows d hash")
  case (Some oseg)
  then have "oseg = seg" using f U map_leD [of "knows d" U hash oseg] by (simp add: follows_def)
  then show ?thesis using Some follows_declared [OF f Some] by simp
qed simp

text \<open>The first complete token of a stream is executed without error, or is such a REF.\<close>

definition stream_goes_on ::
  "(u64 \<rightharpoonup> bytes) \<Rightarrow> xcodec_decoder \<Rightarrow> token \<Rightarrow> (u64 \<rightharpoonup> bytes) \<Rightarrow> bytes \<Rightarrow> bytes \<Rightarrow> (u64 \<rightharpoonup> bytes) \<Rightarrow> xcodec_window \<Rightarrow> bool" where
  "stream_goes_on U d t D r data D' w' \<longleftrightarrow>
     (\<exists>bs d' data' D1. token_effect t d = Emit bs d' \<and> bs \<noteq> [] \<and> data = bs @ data' \<and> follows U d' \<and>
        xstream D1 (xd_window d') r data' D' w' \<and> (D \<subseteq>\<^sub>m knows d \<longrightarrow> D1 \<subseteq>\<^sub>m knows d')) \<or>
     (\<exists>h. t = Ref h \<and> token_effect t d = Unknown h \<and> knows d h = None \<and> U h \<noteq> None \<and> \<not> D \<subseteq>\<^sub>m knows d)"

lemma xstream_token:
  assumes x: "xstream D (xd_window d) inp data D' w'" and U: "D' \<subseteq>\<^sub>m U" and f: "follows U d" and hU: "hashed U"
    and t: "next_token inp = Some (t, r)"
  shows "stream_goes_on U d t D r data D' w'"
  using x
proof cases
  case xs_end
  then show ?thesis using t by (simp add: next_token_def)
next
  case (xs_literal b bs out)
  then show ?thesis using t f by (auto simp: next_token_def stream_goes_on_def)
next
  case (xs_escape bs out)
  then show ?thesis using t f by (auto simp: next_token_def next_op_def stream_goes_on_def)
next
  case (xs_extract seg bs out)
  let ?D = "D(segment_hash seg \<mapsto> seg)"
  have "U (segment_hash seg) = Some seg"
    using map_le_trans [OF xstream_grows [OF xs_extract(5)] U] map_leD by fastforce
  then obtain d' where d': "token_effect (Extract seg) d = Emit seg d'" "follows U d'"
      "xd_window d' = declared (segment_hash seg) seg (xd_window d)" "knows d' = (knows d)(segment_hash seg \<mapsto> seg)"
    using stream_token_extract [OF f xs_extract(3)] by blast
  have "t = Extract seg" "r = bs" using t xs_extract(1,3) by (simp_all add: next_token_def next_op_def)
  moreover have "seg \<noteq> []" using xs_extract(3) by (auto simp: XCODEC_SEGMENT_LENGTH_def)
  moreover have "D \<subseteq>\<^sub>m knows d \<longrightarrow> ?D \<subseteq>\<^sub>m knows d'" unfolding d'(4) by (auto simp: map_le_def)
  ultimately show ?thesis using d' xs_extract(2,5) unfolding stream_goes_on_def by metis
next
  case (xs_ref hash seg bs out)
  have t': "t = Ref hash" "r = bs" using t xs_ref(1) by (simp_all add: next_token_def next_op_def)
  have Uh: "U hash = Some seg" using map_le_trans [OF xstream_grows [OF x] U] xs_ref(3) map_leD by fastforce
  have ne: "seg \<noteq> []" using hashed_neq_Nil [OF hU Uh] .
  from stream_token_ref [OF f Uh] show ?thesis
  proof
    assume "\<exists>d'. token_effect (Ref hash) d = Emit seg d' \<and> follows U d' \<and> xd_window d' = declared hash seg (xd_window d) \<and>
      knows d' = knows d"
    then show ?thesis using t' ne xs_ref(2,4) unfolding stream_goes_on_def by metis
  next
    assume u: "token_effect (Ref hash) d = Unknown hash \<and> knows d hash = None"
    have "\<not> D \<subseteq>\<^sub>m knows d" using u xs_ref(3) map_leD by fastforce
    then show ?thesis using u t' Uh unfolding stream_goes_on_def by auto
  qed
next
  case (xs_backref idx seg bs out)
  have "unat idx < XCODEC_WINDOW_COUNT" and w: "window_wf (xd_window d)" "hashed (xw_segments (xd_window d))"
    using unsigned_less [of idx] f by (simp_all add: XCODEC_WINDOW_COUNT_eq follows_def decoder_wf_def)
  then have e: "token_effect (Backref idx) d = Emit seg d" "seg \<noteq> []"
    using xs_backref(3) hashed_neq_Nil [OF w(2)] by (auto simp: window_dereference_eq split: if_splits)
  have "t = Backref idx" "r = bs" using t xs_backref(1) by (simp_all add: next_token_def next_op_def)
  then show ?thesis using e f xs_backref(2,4) unfolding stream_goes_on_def by blast
qed

lemma xstream_complete: "xstream D w inp data D' w' \<Longrightarrow> inp \<noteq> [] \<Longrightarrow> next_token inp \<noteq> None"
  by (cases rule: xstream.cases) (auto simp: next_token_def next_op_def)

text \<open>Where reading stops: inside of a token, or at a REF that has to be asked for.\<close>

definition stopped :: "(u64 \<rightharpoonup> bytes) \<Rightarrow> xcodec_decoder \<Rightarrow> bytes \<Rightarrow> u64 set \<Rightarrow> bool" where
  "stopped U d inp unknown \<longleftrightarrow>
     unknown = {} \<and> next_token inp = None \<or>
     (\<exists>h r. unknown = {h} \<and> next_token inp = Some (Ref h, r) \<and> knows d h = None \<and> U h \<noteq> None)"

text \<open>The stream left for a decoder: \<open>sync\<close> says that it knows the dictionary at this point.\<close>

definition stream_left ::
  "bool \<Rightarrow> (u64 \<rightharpoonup> bytes) \<Rightarrow> xcodec_decoder \<Rightarrow> bytes \<Rightarrow> bytes \<Rightarrow> bool" where
  "stream_left sync U d inp data \<longleftrightarrow> follows U d \<and> hashed U \<and>
     (\<exists>D D' w'. xstream D (xd_window d) inp data D' w' \<and> D' \<subseteq>\<^sub>m U \<and> (sync \<longrightarrow> D \<subseteq>\<^sub>m knows d))"

lemma stream_left_nil: "stream_left sync U d [] data \<Longrightarrow> data = []"
  by (auto simp: stream_left_def elim: xstream_NilE)

lemma stream_left_complete: "stream_left sync U d inp data \<Longrightarrow> inp \<noteq> [] \<Longrightarrow> next_token inp \<noteq> None"
  unfolding stream_left_def by (metis xstream_complete)

lemma stream_left_token:
  assumes "stream_left sync U d inp data" and "next_token inp = Some (t, r)"
  obtains (emit) bs d' data' where "token_effect t d = Emit bs d'" "bs \<noteq> []" "data = bs @ data'" "stream_left sync U d' r data'"
  | (ask) h where "\<not> sync" "t = Ref h" "token_effect t d = Unknown h" "knows d h = None" "U h \<noteq> None"
proof -
  obtain D D' w' where x: "xstream D (xd_window d) inp data D' w'" "D' \<subseteq>\<^sub>m U" "sync \<longrightarrow> D \<subseteq>\<^sub>m knows d"
      and f: "follows U d" "hashed U"
    using assms(1) by (auto simp: stream_left_def)
  have "stream_goes_on U d t D r data D' w'" by (rule xstream_token [OF x(1,2) f assms(2)])
  then show ?thesis unfolding stream_goes_on_def
  proof
    assume "\<exists>bs d' data' D1. token_effect t d = Emit bs d' \<and> bs \<noteq> [] \<and> data = bs @ data' \<and> follows U d' \<and>
        xstream D1 (xd_window d') r data' D' w' \<and> (D \<subseteq>\<^sub>m knows d \<longrightarrow> D1 \<subseteq>\<^sub>m knows d')"
    then show ?thesis using emit x(2,3) f(2) unfolding stream_left_def by blast
  qed (use ask x(3) in blast)
qed

lemma read_part:
  assumes "stream_left sync U (ds_dec st) (ds_input st @ rest) data" and "ds_unknown st = {}"
  shows "\<exists>st' out data'. read_tokens st = (True, st') \<and> ds_output st' = ds_output st @ out \<and> data = out @ data' \<and>
    (out = [] \<longrightarrow> ds_input st' = ds_input st \<and> ds_dec st' = ds_dec st) \<and> stream_left sync U (ds_dec st') (ds_input st' @ rest) data' \<and>
    stopped U (ds_dec st') (ds_input st') (ds_unknown st') \<and> (sync \<longrightarrow> ds_unknown st' = {})"
  using assms
proof (induction "length (ds_input st)" arbitrary: st data rule: less_induct)
  case less
  show ?case
  proof (cases "next_token (ds_input st)")
    case None
    then have "read_tokens st = (True, st)" by (simp add: read_tokens.simps token_step_def)
    then show ?thesis using less.prems None by (simp add: stopped_def)
  next
    case (Some a)
    obtain t r where t: "next_token (ds_input st) = Some (t, r)" using Some by (cases a) simp
    from less.prems(1) next_token_append [OF t] show ?thesis
    proof (cases rule: stream_left_token)
      case (emit bs d' data')
      define st1 where "st1 = st\<lparr>ds_output := ds_output st @ bs, ds_input := r, ds_dec := d'\<rparr>"
      have step: "read_tokens st = read_tokens st1"
        using t emit(1) by (simp add: read_tokens.simps [of st] token_step_def st1_def)
      have "length (ds_input st1) < length (ds_input st)" using next_token_shorter [OF t emit(1)] by (simp add: st1_def)
      moreover have "stream_left sync U (ds_dec st1) (ds_input st1 @ rest) data'" "ds_unknown st1 = {}"
        using emit(4) less.prems(2) by (simp_all add: st1_def)
      ultimately obtain st' out data2 where
        r: "read_tokens st1 = (True, st')" "ds_output st' = ds_output st1 @ out" "data' = out @ data2"
          "stream_left sync U (ds_dec st') (ds_input st' @ rest) data2"
          "stopped U (ds_dec st') (ds_input st') (ds_unknown st')" "sync \<longrightarrow> ds_unknown st' = {}"
        using less.hyps by blast
      then show ?thesis using step emit(2,3)
        by (intro exI [of _ st'] exI [of _ "bs @ out"] exI [of _ data2]) (simp add: st1_def)
    next
      case (ask h)
      then have "read_tokens st = (True, st\<lparr>ds_unknown := {h}\<rparr>)"
        using t less.prems(2) by (simp add: read_tokens.simps token_step_def)
      moreover have "stopped U (ds_dec st) (ds_input st) {h}" using ask t by (simp add: stopped_def)
      ultimately show ?thesis using less.prems ask(1)
        by (intro exI [of _ "st\<lparr>ds_unknown := {h}\<rparr>"] exI [of _ "[]"] exI [of _ data]) simp
    qed
  qed
qed

text \<open>\<^verbatim>\<open>decode\<close> on the part that has arrived.\<close>

lemma decode_part:
  assumes s: "stream_left sync U d (inp @ rest) data"
  obtains st out data' where "decode [] inp {} d = Some (True, st)" "ds_output st = out" "data = out @ data'"
    "out = [] \<longrightarrow> ds_input st = inp" "stream_left sync U (ds_dec st) (ds_input st @ rest) data'"
    "stopped U (ds_dec st) (ds_input st) (ds_unknown st)" "sync \<longrightarrow> ds_unknown st = {}"
    "\<forall>h r. next_token inp = Some (Ref h, r) \<and> knows d h \<noteq> None \<longrightarrow> out \<noteq> []"
proof -
  let ?st = "\<lparr>ds_output = [], ds_input = inp, ds_unknown = {}, ds_dec = d\<rparr>"
  have "decoder_wf d" using s by (simp add: stream_left_def follows_def)
  then have "decode [] inp {} d = Some (read_tokens ?st)" by (rule decode_eq)
  moreover obtain st out data' where st: "read_tokens ?st = (True, st)" "ds_output st = out" "data = out @ data'"
    "out = [] \<longrightarrow> ds_input st = inp \<and> ds_dec st = d" "stream_left sync U (ds_dec st) (ds_input st @ rest) data'"
    "stopped U (ds_dec st) (ds_input st) (ds_unknown st)" "sync \<longrightarrow> ds_unknown st = {}"
    using read_part [of sync U ?st rest data] s by auto
  moreover have "\<forall>h r. next_token inp = Some (Ref h, r) \<and> knows d h \<noteq> None \<longrightarrow> out \<noteq> []"
    using st(4,6) by (auto simp: stopped_def)
  ultimately show ?thesis using that by simp
qed

end
