(* ===== verification/XCodec_Peer.thy ===== *)
theory XCodec_Peer
  imports XCodec_Pipe XCodec_Resume
begin

text \<open>
  Two XCodecPipePairs connected: the messages on the wire, what the sender's
  \<^verbatim>\<open>encoder_consume\<close> writes and what the receiver's \<^verbatim>\<open>decoder_consume\<close> does with it, however
  the bytes are cut on the way.
\<close>

section \<open>Messages\<close>

datatype wire = Hello bytes | Frame bytes | Learn bytes | Ask u64 | Eos | EosAck

fun wire_bytes :: "wire \<Rightarrow> bytes" where
  "wire_bytes (Hello uuid) = XCODEC_PIPE_OP_HELLO # of_nat (length uuid) # uuid"
| "wire_bytes (Frame x) = XCODEC_PIPE_OP_FRAME # be16 (of_nat (length x)) @ x"
| "wire_bytes (Learn seg) = XCODEC_PIPE_OP_LEARN # seg"
| "wire_bytes (Ask hash) = XCODEC_PIPE_OP_ASK # be64 hash"
| "wire_bytes Eos = [XCODEC_PIPE_OP_EOS]"
| "wire_bytes EosAck = [XCODEC_PIPE_OP_EOS_ACK]"

definition wires_bytes :: "wire list \<Rightarrow> bytes" where
  "wires_bytes ms = concat (map wire_bytes ms)"

lemma wires_bytes_simps [simp]: "wires_bytes [] = []" "wires_bytes (m # ms) = wire_bytes m @ wires_bytes ms"
  "wires_bytes (ms @ ms') = wires_bytes ms @ wires_bytes ms'"
  by (simp_all add: wires_bytes_def)

lemma wire_bytes_neq_Nil [simp]: "wire_bytes m \<noteq> []"
  by (cases m) auto

lemmas pipe_ops = XCODEC_PIPE_OP_HELLO_def XCODEC_PIPE_OP_LEARN_def XCODEC_PIPE_OP_ASK_def XCODEC_PIPE_OP_EOS_def
  XCODEC_PIPE_OP_EOS_ACK_def XCODEC_PIPE_OP_FRAME_def

lemma unat_frame_length: "n \<le> XCODEC_PIPE_MAX_FRAME \<Longrightarrow> unat (of_nat n :: u16) = n"
  by (simp add: XCODEC_PIPE_MAX_FRAME_def unsigned_of_nat take_bit_nat_eq_self)

lemma length_be16 [simp]: "length (be16 x) = 2"
  by (simp add: be16_def)

section \<open>encode_frame\<close>

text \<open>The frames of some encoded data.\<close>

function frames :: "bytes \<Rightarrow> bytes list" where
  "frames inp = (if inp = [] then []
     else take XCODEC_PIPE_MAX_FRAME inp # frames (drop XCODEC_PIPE_MAX_FRAME inp))"
  by pat_completeness auto
termination
  by (relation "measure length") (auto simp: XCODEC_PIPE_MAX_FRAME_def)

declare frames.simps [simp del]

lemma frames_ok: "concat (frames inp) = inp \<and> (\<forall>x\<in>set (frames inp). x \<noteq> [] \<and> length x \<le> XCODEC_PIPE_MAX_FRAME)"
proof (induction inp rule: frames.induct)
  case (1 inp)
  show ?case
  proof (cases "inp = []")
    case False
    have "0 < XCODEC_PIPE_MAX_FRAME" by (simp add: XCODEC_PIPE_MAX_FRAME_def)
    with 1 [OF False] False show ?thesis by (simp add: frames.simps [of inp])
  qed (simp add: frames.simps)
qed

lemma encode_frame_eq: "encode_frame out inp = Some (out @ wires_bytes (map Frame (frames inp)))"
proof (induction "length inp" arbitrary: out inp rule: less_induct)
  case less
  show ?case
  proof (cases "inp = []")
    case True
    then show ?thesis by (simp add: encode_frame.simps frames.simps)
  next
    case False
    define n where "n = (if length inp \<le> XCODEC_PIPE_MAX_FRAME then length inp else XCODEC_PIPE_MAX_FRAME)"
    have n: "0 < n" "n \<le> length inp" and t: "take XCODEC_PIPE_MAX_FRAME inp = take n inp" "drop XCODEC_PIPE_MAX_FRAME inp = drop n inp"
      using False by (auto simp: XCODEC_PIPE_MAX_FRAME_def n_def)
    have mv: "buf_moveout_buffer [] inp 0 n = Some (take n inp, drop n inp)"
      using n by (simp add: buf_simps)
    have IH: "encode_frame (out @ wire_bytes (Frame (take n inp))) (drop n inp) =
        Some ((out @ wire_bytes (Frame (take n inp))) @ wires_bytes (map Frame (frames (drop n inp))))"
      by (rule less) (use n False in simp)
    have fr: "frames inp = take n inp # frames (drop n inp)" using False t frames.simps [of inp] by simp
    have be: "be16 (of_nat n) \<noteq> []" using length_be16 [of "of_nat n"] by (metis list.size(3) zero_neq_numeral)
    have "encode_frame out inp = encode_frame (out @ wire_bytes (Frame (take n inp))) (drop n inp)"
      using False n mv be
      by (subst encode_frame.simps) (simp add: buf_append_bytes_def buf_append_buffer_def Let_def flip: n_def)
    then show ?thesis using IH fr by simp
  qed
qed

section \<open>The receiver, one message\<close>

definition producer_ok :: "pipe_producer \<Rightarrow> bool" where
  "producer_ok p \<longleftrightarrow> pipe_wf p \<and> \<not> pp_error p \<and> \<not> pp_output_eos p"

text \<open>The part of the state that decoding leaves alone.\<close>

definition flags :: "xcodec_pipe_pair \<Rightarrow> bytes \<times> bool \<times> bool \<times> bool \<times> xcodec_encoder option \<times> bool \<times> bool \<times> bool" where
  "flags xp = (xp_codec xp, xp_received_eos xp, xp_received_eos_ack xp, xp_sent_eos xp, xp_encoder xp,
     xp_produced_eos xp, xp_encoder_sent_eos xp, xp_encoder_sent_eos_ack xp)"

definition pipes_ok :: "xcodec_pipe_pair \<Rightarrow> bool" where
  "pipes_ok xp \<longleftrightarrow> producer_ok (xp_decoder_pipe xp) \<and> producer_ok (xp_encoder_pipe xp)"

definition decoded :: "xcodec_pipe_pair \<Rightarrow> bytes" where
  "decoded xp = undelivered (xp_decoder_pipe xp)"

definition answered :: "xcodec_pipe_pair \<Rightarrow> bytes" where
  "answered xp = undelivered (xp_encoder_pipe xp)"

definition receiving :: "bool \<Rightarrow> (u64 \<rightharpoonup> bytes) \<Rightarrow> bytes \<Rightarrow> bytes \<Rightarrow> xcodec_pipe_pair \<Rightarrow> bytes \<Rightarrow> bool" where
  "receiving sync U uuid rest xp data \<longleftrightarrow> xp_decoder_cache xp = Some uuid \<and>
     (\<exists>d c. xp_decoder xp = Some d \<and> xp_caches xp uuid = Some c \<and>
        stream_left sync U (d\<lparr>xd_cache := c\<rparr>) (xp_frame_buffer xp @ rest) data \<and>
        stopped U (d\<lparr>xd_cache := c\<rparr>) (xp_frame_buffer xp) (xp_unknown_hashes xp)) \<and>
     (sync \<longrightarrow> xp_unknown_hashes xp = {})"

lemma decoder_produce_ok:
  assumes ok: "pipes_ok xp" and buf: "buf \<noteq> []"
  obtains p where "decoder_produce buf xp = Some (xp\<lparr>xp_decoder_pipe := p\<rparr>)" "pipes_ok (xp\<lparr>xp_decoder_pipe := p\<rparr>)"
    "undelivered p = decoded xp @ buf"
proof -
  have "pipe_wf (xp_decoder_pipe xp)" "\<not> pp_error (xp_decoder_pipe xp)" "\<not> pp_output_eos (xp_decoder_pipe xp)"
    using ok by (simp_all add: pipes_ok_def producer_ok_def)
  then obtain p where "produce buf (xp_decoder_pipe xp) = Some p" "pipe_wf p" "\<not> pp_error p" "pp_output_eos p \<longleftrightarrow> buf = []"
    "undelivered p = undelivered (xp_decoder_pipe xp) @ buf"
    by (rule produce_ok)
  then show ?thesis using ok buf
    by (intro that [of p]) (simp_all add: decoder_produce_def pipes_ok_def producer_ok_def decoded_def)
qed

lemma encoder_produce_ok:
  assumes ok: "pipes_ok xp" and buf: "buf \<noteq> []"
  obtains p where "encoder_produce buf xp = Some (xp\<lparr>xp_encoder_pipe := p\<rparr>)" "pipes_ok (xp\<lparr>xp_encoder_pipe := p\<rparr>)"
    "undelivered p = answered xp @ buf"
proof -
  have "pipe_wf (xp_encoder_pipe xp)" "\<not> pp_error (xp_encoder_pipe xp)" "\<not> pp_output_eos (xp_encoder_pipe xp)"
    using ok by (simp_all add: pipes_ok_def producer_ok_def)
  then obtain p where "produce buf (xp_encoder_pipe xp) = Some p" "pipe_wf p" "\<not> pp_error p" "pp_output_eos p \<longleftrightarrow> buf = []"
    "undelivered p = undelivered (xp_encoder_pipe xp) @ buf"
    by (rule produce_ok)
  then show ?thesis using ok buf
    by (intro that [of p]) (simp_all add: encoder_produce_def pipes_ok_def producer_ok_def answered_def)
qed

text \<open>Calling the decoder on the frame data that has arrived.\<close>

lemma pipe_call_decoder_ok:
  assumes r: "xp_decoder_cache xp = Some uuid" "xp_decoder xp = Some d" "xp_caches xp uuid = Some c"
    "stream_left sync U (d\<lparr>xd_cache := c\<rparr>) (xp_frame_buffer xp @ rest) data" "xp_unknown_hashes xp = {}"
  obtains out data' xp' where "pipe_call_decoder xp = Some (True, out, xp')" "data = out @ data'"
    "receiving sync U uuid rest xp' data'" "out = [] \<longrightarrow> xp_frame_buffer xp' = xp_frame_buffer xp"
    "flags xp' = flags xp" "xp_buffer xp' = xp_buffer xp" "xp_decoder_pipe xp' = xp_decoder_pipe xp"
    "xp_encoder_pipe xp' = xp_encoder_pipe xp" "\<forall>u. u \<noteq> uuid \<longrightarrow> xp_caches xp' u = xp_caches xp u"
    "\<forall>h r. next_token (xp_frame_buffer xp) = Some (Ref h, r) \<and> cache_lookup c h \<noteq> None \<longrightarrow> out \<noteq> []"
proof -
  obtain st out data' where st: "decode [] (xp_frame_buffer xp) {} (d\<lparr>xd_cache := c\<rparr>) = Some (True, st)" "ds_output st = out"
    "data = out @ data'" "out = [] \<longrightarrow> ds_input st = xp_frame_buffer xp" "stream_left sync U (ds_dec st) (ds_input st @ rest) data'"
    "stopped U (ds_dec st) (ds_input st) (ds_unknown st)" "sync \<longrightarrow> ds_unknown st = {}"
    "\<forall>h r. next_token (xp_frame_buffer xp) = Some (Ref h, r) \<and> knows (d\<lparr>xd_cache := c\<rparr>) h \<noteq> None \<longrightarrow> out \<noteq> []"
    by (rule decode_part [OF r(4)])
  let ?xp = "xp\<lparr>xp_frame_buffer := ds_input st, xp_unknown_hashes := ds_unknown st,
       xp_decoder := Some (ds_dec st), xp_caches := (xp_caches xp)(uuid \<mapsto> xd_cache (ds_dec st))\<rparr>"
  have "pipe_call_decoder xp = Some (True, out, ?xp)"
    using r st(1,2) by (simp add: pipe_call_decoder_def)
  moreover have "receiving sync U uuid rest ?xp data'"
    using r(1) st(5-7) by (simp add: receiving_def)
  ultimately show ?thesis using st(3,4,8) by (intro that [of out ?xp data']) (simp_all add: flags_def)
qed

text \<open>The <ASK>s for what is missing are sent.\<close>

lemma pipe_send_asks_ok:
  assumes ok: "pipes_ok xp"
  obtains xp' where "pipe_send_asks xp = Some xp'" "pipes_ok xp'" "answered xp' = answered xp @ ask_bytes (xp_unknown_hashes xp)"
    "flags xp' = flags xp" "xp_buffer xp' = xp_buffer xp" "xp_decoder_pipe xp' = xp_decoder_pipe xp"
    "xp_caches xp' = xp_caches xp" "xp_unknown_hashes xp' = xp_unknown_hashes xp" "xp_frame_buffer xp' = xp_frame_buffer xp"
    "xp_decoder xp' = xp_decoder xp" "xp_decoder_cache xp' = xp_decoder_cache xp"
proof (cases "ask_bytes (xp_unknown_hashes xp) = []")
  case True
  then show ?thesis using ok by (intro that [of xp]) (simp_all add: pipe_send_asks_def)
next
  case False
  obtain p where p: "encoder_produce (ask_bytes (xp_unknown_hashes xp)) xp = Some (xp\<lparr>xp_encoder_pipe := p\<rparr>)"
      "pipes_ok (xp\<lparr>xp_encoder_pipe := p\<rparr>)" "undelivered p = answered xp @ ask_bytes (xp_unknown_hashes xp)"
    by (rule encoder_produce_ok [OF ok False])
  have "pipe_send_asks xp = Some (xp\<lparr>xp_encoder_pipe := p\<rparr>)" using p(1) False by (simp add: pipe_send_asks_def)
  moreover have "answered (xp\<lparr>xp_encoder_pipe := p\<rparr>) = answered xp @ ask_bytes (xp_unknown_hashes xp)"
    using p(3) by (simp add: answered_def)
  ultimately show ?thesis by (rule that [OF _ p(2)]) (simp_all add: flags_def)
qed

lemma pipe_decode_ok:
  assumes r: "xp_decoder_cache xp = Some uuid" "xp_decoder xp = Some d" "xp_caches xp uuid = Some c"
    "stream_left sync U (d\<lparr>xd_cache := c\<rparr>) (xp_frame_buffer xp @ rest) data" "xp_unknown_hashes xp = {}"
    and ok: "pipes_ok xp" and ne: "xp_frame_buffer xp \<noteq> []" and eos: "\<not> xp_sent_eos xp"
  obtains out data' xp' where "pipe_decode xp = Some (Break, xp')" "data = out @ data'"
    "receiving sync U uuid rest xp' data'" "flags xp' = flags xp" "xp_buffer xp' = xp_buffer xp" "pipes_ok xp'"
    "decoded xp' = decoded xp @ out" "answered xp' = answered xp @ ask_bytes (xp_unknown_hashes xp')"
    "\<forall>u. u \<noteq> uuid \<longrightarrow> xp_caches xp' u = xp_caches xp u"
    "\<forall>h r. next_token (xp_frame_buffer xp) = Some (Ref h, r) \<and> cache_lookup c h \<noteq> None \<longrightarrow> out \<noteq> []"
proof -
  obtain out data' x1 where x1: "pipe_call_decoder xp = Some (True, out, x1)" "data = out @ data'"
    "receiving sync U uuid rest x1 data'" "out = [] \<longrightarrow> xp_frame_buffer x1 = xp_frame_buffer xp"
    "flags x1 = flags xp" "xp_buffer x1 = xp_buffer xp" "xp_decoder_pipe x1 = xp_decoder_pipe xp"
    "xp_encoder_pipe x1 = xp_encoder_pipe xp" "\<forall>u. u \<noteq> uuid \<longrightarrow> xp_caches x1 u = xp_caches xp u"
    "\<forall>h r. next_token (xp_frame_buffer xp) = Some (Ref h, r) \<and> cache_lookup c h \<noteq> None \<longrightarrow> out \<noteq> []"
    by (rule pipe_call_decoder_ok [OF r])
  have ok1: "pipes_ok x1" and eos1: "\<not> xp_sent_eos x1" using ok eos x1(5,7,8) by (simp_all add: pipes_ok_def flags_def)
  obtain p where p: "(if out \<noteq> [] then do { assert_that (\<not> xp_sent_eos x1); decoder_produce out x1 }
        else do { assert_that (xp_frame_buffer x1 \<noteq> [] \<or> xp_unknown_hashes x1 \<noteq> {}); Some x1 }) =
          Some (x1\<lparr>xp_decoder_pipe := p\<rparr>)"
      "pipes_ok (x1\<lparr>xp_decoder_pipe := p\<rparr>)" "undelivered p = decoded xp @ out"
  proof (cases "out = []")
    case True
    then show ?thesis using ne x1(4,7) ok1 by (intro that [of "xp_decoder_pipe x1"]) (simp_all add: decoded_def pipes_ok_def)
  next
    case False
    obtain p where "decoder_produce out x1 = Some (x1\<lparr>xp_decoder_pipe := p\<rparr>)" "pipes_ok (x1\<lparr>xp_decoder_pipe := p\<rparr>)"
        "undelivered p = decoded x1 @ out"
      by (rule decoder_produce_ok [OF ok1 False])
    then show ?thesis using False eos1 x1(7) by (intro that [of p]) (simp_all add: decoded_def)
  qed
  define x2 where "x2 = x1\<lparr>xp_decoder_pipe := p\<rparr>"
  have e: "xp_caches x2 = xp_caches x1" "xp_unknown_hashes x2 = xp_unknown_hashes x1" "xp_frame_buffer x2 = xp_frame_buffer x1"
      "xp_decoder x2 = xp_decoder x1" "xp_decoder_cache x2 = xp_decoder_cache x1" "flags x2 = flags x1"
      "xp_buffer x2 = xp_buffer x1" "xp_encoder_pipe x2 = xp_encoder_pipe x1" "xp_decoder_pipe x2 = p"
    by (simp_all add: x2_def flags_def)
  note x2 = p [folded x2_def]
  obtain xp' where x': "pipe_send_asks x2 = Some xp'" "pipes_ok xp'" "answered xp' = answered x2 @ ask_bytes (xp_unknown_hashes x2)"
    "flags xp' = flags x2" "xp_buffer xp' = xp_buffer x2" "xp_decoder_pipe xp' = xp_decoder_pipe x2"
    "xp_caches xp' = xp_caches x2" "xp_unknown_hashes xp' = xp_unknown_hashes x2" "xp_frame_buffer xp' = xp_frame_buffer x2"
    "xp_decoder xp' = xp_decoder x2" "xp_decoder_cache xp' = xp_decoder_cache x2"
    by (rule pipe_send_asks_ok [OF x2(2)])
  have "pipe_decode xp = Some (Break, xp')" using ne r(5) x1(1) x2(1) x'(1) by (simp add: pipe_decode_def)
  moreover have "receiving sync U uuid rest xp' data'" using x1(3) x'(7-11) e by (simp add: receiving_def)
  ultimately show ?thesis using x1 x2(3) x' e
    by (intro that [of xp' out data']) (simp_all add: decoded_def answered_def)
qed

section \<open>The receiver of a stream\<close>

definition framed :: "bytes list \<Rightarrow> bool" where
  "framed xs \<longleftrightarrow> (\<forall>x\<in>set xs. x \<noteq> [] \<and> length x \<le> XCODEC_PIPE_MAX_FRAME)"

text \<open>An <ASK> for what is missing is the last thing sent.\<close>

definition asked :: "xcodec_pipe_pair \<Rightarrow> bool" where
  "asked xp \<longleftrightarrow> (\<exists>before. answered xp = before @ ask_bytes (xp_unknown_hashes xp))"

definition streaming :: "bool \<Rightarrow> (u64 \<rightharpoonup> bytes) \<Rightarrow> bytes \<Rightarrow> bytes list \<Rightarrow> xcodec_pipe_pair \<Rightarrow> bytes \<Rightarrow> bool" where
  "streaming sync U uuid xs xp data \<longleftrightarrow> receiving sync U uuid (concat xs) xp data \<and> pipes_ok xp \<and> framed xs \<and> asked xp \<and>
     \<not> xp_received_eos xp \<and> \<not> xp_received_eos_ack xp \<and> \<not> xp_sent_eos xp \<and> \<not> xp_encoder_sent_eos_ack xp"

definition ended :: "bool \<Rightarrow> (u64 \<rightharpoonup> bytes) \<Rightarrow> bytes \<Rightarrow> xcodec_pipe_pair \<Rightarrow> bytes \<Rightarrow> bool" where
  "ended sync U uuid xp data \<longleftrightarrow> receiving sync U uuid [] xp data \<and> pipes_ok xp \<and>
     (xp_unknown_hashes xp = {} \<longrightarrow> xp_frame_buffer xp = []) \<and> (xp_unknown_hashes xp \<noteq> {} \<longrightarrow> asked xp) \<and>
     xp_received_eos xp \<and> \<not> xp_received_eos_ack xp \<and> \<not> xp_sent_eos xp \<and>
     xp_encoder_sent_eos_ack xp = (xp_unknown_hashes xp = {})"

lemma ask_bytes_empty [simp]: "ask_bytes {} = []" "ask_bytes {h} = XCODEC_PIPE_OP_ASK # be64 h"
  by (simp_all add: ask_bytes_def)

lemma pipe_op_Frame:
  assumes "xp_buffer xp = wire_bytes (Frame x) @ b" and "x \<noteq> []" "length x \<le> XCODEC_PIPE_MAX_FRAME" and "xp_decoder xp \<noteq> None"
  shows "pipe_op valid xp = Some (Break, xp\<lparr>xp_buffer := b, xp_frame_buffer := xp_frame_buffer xp @ x\<rparr>)"
proof -
  obtain l1 l2 where l: "be16 (of_nat (length x)) = [l1, l2]"
    by (cases "be16 (of_nat (length x))"; cases "tl (be16 (of_nat (length x)))")
      (use length_be16 [of "of_nat (length x)"] in auto)
  have v: "unat (be16_value [l1, l2]) = length x"
    using unat_frame_length [OF assms(3)] be16.dec_enc [of "of_nat (length x)"] l by simp
  have buf: "xp_buffer xp = XCODEC_PIPE_OP_FRAME # l1 # l2 # x @ b" using assms(1) l by simp
  have copy: "buf_copyout (xp_buffer xp) 1 2 = Some [l1, l2]" by (simp add: buf buf_copyout_def)
  have move: "buf_moveout_buffer (xp_frame_buffer xp) (xp_buffer xp) (1 + 2) (length x) = Some (xp_frame_buffer xp @ x, b)"
    using assms(2) by (simp add: buf buf_moveout_buffer_def)
  have "pipe_frame_data (length x) xp = Some (Break, xp\<lparr>xp_buffer := b, xp_frame_buffer := xp_frame_buffer xp @ x\<rparr>)"
    using move assms(2,3) by (simp add: pipe_frame_data_def buf)
  then have "pipe_frame xp = Some (Break, xp\<lparr>xp_buffer := b, xp_frame_buffer := xp_frame_buffer xp @ x\<rparr>)"
    using copy v assms(4) by (auto simp: pipe_frame_def buf)
  then show ?thesis by (simp add: pipe_op_def buf buf_peek_def pipe_ops)
qed

lemma pipe_step_Frame:
  assumes s: "streaming sync U uuid (x # xs) xp data" and b: "xp_buffer xp = wire_bytes (Frame x) @ b"
  obtains out data' xp' where "pipe_step valid xp = Some (Break, xp')" "xp_buffer xp' = b" "data = out @ data'"
    "streaming sync U uuid xs xp' data'" "decoded xp' = decoded xp @ out" "sync \<longrightarrow> answered xp' = answered xp"
    "flags xp' = flags xp"
proof -
  let ?x = "xp\<lparr>xp_buffer := b, xp_frame_buffer := xp_frame_buffer xp @ x\<rparr>"
  obtain d c where d: "xp_decoder_cache xp = Some uuid" "xp_decoder xp = Some d" "xp_caches xp uuid = Some c"
      "stream_left sync U (d\<lparr>xd_cache := c\<rparr>) (xp_frame_buffer xp @ x @ concat xs) data"
      "stopped U (d\<lparr>xd_cache := c\<rparr>) (xp_frame_buffer xp) (xp_unknown_hashes xp)" "sync \<longrightarrow> xp_unknown_hashes xp = {}"
    using s by (auto simp: streaming_def receiving_def)
  have x: "x \<noteq> []" "length x \<le> XCODEC_PIPE_MAX_FRAME" "framed xs" using s by (auto simp: streaming_def framed_def)
  have op: "pipe_op valid xp = Some (Break, ?x)" by (rule pipe_op_Frame [OF b x(1,2)]) (simp add: d)
  have ok: "pipes_ok ?x" and eos: "\<not> xp_sent_eos ?x" using s by (simp_all add: streaming_def pipes_ok_def)
  show ?thesis
  proof (cases "xp_unknown_hashes xp = {}")
    case True
    have sl: "stream_left sync U (d\<lparr>xd_cache := c\<rparr>) (xp_frame_buffer ?x @ concat xs) data" using d(4) by simp
    have h: "xp_decoder_cache ?x = Some uuid" "xp_decoder ?x = Some d" "xp_caches ?x uuid = Some c" "xp_unknown_hashes ?x = {}"
      "xp_frame_buffer ?x \<noteq> []" using d True x(1) by simp_all
    obtain out data' xp' where r: "pipe_decode ?x = Some (Break, xp')" "data = out @ data'"
      "receiving sync U uuid (concat xs) xp' data'" "flags xp' = flags ?x" "xp_buffer xp' = xp_buffer ?x" "pipes_ok xp'"
      "decoded xp' = decoded ?x @ out" "answered xp' = answered ?x @ ask_bytes (xp_unknown_hashes xp')"
      "\<forall>u. u \<noteq> uuid \<longrightarrow> xp_caches xp' u = xp_caches ?x u"
      "\<forall>h r. next_token (xp_frame_buffer ?x) = Some (Ref h, r) \<and> cache_lookup c h \<noteq> None \<longrightarrow> out \<noteq> []"
      by (rule pipe_decode_ok [OF h(1-3) sl h(4) ok h(5) eos])
    have "pipe_step valid xp = Some (Break, xp')" using op r(1) by (simp add: pipe_step_def)
    moreover have "streaming sync U uuid xs xp' data'"
      using s r(3,4,6,8) x(3) by (auto simp: streaming_def flags_def asked_def)
    moreover have "sync \<longrightarrow> answered xp' = answered xp" using r(3,8) by (auto simp: receiving_def answered_def)
    ultimately show ?thesis using r(2,4,5,7) by (intro that [of xp' out data']) (simp_all add: decoded_def flags_def)
  next
    case False
    then have "stopped U (d\<lparr>xd_cache := c\<rparr>) (xp_frame_buffer xp @ x) (xp_unknown_hashes xp)"
      using d(5) by (auto simp: stopped_def dest: next_token_append)
    then have "receiving sync U uuid (concat xs) ?x data" using d by (simp add: receiving_def)
    then have "streaming sync U uuid xs ?x data" using s x(3) ok by (auto simp: streaming_def asked_def answered_def)
    moreover have "pipe_step valid xp = Some (Break, ?x)" using op False x(1) by (simp add: pipe_step_def pipe_decode_def)
    ultimately show ?thesis by (intro that [of ?x "[]" data]) (simp_all add: decoded_def answered_def flags_def)
  qed
qed

lemma next_token_Nil [simp]: "next_token [] = None"
  by (simp add: next_token_def)

lemma pipe_op_Eos:
  assumes "xp_buffer xp = wire_bytes Eos @ b" and "\<not> xp_received_eos xp"
  shows "pipe_op valid xp = Some (Break, xp\<lparr>xp_buffer := b, xp_received_eos := True\<rparr>)"
proof -
  have "buf_peek (xp_buffer xp) = Some XCODEC_PIPE_OP_EOS" "buf_skip 1 (xp_buffer xp) = Some b"
    using assms(1) by (simp_all add: buf_peek_def buf_skip_def)
  then show ?thesis using assms(2) by (simp add: pipe_op_def pipe_eos_def pipe_ops)
qed

text \<open>At the end of the stream nothing is left, or a REF is being asked for.\<close>

lemma pipe_step_Eos:
  assumes s: "streaming sync U uuid [] xp data" and b: "xp_buffer xp = wire_bytes Eos @ b"
  obtains xp' where "pipe_step valid xp = Some (Break, xp')" "xp_buffer xp' = b"
    "ended sync U uuid xp' data" "decoded xp' = decoded xp"
    "xp_unknown_hashes xp' = {} \<longrightarrow> answered xp' = answered xp @ [XCODEC_PIPE_OP_EOS_ACK] \<and> xp_encoder_sent_eos_ack xp'"
    "xp_unknown_hashes xp' \<noteq> {} \<longrightarrow> answered xp' = answered xp \<and> \<not> xp_encoder_sent_eos_ack xp'"
    "xp_encoder_sent_eos xp' = xp_encoder_sent_eos xp"
proof -
  let ?x = "xp\<lparr>xp_buffer := b, xp_received_eos := True\<rparr>"
  obtain d c where d: "xp_decoder_cache xp = Some uuid" "xp_decoder xp = Some d" "xp_caches xp uuid = Some c"
      "stream_left sync U (d\<lparr>xd_cache := c\<rparr>) (xp_frame_buffer xp) data"
      "stopped U (d\<lparr>xd_cache := c\<rparr>) (xp_frame_buffer xp) (xp_unknown_hashes xp)" "sync \<longrightarrow> xp_unknown_hashes xp = {}"
    using s by (auto simp: streaming_def receiving_def)
  have op: "pipe_op valid xp = Some (Break, ?x)" by (rule pipe_op_Eos [OF b]) (use s in \<open>simp add: streaming_def\<close>)
  have left: "xp_frame_buffer xp = [] \<longleftrightarrow> xp_unknown_hashes xp = {}"
    using stream_left_complete [OF d(4)] d(5) by (cases "xp_frame_buffer xp = []") (auto simp: stopped_def)
  have ok: "pipes_ok ?x" using s by (simp add: streaming_def pipes_ok_def)
  show ?thesis
  proof (cases "xp_frame_buffer xp = []")
    case True
    obtain p where p: "encoder_produce [XCODEC_PIPE_OP_EOS_ACK] ?x = Some (?x\<lparr>xp_encoder_pipe := p\<rparr>)" "pipes_ok (?x\<lparr>xp_encoder_pipe := p\<rparr>)"
        "undelivered p = answered ?x @ [XCODEC_PIPE_OP_EOS_ACK]"
      by (rule encoder_produce_ok [OF ok, of "[XCODEC_PIPE_OP_EOS_ACK]"]) simp_all
    let ?y = "?x\<lparr>xp_encoder_pipe := p, xp_encoder_sent_eos_ack := True\<rparr>"
    have "pipe_step valid xp = Some (Break, ?y)"
      using op p(1) True s by (simp add: pipe_step_def pipe_decode_def pipe_send_eos_ack_def streaming_def)
    moreover have "pipes_ok ?y" using p(2) by (simp add: pipes_ok_def)
    ultimately show ?thesis using s p(3) True left
      by (intro that [of ?y]) (simp_all add: streaming_def ended_def receiving_def decoded_def answered_def)
  next
    case False
    have "pipe_step valid xp = Some (Break, ?x)" using op False left by (simp add: pipe_step_def pipe_decode_def)
    then show ?thesis using s ok False left
      by (intro that [of ?x]) (auto simp: streaming_def ended_def receiving_def decoded_def answered_def asked_def)
  qed
qed

text \<open>Before <HELLO>: the cache for the peer's UUID, a new one when it is not known.\<close>

definition peer_cache :: "bytes \<Rightarrow> xcodec_pipe_pair \<Rightarrow> xcodec_cache" where
  "peer_cache uuid xp = (case xp_caches xp uuid of None \<Rightarrow> XCodecMemoryCache Map.empty | Some c \<Rightarrow> c)"

definition connecting :: "bool \<Rightarrow> (u64 \<rightharpoonup> bytes) \<Rightarrow> bytes \<Rightarrow> bytes list \<Rightarrow> xcodec_pipe_pair \<Rightarrow> bytes \<Rightarrow> bool" where
  "connecting sync U uuid xs xp data \<longleftrightarrow> xp_decoder xp = None \<and> xp_decoder_cache xp = None \<and>
     xp_unknown_hashes xp = {} \<and> xp_frame_buffer xp = [] \<and> length uuid = UUID_SIZE \<and>
     stream_left sync U (decoder_new (peer_cache uuid xp)) (concat xs) data \<and> pipes_ok xp \<and> framed xs \<and>
     \<not> xp_received_eos xp \<and> \<not> xp_received_eos_ack xp \<and> \<not> xp_sent_eos xp \<and> \<not> xp_encoder_sent_eos_ack xp"

lemma decoder_new_cache [simp]: "decoder_new c\<lparr>xd_cache := c'\<rparr> = decoder_new c'"
  by (simp add: decoder_new_def)

lemma uuid_decode_all: "length uuid = UUID_SIZE \<Longrightarrow> valid uuid \<Longrightarrow> uuid_decode valid uuid = Some (True, uuid, [])"
  by (simp add: uuid_decode_def buf_moveout_bytes_def UUID_SIZE_def)

lemma pipe_op_Hello:
  assumes b: "xp_buffer xp = wire_bytes (Hello uuid) @ b" and u: "length uuid = UUID_SIZE" "valid uuid"
    and "xp_decoder_cache xp = None" "xp_decoder xp = None"
  shows "pipe_op valid xp = Some (Break, xp\<lparr>xp_buffer := b, xp_caches := (xp_caches xp)(uuid \<mapsto> peer_cache uuid xp),
    xp_decoder_cache := Some uuid, xp_decoder := Some (decoder_new (peer_cache uuid xp))\<rparr>)"
proof -
  have len: "length uuid = 36" using u by (simp add: UUID_SIZE_def)
  have op: "buf_peek (xp_buffer xp) = Some XCODEC_PIPE_OP_HELLO" using b by (simp add: buf_peek_def)
  have copy: "buf_copyout (xp_buffer xp) 1 1 = Some [36]" using b len by (simp add: buf_copyout_def)
  have long: "\<not> length (xp_buffer xp) < 1 + 1 + 36" "\<not> length (xp_buffer xp) < 1 + 1" using b len by simp_all
  have move: "buf_moveout_buffer [] (xp_buffer xp) (1 + 1) UUID_SIZE = Some (uuid, b)"
    using b len by (simp add: buf_moveout_buffer_def UUID_SIZE_def)
  show ?thesis
    using op copy long move uuid_decode_all [of uuid valid] u assms(4,5)
    by (cases "xp_caches xp uuid") (simp_all add: pipe_op_def pipe_hello_def cache_map_lookup_def cache_map_enter_def
        peer_cache_def Let_def UUID_SIZE_def map_upd_triv)
qed

lemma pipe_step_Hello:
  assumes s: "connecting sync U uuid xs xp data" and "valid uuid" and b: "xp_buffer xp = wire_bytes (Hello uuid) @ b"
  obtains xp' where "pipe_step valid xp = Some (Break, xp')" "xp_buffer xp' = b"
    "streaming sync U uuid xs xp' data" "decoded xp' = decoded xp" "answered xp' = answered xp" "flags xp' = flags xp"
proof -
  let ?x = "xp\<lparr>xp_buffer := b, xp_caches := (xp_caches xp)(uuid \<mapsto> peer_cache uuid xp),
    xp_decoder_cache := Some uuid, xp_decoder := Some (decoder_new (peer_cache uuid xp))\<rparr>"
  have "pipe_op valid xp = Some (Break, ?x)" by (rule pipe_op_Hello [OF b]) (use s assms(2) in \<open>simp_all add: connecting_def\<close>)
  then have "pipe_step valid xp = Some (Break, ?x)"
    using s by (simp add: pipe_step_def pipe_decode_def pipe_send_eos_ack_def connecting_def)
  then show ?thesis using s
    by (intro that [of ?x]) (simp_all add: connecting_def streaming_def receiving_def stopped_def pipes_ok_def asked_def
        next_token_def decoded_def answered_def flags_def)
qed

text \<open>A message of which only a part has arrived is left in the buffer.\<close>

lemma pipe_step_part_Hello:
  assumes "wire_bytes (Hello uuid) = xp_buffer xp @ q" "xp_buffer xp \<noteq> []" "q \<noteq> []"
    and "length uuid = UUID_SIZE" "xp_decoder_cache xp = None"
  shows "pipe_step valid xp = Some (Leave, xp)"
proof -
  have op: "buf_peek (xp_buffer xp) = Some XCODEC_PIPE_OP_HELLO" using assms(1,2) by (cases "xp_buffer xp") (simp_all add: buf_peek_def)
  have "pipe_hello valid xp = Some (Leave, xp)"
  proof (cases "length (xp_buffer xp) < 2")
    case False
    then obtain a b r where buf: "xp_buffer xp = a # b # r" by (cases "xp_buffer xp"; cases "tl (xp_buffer xp)") auto
    then have "b = 36" "length r < 36" using assms(1,3,4) by (auto simp: UUID_SIZE_def neq_Nil_conv)
    then show ?thesis using assms(5) buf by (simp add: pipe_hello_def buf_copyout_def)
  qed (use assms(5) in \<open>simp add: pipe_hello_def\<close>)
  then show ?thesis using op by (simp add: pipe_step_def pipe_op_def)
qed

lemma pipe_step_part_Frame:
  assumes "wire_bytes (Frame x) = xp_buffer xp @ q" "xp_buffer xp \<noteq> []" "q \<noteq> []"
    and "x \<noteq> []" "length x \<le> XCODEC_PIPE_MAX_FRAME" "xp_decoder xp \<noteq> None"
  shows "pipe_step valid xp = Some (Leave, xp)"
proof -
  have op: "buf_peek (xp_buffer xp) = Some XCODEC_PIPE_OP_FRAME" using assms(1,2) by (cases "xp_buffer xp") (simp_all add: buf_peek_def)
  have frame: "pipe_frame xp = Some (Leave, xp)"
  proof (cases "length (xp_buffer xp) < 1 + 2")
    case False
    then have "take (1 + 2) (wire_bytes (Frame x)) = take (1 + 2) (xp_buffer xp)" using assms(1) by simp
    then have "take 3 (xp_buffer xp) = XCODEC_PIPE_OP_FRAME # be16 (of_nat (length x))" by (simp add: numeral_3_eq_3)
    then have "take 2 (drop 1 (xp_buffer xp)) = be16 (of_nat (length x))" by (simp add: take_drop)
    then have copy: "buf_copyout (xp_buffer xp) 1 2 = Some (be16 (of_nat (length x)))"
      using False by (simp add: buf_copyout_def)
    have "length (wire_bytes (Frame x)) = length (xp_buffer xp) + length q" using assms(1) by simp
    then have "length (xp_buffer xp) < 1 + 2 + length x" using assms(3) by (simp add: neq_Nil_conv)
    then have "pipe_frame_data (length x) xp = Some (Leave, xp)" using assms(4,5) by (simp add: pipe_frame_data_def)
    then show ?thesis using False copy assms(6) unat_frame_length [OF assms(5)] by (auto simp: pipe_frame_def be16.dec_enc)
  qed (use assms(6) in \<open>auto simp: pipe_frame_def\<close>)
  show ?thesis using op frame by (simp add: pipe_step_def pipe_op_def pipe_ops)
qed

section \<open>The receiver, any part of the stream\<close>

definition awaits :: "bool \<Rightarrow> (u64 \<rightharpoonup> bytes) \<Rightarrow> bytes \<Rightarrow> wire list \<Rightarrow> xcodec_pipe_pair \<Rightarrow> bytes \<Rightarrow> bool" where
  "awaits sync U uuid ms xp data \<longleftrightarrow>
     (\<exists>xs. ms = Hello uuid # map Frame xs @ [Eos] \<and> connecting sync U uuid xs xp data) \<or>
     (\<exists>xs. ms = map Frame xs @ [Eos] \<and> streaming sync U uuid xs xp data) \<or>
     (ms = [] \<and> ended sync U uuid xp data)"

text \<open>What is sent back while the messages are read.\<close>

definition replies :: "bool \<Rightarrow> wire list \<Rightarrow> xcodec_pipe_pair \<Rightarrow> xcodec_pipe_pair \<Rightarrow> bool" where
  "replies sync ms xp xp' \<longleftrightarrow> xp_encoder_sent_eos xp' = xp_encoder_sent_eos xp \<and>
     (sync \<longrightarrow> answered xp' = answered xp @ concat (map (\<lambda>m. if m = Eos then [XCODEC_PIPE_OP_EOS_ACK] else []) ms))"

lemma replies_trans: "replies sync ms xp xp1 \<Longrightarrow> replies sync ms' xp1 xp2 \<Longrightarrow> replies sync (ms @ ms') xp xp2"
  by (auto simp: replies_def)

lemma awaits_part:
  assumes "awaits sync U uuid (m # ms) xp data" "wire_bytes m = xp_buffer xp @ q" "xp_buffer xp \<noteq> []" "q \<noteq> []"
  shows "pipe_step valid xp = Some (Leave, xp)"
proof -
  consider (hello) "m = Hello uuid" "length uuid = UUID_SIZE" "xp_decoder_cache xp = None"
    | (frame) x where "m = Frame x" "x \<noteq> []" "length x \<le> XCODEC_PIPE_MAX_FRAME" "xp_decoder xp \<noteq> None"
    | (eos) "m = Eos"
    using assms(1) by (auto simp: awaits_def connecting_def streaming_def receiving_def framed_def Cons_eq_append_conv)
  then show ?thesis
  proof cases
    case hello
    then show ?thesis using assms pipe_step_part_Hello by blast
  next
    case frame
    then show ?thesis using assms pipe_step_part_Frame by blast
  qed (use assms in \<open>auto simp: Cons_eq_append_conv\<close>)
qed

lemma awaits_step:
  assumes "awaits sync U uuid (m # ms) xp data" "valid uuid" "xp_buffer xp = wire_bytes m @ b"
  obtains out data' xp' where "pipe_step valid xp = Some (Break, xp')" "xp_buffer xp' = b" "data = out @ data'"
    "awaits sync U uuid ms xp' data'" "decoded xp' = decoded xp @ out" "replies sync [m] xp xp'"
proof -
  consider (hello) xs where "m = Hello uuid" "ms = map Frame xs @ [Eos]" "connecting sync U uuid xs xp data"
    | (frame) x xs where "m = Frame x" "ms = map Frame xs @ [Eos]" "streaming sync U uuid (x # xs) xp data"
    | (eos) "m = Eos" "ms = []" "streaming sync U uuid [] xp data"
    using assms(1) by (auto simp: awaits_def Cons_eq_append_conv Cons_eq_map_conv)
  then show ?thesis
  proof cases
    case hello
    obtain xp' where "pipe_step valid xp = Some (Break, xp')" "xp_buffer xp' = b"
        "streaming sync U uuid xs xp' data" "decoded xp' = decoded xp" "answered xp' = answered xp" "flags xp' = flags xp"
      by (rule pipe_step_Hello [OF hello(3), where valid = valid]) (use assms hello(1) in simp_all)
    then show ?thesis using hello by (intro that [of xp' "[]" data]) (auto simp: awaits_def replies_def flags_def)
  next
    case frame
    obtain out data' xp' where "pipe_step valid xp = Some (Break, xp')" "xp_buffer xp' = b" "data = out @ data'"
        "streaming sync U uuid xs xp' data'" "decoded xp' = decoded xp @ out" "sync \<longrightarrow> answered xp' = answered xp" "flags xp' = flags xp"
      by (rule pipe_step_Frame [OF frame(3) assms(3) [unfolded frame(1)]])
    then show ?thesis using frame by (intro that [of xp' out data']) (auto simp: awaits_def replies_def flags_def)
  next
    case eos
    obtain xp' where x: "pipe_step valid xp = Some (Break, xp')" "xp_buffer xp' = b"
        "ended sync U uuid xp' data" "decoded xp' = decoded xp"
        "xp_unknown_hashes xp' = {} \<longrightarrow> answered xp' = answered xp @ [XCODEC_PIPE_OP_EOS_ACK] \<and> xp_encoder_sent_eos_ack xp'"
        "xp_unknown_hashes xp' \<noteq> {} \<longrightarrow> answered xp' = answered xp \<and> \<not> xp_encoder_sent_eos_ack xp'"
        "xp_encoder_sent_eos xp' = xp_encoder_sent_eos xp"
      by (rule pipe_step_Eos [OF eos(3) assms(3) [unfolded eos(1)]])
    moreover have "sync \<longrightarrow> xp_unknown_hashes xp' = {}" using x(3) by (simp add: ended_def receiving_def)
    ultimately show ?thesis using eos by (intro that [of xp' "[]" data]) (auto simp: awaits_def replies_def)
  qed
qed

lemma decoder_loop_part:
  assumes "awaits sync U uuid ms xp data" "valid uuid" "xp_buffer xp @ q = wires_bytes ms"
  shows "\<exists>ms1 ms2 ex xp' out data'. decoder_loop valid xp = Some (ex, xp') \<and> ms = ms1 @ ms2 \<and> data = out @ data' \<and>
    awaits sync U uuid ms2 xp' data' \<and> decoded xp' = decoded xp @ out \<and> replies sync ms1 xp xp' \<and>
    xp_buffer xp' @ q = wires_bytes ms2 \<and> (if ex = Break then xp_buffer xp' = [] else q \<noteq> [])"
  using assms
proof (induction ms arbitrary: xp data)
  case Nil
  then have "decoder_loop valid xp = Some (Break, xp)" by (simp add: decoder_loop.simps)
  then show ?case using Nil by (auto simp: replies_def)
next
  case (Cons m ms)
  consider (none) "xp_buffer xp = []"
    | (part) q' where "xp_buffer xp \<noteq> []" "wire_bytes m = xp_buffer xp @ q'" "q' \<noteq> []"
    | (whole) b where "xp_buffer xp = wire_bytes m @ b" "b @ q = wires_bytes ms"
    using Cons.prems(3) by (auto simp: append_eq_append_conv2) (metis append_Nil2)
  then show ?case
  proof cases
    case none
    then have "decoder_loop valid xp = Some (Break, xp)" by (simp add: decoder_loop.simps)
    moreover have "replies sync [] xp xp" by (simp add: replies_def)
    ultimately show ?thesis using Cons.prems none
      by - (rule exI [of _ "[]"], rule exI [of _ "m # ms"], auto)
  next
    case part
    then have "decoder_loop valid xp = Some (Leave, xp)"
      using awaits_part [OF Cons.prems(1) part(2,1,3)] by (simp add: decoder_loop.simps)
    moreover have "replies sync [] xp xp" "q \<noteq> []" using Cons.prems(3) part by (auto simp: replies_def)
    ultimately show ?thesis using Cons.prems
      by - (rule exI [of _ "[]"], rule exI [of _ "m # ms"], auto)
  next
    case whole
    obtain out data1 xp1 where s: "pipe_step valid xp = Some (Break, xp1)" "xp_buffer xp1 = b" "data = out @ data1"
        "awaits sync U uuid ms xp1 data1" "decoded xp1 = decoded xp @ out" "replies sync [m] xp xp1"
      by (rule awaits_step [OF Cons.prems(1) _ whole(1), of valid, OF Cons.prems(2)])
    have b: "xp_buffer xp1 @ q = wires_bytes ms" using s(2) whole(2) by simp
    obtain ms1 ms2 ex xp' out' data' where r: "decoder_loop valid xp1 = Some (ex, xp')" "ms = ms1 @ ms2" "data1 = out' @ data'"
        "awaits sync U uuid ms2 xp' data'" "decoded xp' = decoded xp1 @ out'" "replies sync ms1 xp1 xp'"
        "xp_buffer xp' @ q = wires_bytes ms2" "if ex = Break then xp_buffer xp' = [] else q \<noteq> []"
      using Cons.IH [OF s(4) Cons.prems(2) b] by blast
    have "decoder_loop valid xp = Some (ex, xp')" using s(1) r(1) whole(1) by (simp add: decoder_loop.simps [of valid xp])
    moreover have "replies sync ([m] @ ms1) xp xp'" by (rule replies_trans [OF s(6) r(6)])
    ultimately show ?thesis using r s(3,5)
      by - (rule exI [of _ "m # ms1"], rule exI [of _ ms2], auto)
  qed
qed

text \<open>The end of the stream has been read: all data is out, or a segment is being asked for.\<close>

definition over :: "bool \<Rightarrow> (u64 \<rightharpoonup> bytes) \<Rightarrow> bytes \<Rightarrow> xcodec_pipe_pair \<Rightarrow> bytes \<Rightarrow> bool" where
  "over sync U uuid xp data \<longleftrightarrow> receiving sync U uuid [] xp data \<and> xp_received_eos xp \<and> xp_buffer xp = [] \<and>
     \<not> xp_received_eos_ack xp \<and>
     (if xp_unknown_hashes xp = {} then data = [] \<and> xp_frame_buffer xp = [] \<and> xp_sent_eos xp \<and> pp_output_eos (xp_decoder_pipe xp)
      else pipes_ok xp \<and> asked xp \<and> \<not> xp_sent_eos xp)"

lemma decoder_produce_eos_ok:
  assumes "pipes_ok xp"
  obtains p where "decoder_produce_eos xp = Some (xp\<lparr>xp_decoder_pipe := p\<rparr>)" "pp_output_eos p" "undelivered p = decoded xp"
proof -
  have "pipe_wf (xp_decoder_pipe xp)" "\<not> pp_error (xp_decoder_pipe xp)" "\<not> pp_output_eos (xp_decoder_pipe xp)"
    using assms by (simp_all add: pipes_ok_def producer_ok_def)
  then obtain p where "produce_eos None (xp_decoder_pipe xp) = Some p" "pp_output_eos p" "undelivered p = undelivered (xp_decoder_pipe xp)"
    by (rule produce_eos_ok)
  then show ?thesis by (intro that [of p]) (simp_all add: decoder_produce_eos_def decoded_def)
qed

end
