(* ===== verification/XCodec_Transfer.thy ===== *)
theory XCodec_Transfer
  imports XCodec_Peer
begin

text \<open>
  Whole streams between two XCodecPipePairs: what \<^verbatim>\<open>encoder_consume\<close> sends for a sequence of
  buffers, what \<^verbatim>\<open>decoder_consume\<close> delivers of it in any chunks, and the <ASK>/<LEARN>
  exchange for a segment that the receiver does not have.
\<close>

section \<open>A chunk of the stream\<close>

primrec consume_chunks :: "(bytes \<Rightarrow> bool) \<Rightarrow> bytes list \<Rightarrow> xcodec_pipe_pair \<Rightarrow> xcodec_pipe_pair option" where
  "consume_chunks valid [] xp = Some xp"
| "consume_chunks valid (c # cs) xp = do { xp \<leftarrow> decoder_consume valid c xp; consume_chunks valid cs xp }"

lemma finish_awaits:
  assumes "awaits sync U uuid ms xp data" "ms \<noteq> []"
  shows "decoder_finish_eos xp = Some xp" "decoder_finish_ack xp = Some xp"
  using assms by (auto simp: awaits_def connecting_def streaming_def decoder_finish_eos_def decoder_finish_ack_def)

text \<open>The code after the loop, at the end of the stream.\<close>

lemma finish_received:
  assumes "receiving sync U uuid [] xp data" "pipes_ok xp" "xp_received_eos xp" "\<not> xp_received_eos_ack xp" "\<not> xp_sent_eos xp"
    "xp_buffer xp = []" "xp_unknown_hashes xp \<noteq> {} \<longrightarrow> asked xp"
  obtains xp' where "decoder_finish_eos xp = Some xp'" "decoder_finish_ack xp' = Some xp'" "over sync U uuid xp' data"
    "decoded xp' = decoded xp" "answered xp' = answered xp" "xp_unknown_hashes xp' = xp_unknown_hashes xp"
    "xp_encoder_sent_eos_ack xp' = xp_encoder_sent_eos_ack xp" "xp_encoder_sent_eos xp' = xp_encoder_sent_eos xp"
proof -
  obtain d c where d: "xp_decoder_cache xp = Some uuid" "xp_decoder xp = Some d" "xp_caches xp uuid = Some c"
      "stream_left sync U (d\<lparr>xd_cache := c\<rparr>) (xp_frame_buffer xp) data"
      "stopped U (d\<lparr>xd_cache := c\<rparr>) (xp_frame_buffer xp) (xp_unknown_hashes xp)"
    using assms(1) by (auto simp: receiving_def)
  have left: "xp_frame_buffer xp = [] \<longleftrightarrow> xp_unknown_hashes xp = {}"
    using stream_left_complete [OF d(4)] d(5) by (cases "xp_frame_buffer xp = []") (auto simp: stopped_def)
  show ?thesis
  proof (cases "xp_unknown_hashes xp = {}")
    case True
    then have data: "data = []" using left d(4) by (simp add: stream_left_nil)
    obtain p where p: "decoder_produce_eos xp = Some (xp\<lparr>xp_decoder_pipe := p\<rparr>)" "pp_output_eos p" "undelivered p = decoded xp"
      by (rule decoder_produce_eos_ok [OF assms(2)])
    let ?x = "xp\<lparr>xp_decoder_pipe := p, xp_sent_eos := True\<rparr>"
    have fin: "decoder_finish_eos xp = Some ?x" "decoder_finish_ack ?x = Some ?x"
      using p(1) True left assms by (simp_all add: decoder_finish_eos_def decoder_finish_ack_def)
    have over: "over sync U uuid ?x data" using assms True left data p(2) by (simp add: over_def receiving_def)
    show ?thesis by (rule that [OF fin over]) (simp_all add: decoded_def answered_def p(3))
  next
    case False
    then have "decoder_finish_eos xp = Some xp" "decoder_finish_ack xp = Some xp" "over sync U uuid xp data"
      using left assms by (simp_all add: decoder_finish_eos_def decoder_finish_ack_def over_def)
    then show ?thesis by (rule that) simp_all
  qed
qed

definition acknowledged :: "xcodec_pipe_pair \<Rightarrow> bool" where
  "acknowledged xp \<longleftrightarrow> (xp_encoder_sent_eos_ack xp \<longleftrightarrow> xp_unknown_hashes xp = {})"

text \<open>After a chunk the rest of the stream is awaited, or it is over.\<close>

lemma consume_chunk:
  assumes a: "awaits sync U uuid ms xp data" "valid uuid" and b: "xp_buffer xp @ c @ q = wires_bytes ms" and c: "c \<noteq> []"
  obtains ms1 ms2 xp' out data' where "decoder_consume valid c xp = Some xp'" "ms = ms1 @ ms2" "data = out @ data'"
    "decoded xp' = decoded xp @ out" "replies sync ms1 xp xp'" "xp_buffer xp' @ q = wires_bytes ms2"
    "if q = [] then over sync U uuid xp' data' \<and> acknowledged xp' \<and> ms2 = [] else awaits sync U uuid ms2 xp' data' \<and> ms2 \<noteq> []"
proof -
  let ?x = "xp\<lparr>xp_buffer := xp_buffer xp @ c\<rparr>"
  have x: "awaits sync U uuid ms ?x data" "xp_buffer ?x @ q = wires_bytes ms"
    using a(1) b by (auto simp: awaits_def connecting_def streaming_def ended_def receiving_def pipes_ok_def asked_def answered_def peer_cache_def)
  obtain ms1 ms2 ex xp1 out data' where l: "decoder_loop valid ?x = Some (ex, xp1)" "ms = ms1 @ ms2" "data = out @ data'"
      "awaits sync U uuid ms2 xp1 data'" "decoded xp1 = decoded ?x @ out" "replies sync ms1 ?x xp1"
      "xp_buffer xp1 @ q = wires_bytes ms2" "if ex = Break then xp_buffer xp1 = [] else q \<noteq> []"
    using decoder_loop_part [OF x(1) _ x(2), of valid] a(2) by blast
  have r: "decoded xp1 = decoded xp @ out" "replies sync ms1 xp xp1" using l(5,6) by (simp_all add: decoded_def replies_def answered_def)
  show ?thesis
  proof (cases "q = []")
    case False
    then have ms2: "ms2 \<noteq> []" using l(7) by auto
    then have "decoder_consume valid c xp = Some xp1"
      using l(1) c finish_awaits [OF l(4)] by (cases ex) (simp_all add: decoder_consume_def)
    then show ?thesis using that [OF _ l(2,3) r l(7)] l(4) False ms2 by simp
  next
    case True
    then have e: "ex = Break" "xp_buffer xp1 = []" using l(8) by (cases ex; simp)+
    then have ms2: "ms2 = []" using l(7) True by (cases ms2) simp_all
    then have en: "ended sync U uuid xp1 data'" using l(4) by (simp add: awaits_def)
    obtain xp' where f: "decoder_finish_eos xp1 = Some xp'" "decoder_finish_ack xp' = Some xp'" "over sync U uuid xp' data'"
      "decoded xp' = decoded xp1" "answered xp' = answered xp1" "xp_unknown_hashes xp' = xp_unknown_hashes xp1"
      "xp_encoder_sent_eos_ack xp' = xp_encoder_sent_eos_ack xp1" "xp_encoder_sent_eos xp' = xp_encoder_sent_eos xp1"
      by (rule finish_received [of sync U uuid xp1 data']) (use en e(2) in \<open>simp_all add: ended_def\<close>)
    have "decoder_consume valid c xp = Some xp'" using l(1) e(1) f(1,2) c by (simp add: decoder_consume_def)
    moreover have "replies sync ms1 xp xp'" "decoded xp' = decoded xp @ out" using r f(4,5,8) by (simp_all add: replies_def)
    moreover have "acknowledged xp'" using en f(6,7) by (simp add: acknowledged_def ended_def)
    moreover have "xp_buffer xp' @ q = wires_bytes ms2" using f(3) True ms2 by (simp add: over_def)
    ultimately show ?thesis using that l(2,3) f(3) True ms2 by simp
  qed
qed

lemma consume_chunks_part:
  assumes "awaits sync U uuid ms xp data" "ms \<noteq> []" "valid uuid" "xp_buffer xp @ concat cs @ q = wires_bytes ms" "\<forall>c\<in>set cs. c \<noteq> []" "cs \<noteq> []"
  shows "\<exists>ms1 ms2 xp' out data'. consume_chunks valid cs xp = Some xp' \<and> ms = ms1 @ ms2 \<and> data = out @ data' \<and>
    decoded xp' = decoded xp @ out \<and> replies sync ms1 xp xp' \<and>
    (if q = [] then over sync U uuid xp' data' \<and> acknowledged xp' \<and> ms2 = [] else awaits sync U uuid ms2 xp' data')"
  using assms
proof (induction cs arbitrary: ms xp data)
  case Nil
  then show ?case by blast
next
  case (Cons c cs)
  have b: "xp_buffer xp @ c @ concat cs @ q = wires_bytes ms" "c \<noteq> []" using Cons.prems(4,5) by simp_all
  obtain ms1 ms2 xp1 out data1 where s: "decoder_consume valid c xp = Some xp1" "ms = ms1 @ ms2" "data = out @ data1"
    "decoded xp1 = decoded xp @ out" "replies sync ms1 xp xp1" "xp_buffer xp1 @ concat cs @ q = wires_bytes ms2"
    "if concat cs @ q = [] then over sync U uuid xp1 data1 \<and> acknowledged xp1 \<and> ms2 = [] else awaits sync U uuid ms2 xp1 data1 \<and> ms2 \<noteq> []"
    by (rule consume_chunk [OF Cons.prems(1) _ b, of valid, OF Cons.prems(3)])
  show ?case
  proof (cases "cs = []")
    case True
    then have w: "consume_chunks valid (c # cs) xp = Some xp1"
      "if q = [] then over sync U uuid xp1 data1 \<and> acknowledged xp1 \<and> ms2 = [] else awaits sync U uuid ms2 xp1 data1"
      using s(1,7) by (cases "q = []"; simp)+
    from conjI [OF w(1) conjI [OF s(2) conjI [OF s(3) conjI [OF s(4) conjI [OF s(5) w(2)]]]]]
    show ?thesis by (intro exI)
  next
    case False
    then have "concat cs \<noteq> []" using Cons.prems(5) by (cases cs) auto
    then have a: "awaits sync U uuid ms2 xp1 data1" "ms2 \<noteq> []" using s(7) by (simp_all split: if_splits)
    have ne: "\<forall>c\<in>set cs. c \<noteq> []" using Cons.prems(5) by simp
    obtain ms1' ms2' xp' out' data' where r: "consume_chunks valid cs xp1 = Some xp'" "ms2 = ms1' @ ms2'" "data1 = out' @ data'"
      "decoded xp' = decoded xp1 @ out'" "replies sync ms1' xp1 xp'"
      "if q = [] then over sync U uuid xp' data' \<and> acknowledged xp' \<and> ms2' = [] else awaits sync U uuid ms2' xp' data'"
      using Cons.IH [OF a Cons.prems(3) s(6) ne False] by blast
    have w: "consume_chunks valid (c # cs) xp = Some xp'" "ms = (ms1 @ ms1') @ ms2'" "data = (out @ out') @ data'"
      "decoded xp' = decoded xp @ (out @ out')" using s(1-4) r(1-4) by simp_all
    have "replies sync (ms1 @ ms1') xp xp'" by (rule replies_trans [OF s(5) r(5)])
    from conjI [OF w(1) conjI [OF w(2) conjI [OF w(3) conjI [OF w(4) conjI [OF this r(6)]]]]]
    show ?thesis by (intro exI)
  qed
qed

section \<open>The sender\<close>

primrec encoder_consume_all :: "bytes list list \<Rightarrow> xcodec_pipe_pair \<Rightarrow> xcodec_pipe_pair option" where
  "encoder_consume_all [] xp = Some xp"
| "encoder_consume_all (buf # bufs) xp = do { xp \<leftarrow> encoder_consume buf xp; encoder_consume_all bufs xp }"

definition hello_due :: "xcodec_pipe_pair \<Rightarrow> wire list" where
  "hello_due xp = (if xp_encoder xp = None then [Hello (xp_codec xp)] else [])"

definition sending :: "bytes \<Rightarrow> xcodec_pipe_pair \<Rightarrow> xcodec_encoder \<Rightarrow> bool" where
  "sending uuid xp e \<longleftrightarrow> xp_codec xp = uuid \<and> length uuid = UUID_SIZE \<and> pipes_ok xp \<and> \<not> xp_encoder_sent_eos xp \<and> encoder_wf e \<and>
     (\<exists>c. xp_caches xp uuid = Some c \<and> e = (case xp_encoder xp of None \<Rightarrow> encoder_new c | Some e0 \<Rightarrow> e0\<lparr>xe_cache := c\<rparr>))"

lemma encoder_new_cache [simp]: "xe_cache (encoder_new c) = c" "encoder_new c\<lparr>xe_cache := c\<rparr> = encoder_new c"
  by (simp_all add: encoder_new_def)

text \<open>The half of the pair that has received nothing yet, which sending leaves alone.\<close>

definition idle :: "xcodec_pipe_pair \<Rightarrow> bool" where
  "idle xp \<longleftrightarrow> xp_buffer xp = [] \<and> xp_frame_buffer xp = [] \<and> \<not> xp_received_eos xp \<and> \<not> xp_received_eos_ack xp"

lemma encoder_hello_ok:
  assumes s: "sending uuid xp e" and n: "xp_encoder xp = None"
  shows "encoder_hello xp = Some (True, wire_bytes (Hello uuid), xp\<lparr>xp_encoder := Some e\<rparr>)"
proof -
  have u: "length uuid = 36" "uuid \<noteq> []" "xp_codec xp = uuid" using s by (auto simp: sending_def UUID_SIZE_def)
  obtain c where "xp_caches xp uuid = Some c" "e = encoder_new c" using s n by (auto simp: sending_def)
  then show ?thesis using u
    by (simp add: encoder_hello_def uuid_encode_def UUID_SIZE_def buf_append_bytes_def buf_append_buffer_def)
qed

text \<open>The optional <HELLO> and the encoder it creates.\<close>

lemma encoder_start:
  assumes s: "sending uuid xp e"
  obtains xp1 where "(if xp_encoder xp = None then encoder_hello xp else Some (True, [], xp)) = Some (True, wires_bytes (hello_due xp), xp1)"
    "sending uuid xp1 e" "xp_encoder xp1 \<noteq> None" "answered xp1 = answered xp" "idle xp1 = idle xp"
proof (cases "xp_encoder xp")
  case None
  obtain c where c: "xp_caches xp uuid = Some c" "e = encoder_new c" using s None by (auto simp: sending_def)
  show ?thesis
    by (rule that [of "xp\<lparr>xp_encoder := Some e\<rparr>"])
      (use encoder_hello_ok [OF s None] None s c in \<open>simp_all add: hello_due_def sending_def pipes_ok_def answered_def idle_def\<close>)
next
  case (Some e0)
  then show ?thesis by (intro that [of xp]) (use s in \<open>simp_all add: hello_due_def\<close>)
qed

lemma pipe_call_encoder_ok:
  assumes s: "sending uuid xp e" "xp_encoder xp \<noteq> None" and segs: "\<forall>seg\<in>set buf. seg \<noteq> []"
  obtains bs e' xp' where "pipe_call_encoder buf xp = Some (bs, xp')" "emits e bs (concat buf) e'" "sending uuid xp' e'"
    "xp_encoder xp' \<noteq> None" "answered xp' = answered xp" "idle xp' = idle xp"
proof -
  obtain e0 c where e: "xp_encoder xp = Some e0" "xp_caches xp uuid = Some c" "e = e0\<lparr>xe_cache := c\<rparr>" and u: "xp_codec xp = uuid"
    using s by (auto simp: sending_def)
  have "encoder_wf e" using s by (simp add: sending_def)
  from encode_ok [OF this segs, of "[]"]
  obtain bs e' where b: "encode [] buf e = Some (bs, e')" "emits e bs (concat buf) e'" by auto
  let ?x = "xp\<lparr>xp_encoder := Some e', xp_caches := (xp_caches xp)(uuid \<mapsto> xe_cache e')\<rparr>"
  have call: "pipe_call_encoder buf xp = Some (bs, ?x)" using e b(1) u by (simp add: pipe_call_encoder_def)
  have "encoder_wf e'" using b(2) by (simp add: emits_def Let_def)
  then have "sending uuid ?x e'" using s(1) u by (simp add: sending_def pipes_ok_def)
  then show ?thesis by (rule that [OF call b(2)]) (simp_all add: answered_def idle_def)
qed

lemma encoder_consume_data:
  assumes s: "sending uuid xp e" and buf: "buf \<noteq> []" "\<forall>seg\<in>set buf. seg \<noteq> []"
  obtains xs e' xp' where "encoder_consume buf xp = Some xp'" "sending uuid xp' e'" "xp_encoder xp' \<noteq> None"
    "emits e (concat xs) (concat buf) e'" "framed xs" "answered xp' = answered xp @ wires_bytes (hello_due xp @ map Frame xs)"
    "idle xp' = idle xp"
proof -
  obtain x1 where x1: "(if xp_encoder xp = None then encoder_hello xp else Some (True, [], xp)) = Some (True, wires_bytes (hello_due xp), x1)"
    "sending uuid x1 e" "xp_encoder x1 \<noteq> None" "answered x1 = answered xp" "idle x1 = idle xp"
    by (rule encoder_start [OF s])
  obtain bs e' x2 where x2: "pipe_call_encoder buf x1 = Some (bs, x2)" "emits e bs (concat buf) e'" "sending uuid x2 e'"
    "xp_encoder x2 \<noteq> None" "answered x2 = answered x1" "idle x2 = idle x1"
    by (rule pipe_call_encoder_ok [OF x1(2,3) buf(2)])
  have "concat buf \<noteq> []" using buf by (cases buf) auto
  then have bs: "bs \<noteq> []" using x2(2) by (auto simp: emits_def Let_def elim: xstream_NilE)
  let ?out = "wires_bytes (hello_due xp) @ wires_bytes (map Frame (frames bs))"
  have out: "?out \<noteq> []" using bs by (simp add: frames.simps [of bs])
  have ok: "pipes_ok x2" and eos: "\<not> xp_encoder_sent_eos xp" using x2(3) s by (simp_all add: sending_def)
  obtain p where p: "encoder_produce ?out x2 = Some (x2\<lparr>xp_encoder_pipe := p\<rparr>)" "pipes_ok (x2\<lparr>xp_encoder_pipe := p\<rparr>)"
      "undelivered p = answered x2 @ ?out"
    by (rule encoder_produce_ok [OF ok out])
  have c: "encoder_consume buf xp = Some (x2\<lparr>xp_encoder_pipe := p\<rparr>)"
    unfolding encoder_consume_def x1(1) using eos buf(1) x2(1) bs encode_frame_eq out p(1) by simp
  have fr: "concat (frames bs) = bs" "framed (frames bs)" using frames_ok [of bs] by (simp_all add: framed_def)
  show ?thesis
    by (rule that [OF c, of e' "frames bs"]) (use x2(2-6) x1(4,5) p(2,3) fr in \<open>simp_all add: sending_def answered_def idle_def\<close>)
qed

lemma encoder_consume_eos:
  assumes s: "sending uuid xp e"
  obtains xp' where "encoder_consume [] xp = Some xp'" "xp_encoder_sent_eos xp'" "answered xp' = answered xp @ wires_bytes (hello_due xp @ [Eos])"
    "pipes_ok xp'" "xp_codec xp' = uuid" "xp_caches xp' uuid = Some (xe_cache e)" "xp_encoder xp' \<noteq> None"
    "idle xp' = idle xp"
proof -
  obtain x1 where x1: "(if xp_encoder xp = None then encoder_hello xp else Some (True, [], xp)) = Some (True, wires_bytes (hello_due xp), x1)"
    "sending uuid x1 e" "xp_encoder x1 \<noteq> None" "answered x1 = answered xp" "idle x1 = idle xp"
    by (rule encoder_start [OF s])
  let ?out = "wires_bytes (hello_due xp) @ [XCODEC_PIPE_OP_EOS]" and ?x = "x1\<lparr>xp_encoder_sent_eos := True\<rparr>"
  have ok: "pipes_ok ?x" and eos: "\<not> xp_encoder_sent_eos xp" "\<not> xp_encoder_sent_eos x1"
    using x1(2) s by (simp_all add: sending_def pipes_ok_def)
  obtain p where p: "encoder_produce ?out ?x = Some (?x\<lparr>xp_encoder_pipe := p\<rparr>)" "pipes_ok (?x\<lparr>xp_encoder_pipe := p\<rparr>)"
      "undelivered p = answered ?x @ ?out"
    by (rule encoder_produce_ok [OF ok, of ?out]) simp_all
  have c: "encoder_consume [] xp = Some (?x\<lparr>xp_encoder_pipe := p\<rparr>)"
    unfolding encoder_consume_def x1(1) using eos p(1) by (simp add: buf_append_bytes_def)
  have f: "xp_codec x1 = uuid" "xp_caches x1 uuid = Some (xe_cache e)" using x1(2,3) by (auto simp: sending_def)
  show ?thesis by (rule that [OF c _ _ p(2)]) (use p f x1(3-5) in \<open>simp_all add: answered_def idle_def\<close>)
qed

lemma encoder_sends:
  assumes "sending uuid xp e" "\<forall>buf\<in>set bufs. buf \<noteq> [] \<and> (\<forall>seg\<in>set buf. seg \<noteq> [])"
  shows "\<exists>xs e' xp'. encoder_consume_all (bufs @ [[]]) xp = Some xp' \<and> emits e (concat xs) (concat (concat bufs)) e' \<and> framed xs \<and>
    answered xp' = answered xp @ wires_bytes (hello_due xp @ map Frame xs @ [Eos]) \<and> pipes_ok xp' \<and> xp_encoder_sent_eos xp' \<and>
    xp_codec xp' = uuid \<and> xp_caches xp' uuid = Some (xe_cache e') \<and> xp_encoder xp' \<noteq> None \<and> idle xp' = idle xp"
  using assms
proof (induction bufs arbitrary: xp e)
  case Nil
  obtain xp' where "encoder_consume [] xp = Some xp'" "xp_encoder_sent_eos xp'" "answered xp' = answered xp @ wires_bytes (hello_due xp @ [Eos])"
    "pipes_ok xp'" "xp_codec xp' = uuid" "xp_caches xp' uuid = Some (xe_cache e)" "xp_encoder xp' \<noteq> None"
    "idle xp' = idle xp"
    by (rule encoder_consume_eos [OF Nil(1)])
  moreover have "emits e [] [] e" using emits_escape [of e "[]"] Nil(1) by (simp add: sending_def)
  ultimately show ?case by (intro exI [of _ "[] :: bytes list"] exI [of _ e] exI [of _ xp']) (simp add: framed_def)
next
  case (Cons buf bufs)
  obtain xs e1 x1 where a: "encoder_consume buf xp = Some x1" "sending uuid x1 e1" "xp_encoder x1 \<noteq> None"
    "emits e (concat xs) (concat buf) e1" "framed xs" "answered x1 = answered xp @ wires_bytes (hello_due xp @ map Frame xs)"
    "idle x1 = idle xp"
    by (rule encoder_consume_data [OF Cons.prems(1), of buf]) (use Cons.prems(2) in auto)
  obtain ys e' xp' where r: "encoder_consume_all (bufs @ [[]]) x1 = Some xp'" "emits e1 (concat ys) (concat (concat bufs)) e'" "framed ys"
    "answered xp' = answered x1 @ wires_bytes (hello_due x1 @ map Frame ys @ [Eos])" "pipes_ok xp' \<and> xp_encoder_sent_eos xp' \<and>
    xp_codec xp' = uuid \<and> xp_caches xp' uuid = Some (xe_cache e') \<and> xp_encoder xp' \<noteq> None \<and> idle xp' = idle x1"
    using Cons.IH [OF a(2)] Cons.prems(2) by auto
  have "emits e (concat (xs @ ys)) (concat (concat (buf # bufs))) e'" using emits_trans [OF a(4) r(2)] by simp
  moreover have "hello_due x1 = []" using a(3) by (simp add: hello_due_def)
  ultimately show ?case using a(1,5-7) r
    by (intro exI [of _ "xs @ ys"] exI [of _ e'] exI [of _ xp']) (auto simp: framed_def)
qed

section \<open><ASK> and <LEARN>\<close>

lemma pipe_decode_idle: "idle xp \<Longrightarrow> pipe_decode xp = Some (Break, xp)"
  by (simp add: pipe_decode_def pipe_send_eos_ack_def idle_def)

lemma finish_idle: "idle xp \<Longrightarrow> decoder_finish_eos xp = Some xp" "idle xp \<Longrightarrow> decoder_finish_ack xp = Some xp"
  by (simp_all add: decoder_finish_eos_def decoder_finish_ack_def idle_def)

text \<open>The sender answers an <ASK> for a segment it has.\<close>

lemma consume_ask:
  assumes "idle xp" "pipes_ok xp" "xp_encoder xp \<noteq> None" "xp_caches xp (xp_codec xp) = Some c" "cache_lookup c h = Some seg" "seg \<noteq> []"
  obtains p where "decoder_consume valid (wire_bytes (Ask h)) xp = Some (xp\<lparr>xp_encoder_pipe := p\<rparr>)" "pipes_ok (xp\<lparr>xp_encoder_pipe := p\<rparr>)"
    "undelivered p = answered xp @ wire_bytes (Learn seg)"
proof -
  obtain p where p: "encoder_produce (wire_bytes (Learn seg)) xp = Some (xp\<lparr>xp_encoder_pipe := p\<rparr>)" "pipes_ok (xp\<lparr>xp_encoder_pipe := p\<rparr>)"
      "undelivered p = answered xp @ wire_bytes (Learn seg)"
    by (rule encoder_produce_ok [OF assms(2), of "wire_bytes (Learn seg)"]) simp_all
  let ?x = "xp\<lparr>xp_buffer := xp_buffer xp @ wire_bytes (Ask h)\<rparr>" and ?y = "xp\<lparr>xp_encoder_pipe := p\<rparr>"
  have b: "xp_buffer xp = []" using assms(1) by (simp add: idle_def)
  then have "xp\<lparr>xp_buffer := []\<rparr> = xp" by (cases xp) simp
  then have q: "encoder_produce (wire_bytes (Learn seg)) (xp\<lparr>xp_buffer := []\<rparr>) = Some ?y" by (simp only: p(1))
  obtain e where e: "xp_encoder xp = Some e" using assms(3) by blast
  have "pipe_ask ?x = Some (Break, ?y)"
    using assms(4-6) b q e be64.length_enc [of h] be64.dec_enc [of h]
    by (simp add: pipe_ask_def buf_skip_def buf_moveout_bytes_def buf_append_bytes_def buf_append_segment_def)
  then have "pipe_op valid ?x = Some (Break, ?y)" using b by (simp add: pipe_op_def buf_peek_def pipe_ops)
  moreover have "idle ?y" using assms(1) by (simp add: idle_def)
  then have "pipe_decode ?y = Some (Break, ?y)" by (rule pipe_decode_idle)
  ultimately have "pipe_step valid ?x = Some (Break, ?y)" by (simp add: pipe_step_def)
  then have "decoder_loop valid ?x = Some (Break, ?y)" using b by (subst decoder_loop.simps) (simp add: decoder_loop.simps [of valid ?y])
  then have "decoder_consume valid (wire_bytes (Ask h)) xp = Some ?y"
    using \<open>idle ?y\<close> finish_idle [of ?y] by (simp add: decoder_consume_def)
  then show ?thesis using that p by blast
qed

text \<open>The receiver enters the segment and goes on where it stopped.\<close>

lemma stream_left_learn:
  assumes s: "stream_left False U (d\<lparr>xd_cache := c\<rparr>) inp data" and h: "cache_lookup c h = None" "U h = Some seg"
  obtains c' where "length seg = XCODEC_SEGMENT_LENGTH" "segment_hash seg = h" "cache_enter h seg c = Some c'"
    "cache_lookup c' h = Some seg" "stream_left False U (d\<lparr>xd_cache := c'\<rparr>) inp data"
proof -
  have f: "follows U (d\<lparr>xd_cache := c\<rparr>)" "hashed U" using s by (simp_all add: stream_left_def)
  have seg: "length seg = XCODEC_SEGMENT_LENGTH" "segment_hash seg = h" using hashedD [OF f(2) h(2)] by simp_all
  have c: "hashed (cache_lookup c)" "remembers c" "cache_lookup c \<subseteq>\<^sub>m U" using f(1) by (simp_all add: follows_def decoder_wf_def)
  obtain c' where c': "cache_enter h seg c = Some c'" "hashed (cache_lookup c')" "remembers c'" "cache_lookup c' = (cache_lookup c)(h \<mapsto> seg)"
    using cache_enter_hashed [OF c(1) seg(1)] c(2) h(1) seg(2) by auto
  have "cache_lookup c' \<subseteq>\<^sub>m U" using c'(4) map_le_upd_fresh [OF c(3) h] by simp
  then have "follows U (d\<lparr>xd_cache := c'\<rparr>)" using f(1) c'(2,3) by (simp add: follows_def decoder_wf_def)
  then have "stream_left False U (d\<lparr>xd_cache := c'\<rparr>) inp data" using s by (auto simp: stream_left_def)
  then show ?thesis using that seg c' by simp
qed

lemma pipe_step_Learn:
  assumes r: "receiving False U uuid rest xp data" and ok: "pipes_ok xp" and h: "xp_unknown_hashes xp = {h}" "U h = Some seg"
    and eos: "\<not> xp_sent_eos xp" and b: "xp_buffer xp = wire_bytes (Learn seg) @ b"
  obtains out data' xp' where "pipe_step valid xp = Some (Break, xp')" "xp_buffer xp' = b" "data = out @ data'" "out \<noteq> []"
    "receiving False U uuid rest xp' data'" "flags xp' = flags xp" "pipes_ok xp'" "decoded xp' = decoded xp @ out"
    "answered xp' = answered xp @ ask_bytes (xp_unknown_hashes xp')"
proof -
  obtain d c where d: "xp_decoder_cache xp = Some uuid" "xp_decoder xp = Some d" "xp_caches xp uuid = Some c"
      "stream_left False U (d\<lparr>xd_cache := c\<rparr>) (xp_frame_buffer xp @ rest) data"
      "stopped U (d\<lparr>xd_cache := c\<rparr>) (xp_frame_buffer xp) {h}"
    using r h(1) by (auto simp: receiving_def)
  then obtain r where t: "next_token (xp_frame_buffer xp) = Some (Ref h, r)" "cache_lookup c h = None" by (auto simp: stopped_def)
  obtain c' where c': "length seg = XCODEC_SEGMENT_LENGTH" "segment_hash seg = h" "cache_enter h seg c = Some c'"
    "cache_lookup c' h = Some seg" "stream_left False U (d\<lparr>xd_cache := c'\<rparr>) (xp_frame_buffer xp @ rest) data"
    by (rule stream_left_learn [OF d(4) t(2) h(2)])
  let ?x = "xp\<lparr>xp_buffer := b, xp_unknown_hashes := {}, xp_caches := (xp_caches xp)(uuid \<mapsto> c')\<rparr>"
  have "seg \<noteq> []" using c'(1) by (auto simp: XCODEC_SEGMENT_LENGTH_def)
  then have "pipe_learn xp = Some (Break, ?x)"
    using b d(1,3) c'(1-3) h(1) t(2) hash_data_eq [OF c'(1)] XCODEC_SEGMENT_fits XCODEC_SEGMENT_LENGTH_pos
    by (simp add: pipe_learn_def buf_skip_def buf_copyout_segment_def Let_def)
  then have op: "pipe_op valid xp = Some (Break, ?x)" using b by (simp add: pipe_op_def buf_peek_def pipe_ops)
  have x: "xp_decoder_cache ?x = Some uuid" "xp_decoder ?x = Some d" "xp_caches ?x uuid = Some c'"
    "stream_left False U (d\<lparr>xd_cache := c'\<rparr>) (xp_frame_buffer ?x @ rest) data" "xp_unknown_hashes ?x = {}"
    "pipes_ok ?x" "xp_frame_buffer ?x \<noteq> []" "\<not> xp_sent_eos ?x"
    using d c' ok eos t(1) by (auto simp: pipes_ok_def)
  obtain out data' xp' where p: "pipe_decode ?x = Some (Break, xp')" "data = out @ data'"
    "receiving False U uuid rest xp' data'" "flags xp' = flags ?x" "xp_buffer xp' = xp_buffer ?x" "pipes_ok xp'"
    "decoded xp' = decoded ?x @ out" "answered xp' = answered ?x @ ask_bytes (xp_unknown_hashes xp')"
    "\<forall>u. u \<noteq> uuid \<longrightarrow> xp_caches xp' u = xp_caches ?x u"
    "\<forall>h r. next_token (xp_frame_buffer ?x) = Some (Ref h, r) \<and> cache_lookup c' h \<noteq> None \<longrightarrow> out \<noteq> []"
    by (rule pipe_decode_ok [OF x])
  have "pipe_step valid xp = Some (Break, xp')" using op p(1) by (simp add: pipe_step_def)
  moreover have "out \<noteq> []" using p(10) t(1) c'(4) by simp
  ultimately show ?thesis using p(2-8) by (intro that [of xp' out data']) (simp_all add: flags_def decoded_def answered_def)
qed

text \<open>After the end of the stream: <LEARN> is the last message.\<close>

lemma consume_learn:
  assumes o: "over False U uuid xp data" and h: "xp_unknown_hashes xp = {h}" "U h = Some seg"
  obtains out data' xp' where "decoder_consume valid (wire_bytes (Learn seg)) xp = Some xp'" "data = out @ data'" "out \<noteq> []"
    "over False U uuid xp' data'" "decoded xp' = decoded xp @ out" "answered xp' = answered xp @ ask_bytes (xp_unknown_hashes xp')"
    "xp_encoder_sent_eos_ack xp' = xp_encoder_sent_eos_ack xp"
proof -
  let ?x = "xp\<lparr>xp_buffer := wire_bytes (Learn seg)\<rparr>"
  have x: "receiving False U uuid [] ?x data" "pipes_ok ?x" "xp_unknown_hashes ?x = {h}" "\<not> xp_sent_eos ?x" "xp_buffer ?x = wire_bytes (Learn seg) @ []"
    using o h(1) by (simp_all add: over_def receiving_def pipes_ok_def)
  obtain out data' x1 where s: "pipe_step valid ?x = Some (Break, x1)" "xp_buffer x1 = []" "data = out @ data'" "out \<noteq> []"
    "receiving False U uuid [] x1 data'" "flags x1 = flags ?x" "pipes_ok x1" "decoded x1 = decoded ?x @ out"
    "answered x1 = answered ?x @ ask_bytes (xp_unknown_hashes x1)"
    by (rule pipe_step_Learn [OF x(1-3) h(2) x(4,5)])
  have l: "decoder_loop valid ?x = Some (Break, x1)"
    using s(1,2) by (subst decoder_loop.simps) (simp add: decoder_loop.simps [of valid x1])
  have f: "xp_received_eos x1" "\<not> xp_received_eos_ack x1" "\<not> xp_sent_eos x1" "xp_encoder_sent_eos_ack x1 = xp_encoder_sent_eos_ack xp"
    using s(6) o h(1) by (simp_all add: flags_def over_def)
  have a: "xp_unknown_hashes x1 \<noteq> {} \<longrightarrow> asked x1" using s(9) by (auto simp: asked_def)
  obtain xp' where e: "decoder_finish_eos x1 = Some xp'" "decoder_finish_ack xp' = Some xp'" "over False U uuid xp' data'"
    "decoded xp' = decoded x1" "answered xp' = answered x1" "xp_unknown_hashes xp' = xp_unknown_hashes x1"
    "xp_encoder_sent_eos_ack xp' = xp_encoder_sent_eos_ack x1" "xp_encoder_sent_eos xp' = xp_encoder_sent_eos x1"
    by (rule finish_received [OF s(5,7) f(1-3) s(2) a])
  have "decoder_consume valid (wire_bytes (Learn seg)) xp = Some xp'" using l e(1,2) o by (simp add: decoder_consume_def over_def)
  then show ?thesis using s e f(4) by (intro that [of xp' out data']) (simp_all add: decoded_def answered_def)
qed

section \<open>Both ends\<close>

lemma pipe_pair_new_fields [simp]:
  "xp_decoder (pipe_pair_new caches uuid) = None" "xp_decoder_cache (pipe_pair_new caches uuid) = None"
  "xp_unknown_hashes (pipe_pair_new caches uuid) = {}" "xp_frame_buffer (pipe_pair_new caches uuid) = []"
  "xp_buffer (pipe_pair_new caches uuid) = []" "xp_encoder (pipe_pair_new caches uuid) = None"
  "\<not> xp_received_eos (pipe_pair_new caches uuid)" "\<not> xp_received_eos_ack (pipe_pair_new caches uuid)"
  "\<not> xp_sent_eos (pipe_pair_new caches uuid)" "\<not> xp_encoder_sent_eos_ack (pipe_pair_new caches uuid)"
  "\<not> xp_encoder_sent_eos (pipe_pair_new caches uuid)" "xp_codec (pipe_pair_new caches uuid) = uuid"
  "xp_caches (pipe_pair_new caches uuid) = caches"
  by (simp_all add: pipe_pair_new_def)

lemma pipe_pair_new_ok: "pipes_ok (pipe_pair_new caches uuid)" "answered (pipe_pair_new caches uuid) = []"
  "decoded (pipe_pair_new caches uuid) = []" "idle (pipe_pair_new caches uuid)"
  by (simp_all add: pipe_pair_new_def pipes_ok_def producer_ok_def answered_def decoded_def undelivered_def pipe_producer_new_def
      idle_def pipe_wf_def)

lemma sending_new:
  "caches uuid = Some c \<Longrightarrow> length uuid = UUID_SIZE \<Longrightarrow> remembers c \<Longrightarrow> hashed (cache_lookup c) \<Longrightarrow>
     sending uuid (pipe_pair_new caches uuid) (encoder_new c)"
  using pipe_pair_new_ok(1) [of caches uuid] by (simp add: sending_def encoder_wf_new)

lemma emits_stream_left:
  assumes m: "emits (encoder_new c) bs data e'" and d: "remembers pc" "hashed (cache_lookup pc)" "cache_lookup pc \<subseteq>\<^sub>m cache_lookup c"
    and sync: "sync \<longrightarrow> \<not> cache_out_of_band c \<and> cache_lookup pc = cache_lookup c"
  shows "stream_left sync (cache_lookup (xe_cache e')) (decoder_new pc) bs data"
proof -
  let ?U = "cache_lookup (xe_cache e')"
  have e: "encoder_wf e'" "cache_lookup c \<subseteq>\<^sub>m ?U" "xstream ?U window_new bs data ?U (xe_window e')"
    "sync \<longrightarrow> xstream (cache_lookup c) window_new bs data ?U (xe_window e')"
    using m sync by (auto simp: emits_def Let_def encoder_new_def)
  have "follows ?U (decoder_new pc)"
    using d e(2) by (auto simp: follows_def decoder_wf_new intro: map_le_trans)
  moreover have "hashed ?U" using e(1) by (simp add: encoder_wf_def)
  moreover have "xstream (if sync then cache_lookup c else ?U) window_new bs data ?U (xe_window e')" using e(3,4) by simp
  ultimately show ?thesis using sync unfolding stream_left_def
    by - (intro conjI, assumption+, rule exI [of _ "if sync then cache_lookup c else ?U"], rule exI [of _ ?U], auto)
qed

text \<open>A pair that sends all of some buffers and one that receives what was sent, in any chunks.\<close>

lemma transfer:
  assumes s: "caches uuid = Some c" "length uuid = UUID_SIZE" "remembers c" "hashed (cache_lookup c)" "valid uuid"
    and bufs: "\<forall>buf\<in>set bufs. buf \<noteq> [] \<and> (\<forall>seg\<in>set buf. seg \<noteq> [])"
    and r: "rx = pipe_pair_new caches' uuid'" "remembers (peer_cache uuid rx)" "hashed (cache_lookup (peer_cache uuid rx))"
      "cache_lookup (peer_cache uuid rx) \<subseteq>\<^sub>m cache_lookup c"
    and sync: "sync \<longrightarrow> \<not> cache_out_of_band c \<and> cache_lookup (peer_cache uuid rx) = cache_lookup c"
  obtains tx c' where "encoder_consume_all (bufs @ [[]]) (pipe_pair_new caches uuid) = Some tx" "pipes_ok tx" "idle tx"
    "xp_encoder tx \<noteq> None" "xp_caches tx (xp_codec tx) = Some c'" "hashed (cache_lookup c')"
    "\<forall>cs. concat cs = answered tx \<and> [] \<notin> set cs \<longrightarrow>
       (\<exists>rx' out data'. consume_chunks valid cs rx = Some rx' \<and> concat (concat bufs) = out @ data' \<and> decoded rx' = out \<and>
          over sync (cache_lookup c') uuid rx' data' \<and> acknowledged rx' \<and> (sync \<longrightarrow> answered rx' = [XCODEC_PIPE_OP_EOS_ACK]))"
proof -
  let ?tx = "pipe_pair_new caches uuid"
  obtain xs e' tx where t: "encoder_consume_all (bufs @ [[]]) ?tx = Some tx" "emits (encoder_new c) (concat xs) (concat (concat bufs)) e'" "framed xs"
    "answered tx = answered ?tx @ wires_bytes (hello_due ?tx @ map Frame xs @ [Eos])" "pipes_ok tx"
    "xp_codec tx = uuid" "xp_caches tx uuid = Some (xe_cache e')" "xp_encoder tx \<noteq> None" "idle tx = idle ?tx"
    using encoder_sends [OF sending_new [of caches uuid c, OF s(1-4)] bufs] by blast
  let ?U = "cache_lookup (xe_cache e')" and ?ms = "Hello uuid # map Frame xs @ [Eos]"
  have ms: "answered tx = wires_bytes ?ms" using t(4) by (simp add: pipe_pair_new_ok hello_due_def)
  have "stream_left sync ?U (decoder_new (peer_cache uuid rx)) (concat xs) (concat (concat bufs))"
    by (rule emits_stream_left [OF t(2) r(2-4) sync])
  then have a: "awaits sync ?U uuid ?ms rx (concat (concat bufs))"
    using t(3) s(2) pipe_pair_new_ok(1) [of caches' uuid'] r(1) by (auto simp: awaits_def connecting_def)
  have "\<exists>rx' out data'. consume_chunks valid cs rx = Some rx' \<and> concat (concat bufs) = out @ data' \<and> decoded rx' = out \<and>
      over sync ?U uuid rx' data' \<and> acknowledged rx' \<and> (sync \<longrightarrow> answered rx' = [XCODEC_PIPE_OP_EOS_ACK])"
    if cs: "concat cs = answered tx" "[] \<notin> set cs" for cs
  proof -
    have c: "xp_buffer rx @ concat cs @ [] = wires_bytes ?ms" "\<forall>c\<in>set cs. c \<noteq> []" "cs \<noteq> []"
      using cs ms r(1) by auto
    obtain ms1 ms2 rx' out data' where "consume_chunks valid cs rx = Some rx'" "?ms = ms1 @ ms2" "concat (concat bufs) = out @ data'"
      "decoded rx' = decoded rx @ out" "replies sync ms1 rx rx'" "over sync ?U uuid rx' data'" "acknowledged rx'" "ms2 = []"
      using consume_chunks_part [where valid = valid, OF a _ s(5) c] by auto
    then show ?thesis using pipe_pair_new_ok(2,3) [of caches' uuid'] r(1)
      by (intro exI [of _ rx'] exI [of _ out] exI [of _ data']) (auto simp: replies_def)
  qed
  moreover have "hashed ?U" using t(2) by (simp add: emits_def encoder_wf_def Let_def)
  ultimately show ?thesis using t(1,5-9) pipe_pair_new_ok(4) by (intro that [of tx "xe_cache e'"]) simp_all
qed

text \<open>
  The exchange after the stream: as long as the receiver misses a segment, its <ASK> goes to
  the sender and the answer comes back.
\<close>

fun exchange :: "(bytes \<Rightarrow> bool) \<Rightarrow> nat \<Rightarrow> xcodec_pipe_pair \<Rightarrow> xcodec_pipe_pair \<Rightarrow> (xcodec_pipe_pair \<times> xcodec_pipe_pair) option" where
  "exchange valid 0 tx rx = Some (tx, rx)"
| "exchange valid (Suc n) tx rx =
     (if xp_unknown_hashes rx = {} then Some (tx, rx)
      else do {
        tx' \<leftarrow> decoder_consume valid (ask_bytes (xp_unknown_hashes rx)) tx;
        rx \<leftarrow> decoder_consume valid (drop (length (answered tx)) (answered tx')) rx;
        exchange valid n tx' rx })"

lemma over_asks:
  assumes "over False U uuid rx data" "xp_unknown_hashes rx \<noteq> {}"
  obtains h seg where "xp_unknown_hashes rx = {h}" "U h = Some seg"
  using assms by (auto simp: over_def receiving_def stopped_def)

lemma exchange_completes:
  assumes "over False (cache_lookup c) uuid rx data" "length data \<le> n" "hashed (cache_lookup c)"
    and "pipes_ok tx" "idle tx" "xp_encoder tx \<noteq> None" "xp_caches tx (xp_codec tx) = Some c"
  shows "\<exists>tx' rx'. exchange valid n tx rx = Some (tx', rx') \<and> xp_unknown_hashes rx' = {} \<and> decoded rx' = decoded rx @ data \<and>
    pp_output_eos (xp_decoder_pipe rx') \<and> xp_encoder_sent_eos_ack rx' = xp_encoder_sent_eos_ack rx"
  using assms
proof (induction n arbitrary: tx rx data)
  case 0
  have "xp_unknown_hashes rx = {}"
  proof (rule ccontr)
    assume u: "xp_unknown_hashes rx \<noteq> {}"
    then obtain h seg where "xp_unknown_hashes rx = {h}" "cache_lookup c h = Some seg" by (rule over_asks [OF 0(1)])
    then obtain out data' where "data = out @ data'" "out \<noteq> []" by (rule consume_learn [OF 0(1)])
    then show False using 0(2) by simp
  qed
  then show ?case using 0(1,2) by (simp add: over_def)
next
  case (Suc n)
  show ?case
  proof (cases "xp_unknown_hashes rx = {}")
    case True
    then show ?thesis using Suc.prems(1) by (simp add: over_def)
  next
    case False
    then obtain h seg where h: "xp_unknown_hashes rx = {h}" "cache_lookup c h = Some seg" by (rule over_asks [OF Suc.prems(1)])
    have seg: "seg \<noteq> []" using hashed_neq_Nil [OF Suc.prems(3) h(2)] .
    obtain p where p: "decoder_consume valid (wire_bytes (Ask h)) tx = Some (tx\<lparr>xp_encoder_pipe := p\<rparr>)" "pipes_ok (tx\<lparr>xp_encoder_pipe := p\<rparr>)"
        "undelivered p = answered tx @ wire_bytes (Learn seg)"
      by (rule consume_ask [OF Suc.prems(5,4,6,7) h(2) seg])
    obtain out data' rx1 where r: "decoder_consume valid (wire_bytes (Learn seg)) rx = Some rx1" "data = out @ data'" "out \<noteq> []"
        "over False (cache_lookup c) uuid rx1 data'" "decoded rx1 = decoded rx @ out" "xp_encoder_sent_eos_ack rx1 = xp_encoder_sent_eos_ack rx"
      by (rule consume_learn [OF Suc.prems(1) h])
    have l: "drop (length (answered tx)) (answered (tx\<lparr>xp_encoder_pipe := p\<rparr>)) = wire_bytes (Learn seg)"
      using p(3) by (simp add: answered_def)
    have "length data' \<le> n" using r(2,3) Suc.prems(2) by (cases out) auto
    moreover have "idle (tx\<lparr>xp_encoder_pipe := p\<rparr>)" "xp_encoder (tx\<lparr>xp_encoder_pipe := p\<rparr>) \<noteq> None"
      "xp_caches (tx\<lparr>xp_encoder_pipe := p\<rparr>) (xp_codec (tx\<lparr>xp_encoder_pipe := p\<rparr>)) = Some c"
      using Suc.prems(5-7) by (simp_all add: idle_def)
    ultimately obtain tx' rx' where "exchange valid n (tx\<lparr>xp_encoder_pipe := p\<rparr>) rx1 = Some (tx', rx')" "xp_unknown_hashes rx' = {}"
        "decoded rx' = decoded rx1 @ data'" "pp_output_eos (xp_decoder_pipe rx')" "xp_encoder_sent_eos_ack rx' = xp_encoder_sent_eos_ack rx1"
      using Suc.IH [OF r(4) _ Suc.prems(3) p(2)] by blast
    moreover have "exchange valid (Suc n) tx rx = exchange valid n (tx\<lparr>xp_encoder_pipe := p\<rparr>) rx1"
      using False h(1) p(1) l r(1) by simp
    ultimately show ?thesis using r(2,5,6) by simp
  qed
qed

section \<open>Transparency\<close>

text \<open>C1: Two XCodecPipePairs with the same dictionary for the sender's UUID are a transparent pipe: a
  fresh pair encodes any buffers and the end of the stream without a failed assertion, and
  however what it sent is cut into chunks on the way, the other fresh pair delivers exactly
  the data followed by the end of the stream, and answers with nothing but <EOS_ACK>.\<close>

theorem tunnel_transparent:
  assumes "caches uuid = Some c" "length uuid = UUID_SIZE" "remembers c" "hashed (cache_lookup c)" "valid uuid"
    and "\<not> cache_out_of_band c"
    and "\<forall>buf\<in>set bufs. buf \<noteq> [] \<and> (\<forall>seg\<in>set buf. seg \<noteq> [])"
    and "remembers (peer_cache uuid (pipe_pair_new caches' uuid'))"
    and "cache_lookup (peer_cache uuid (pipe_pair_new caches' uuid')) = cache_lookup c"
  shows "\<exists>tx. encoder_consume_all (bufs @ [[]]) (pipe_pair_new caches uuid) = Some tx \<and>
    (\<forall>cs. concat cs = undelivered (xp_encoder_pipe tx) \<and> [] \<notin> set cs \<longrightarrow>
       (\<exists>rx. consume_chunks valid cs (pipe_pair_new caches' uuid') = Some rx \<and>
          undelivered (xp_decoder_pipe rx) = concat (concat bufs) \<and> pp_output_eos (xp_decoder_pipe rx) \<and>
          undelivered (xp_encoder_pipe rx) = [XCODEC_PIPE_OP_EOS_ACK]))"
proof -
  let ?rx = "pipe_pair_new caches' uuid'"
  have r: "hashed (cache_lookup (peer_cache uuid ?rx))" "cache_lookup (peer_cache uuid ?rx) \<subseteq>\<^sub>m cache_lookup c"
      "True \<longrightarrow> \<not> cache_out_of_band c \<and> cache_lookup (peer_cache uuid ?rx) = cache_lookup c"
    using assms by simp_all
  obtain tx c' where "encoder_consume_all (bufs @ [[]]) (pipe_pair_new caches uuid) = Some tx"
    and t: "\<forall>cs. concat cs = answered tx \<and> [] \<notin> set cs \<longrightarrow>
       (\<exists>rx' out data'. consume_chunks valid cs ?rx = Some rx' \<and> concat (concat bufs) = out @ data' \<and> decoded rx' = out \<and>
          over True (cache_lookup c') uuid rx' data' \<and> acknowledged rx' \<and> (True \<longrightarrow> answered rx' = [XCODEC_PIPE_OP_EOS_ACK]))"
    by (rule transfer [where valid = valid and caches = caches and uuid = uuid and c = c, OF assms(1-5,7) refl assms(8) r])
  moreover have "data' = [] \<and> pp_output_eos (xp_decoder_pipe rx')" if "over True U uuid rx' data'" for U rx' data'
    using that by (simp add: over_def receiving_def)
  ultimately show ?thesis unfolding answered_def decoded_def by (metis (no_types, lifting) append_Nil2)
qed

definition some_uuid :: bytes where
  "some_uuid = replicate 36 0x30"

lemma new_cache: "remembers (XCodecMemoryCache Map.empty)" "hashed (cache_lookup (XCodecMemoryCache Map.empty))"
  "\<not> cache_out_of_band (XCodecMemoryCache Map.empty)" "length some_uuid = UUID_SIZE"
  "peer_cache some_uuid (pipe_pair_new Map.empty uuid) = XCodecMemoryCache Map.empty"
  by (simp_all add: remembers_def memory_cache_lookup_def hashed_def peer_cache_def some_uuid_def UUID_SIZE_def)

theorem tunnel_transparent_witness:
  "\<exists>tx. encoder_consume_all ([[[1, XCODEC_MAGIC], [2]], [[3]]] @ [[]])
      (pipe_pair_new [some_uuid \<mapsto> XCodecMemoryCache Map.empty] some_uuid) = Some tx \<and>
    (\<forall>cs. concat cs = undelivered (xp_encoder_pipe tx) \<and> [] \<notin> set cs \<longrightarrow>
       (\<exists>rx. consume_chunks (\<lambda>_. True) cs (pipe_pair_new Map.empty []) = Some rx \<and>
          undelivered (xp_decoder_pipe rx) = [1, XCODEC_MAGIC, 2, 3] \<and> pp_output_eos (xp_decoder_pipe rx) \<and>
          undelivered (xp_encoder_pipe rx) = [XCODEC_PIPE_OP_EOS_ACK]))"
  using tunnel_transparent [of "[some_uuid \<mapsto> XCodecMemoryCache Map.empty]" some_uuid "XCodecMemoryCache Map.empty" "\<lambda>_. True"
      "[[[1, XCODEC_MAGIC], [2]], [[3]]]" Map.empty "[]"] new_cache
  by simp

text \<open>C2: A receiver that lacks segments of the sender's dictionary still gets everything: for a fresh
  pair with any part of the dictionary, whatever the chunks, the stream is received without
  a failed assertion, and passing its <ASK>s to the sender and the <LEARN>s back, at most
  once per byte of the data, ends with exactly the data and the end of the stream
  delivered.\<close>

theorem tunnel_learns:
  assumes "caches uuid = Some c" "length uuid = UUID_SIZE" "remembers c" "hashed (cache_lookup c)" "valid uuid"
    and "\<forall>buf\<in>set bufs. buf \<noteq> [] \<and> (\<forall>seg\<in>set buf. seg \<noteq> [])"
    and "remembers (peer_cache uuid (pipe_pair_new caches' uuid'))"
    and "cache_lookup (peer_cache uuid (pipe_pair_new caches' uuid')) \<subseteq>\<^sub>m cache_lookup c"
  shows "\<exists>tx. encoder_consume_all (bufs @ [[]]) (pipe_pair_new caches uuid) = Some tx \<and>
    (\<forall>cs. concat cs = undelivered (xp_encoder_pipe tx) \<and> [] \<notin> set cs \<longrightarrow>
       (\<exists>rx tx' rx'. consume_chunks valid cs (pipe_pair_new caches' uuid') = Some rx \<and>
          exchange valid (length (concat (concat bufs))) tx rx = Some (tx', rx') \<and>
          undelivered (xp_decoder_pipe rx') = concat (concat bufs) \<and> pp_output_eos (xp_decoder_pipe rx')))"
proof -
  let ?rx = "pipe_pair_new caches' uuid'"
  have r: "hashed (cache_lookup (peer_cache uuid ?rx))" "False \<longrightarrow> \<not> cache_out_of_band c \<and> cache_lookup (peer_cache uuid ?rx) = cache_lookup c"
    using hashed_mono [OF assms(4,8)] by simp_all
  obtain tx c' where t: "encoder_consume_all (bufs @ [[]]) (pipe_pair_new caches uuid) = Some tx" "pipes_ok tx" "idle tx"
    "xp_encoder tx \<noteq> None" "xp_caches tx (xp_codec tx) = Some c'" "hashed (cache_lookup c')"
    "\<forall>cs. concat cs = answered tx \<and> [] \<notin> set cs \<longrightarrow>
       (\<exists>rx' out data'. consume_chunks valid cs ?rx = Some rx' \<and> concat (concat bufs) = out @ data' \<and> decoded rx' = out \<and>
          over False (cache_lookup c') uuid rx' data' \<and> acknowledged rx' \<and> (False \<longrightarrow> answered rx' = [XCODEC_PIPE_OP_EOS_ACK]))"
    by (rule transfer [where valid = valid and caches = caches and uuid = uuid and c = c, OF assms(1-6) refl assms(7) r(1) assms(8) r(2)])
  have "\<exists>rx tx' rx'. consume_chunks valid cs ?rx = Some rx \<and> exchange valid (length (concat (concat bufs))) tx rx = Some (tx', rx') \<and>
      undelivered (xp_decoder_pipe rx') = concat (concat bufs) \<and> pp_output_eos (xp_decoder_pipe rx')"
    if cs: "concat cs = undelivered (xp_encoder_pipe tx)" "[] \<notin> set cs" for cs
  proof -
    obtain rx out data' where x: "consume_chunks valid cs ?rx = Some rx" "concat (concat bufs) = out @ data'" "decoded rx = out"
        "over False (cache_lookup c') uuid rx data'"
      using t(7) cs unfolding answered_def by blast
    have "length data' \<le> length (concat (concat bufs))" using x(2) by simp
    from exchange_completes [OF x(4) this t(6,2,3,4,5), of valid] x show ?thesis unfolding decoded_def by metis
  qed
  then show ?thesis using t(1) by blast
qed

theorem tunnel_learns_witness:
  "\<exists>tx. encoder_consume_all ([[[1, 2]]] @ [[]])
      (pipe_pair_new [some_uuid \<mapsto> TackPersistentCache Map.empty []] some_uuid) = Some tx \<and>
    (\<forall>cs. concat cs = undelivered (xp_encoder_pipe tx) \<and> [] \<notin> set cs \<longrightarrow>
       (\<exists>rx tx' rx'. consume_chunks (\<lambda>_. True) cs (pipe_pair_new Map.empty []) = Some rx \<and>
          exchange (\<lambda>_. True) 2 tx rx = Some (tx', rx') \<and>
          undelivered (xp_decoder_pipe rx') = [1, 2] \<and> pp_output_eos (xp_decoder_pipe rx')))"
proof -
  have c: "remembers (TackPersistentCache Map.empty [])" "hashed (cache_lookup (TackPersistentCache Map.empty []))"
    "cache_lookup (XCodecMemoryCache Map.empty) \<subseteq>\<^sub>m cache_lookup (TackPersistentCache Map.empty [])"
    by (simp_all add: remembers_def memory_cache_lookup_def hashed_def map_le_def)
  show ?thesis
    using tunnel_learns [of "[some_uuid \<mapsto> TackPersistentCache Map.empty []]" some_uuid "TackPersistentCache Map.empty []" "\<lambda>_. True"
        "[[[1, 2]]]" Map.empty "[]"] new_cache c
    by (simp add: numeral_2_eq_2)
qed

section \<open>What goes wrong\<close>

text \<open>C25: <EOS_ACK> is not sent when the last <LEARN> arrives after <EOS>: a receiver that has read the end
  of the stream and still asks for a segment delivers, when the <LEARN> completes the data,
  all of it and the end of the stream, but sends nothing back, so the sender never learns
  that its data was processed.\<close>

theorem eos_ack_missing:
  assumes "over False U uuid rx data" "acknowledged rx" and "xp_unknown_hashes rx = {h}" "U h = Some seg"
  shows "\<exists>rx'. decoder_consume valid (wire_bytes (Learn seg)) rx = Some rx' \<and>
    (xp_unknown_hashes rx' = {} \<longrightarrow> undelivered (xp_decoder_pipe rx') = undelivered (xp_decoder_pipe rx) @ data \<and>
       pp_output_eos (xp_decoder_pipe rx') \<and> \<not> xp_encoder_sent_eos_ack rx' \<and>
       undelivered (xp_encoder_pipe rx') = undelivered (xp_encoder_pipe rx))"
proof -
  obtain out data' rx' where r: "decoder_consume valid (wire_bytes (Learn seg)) rx = Some rx'" "data = out @ data'"
    "over False U uuid rx' data'" "decoded rx' = decoded rx @ out" "answered rx' = answered rx @ ask_bytes (xp_unknown_hashes rx')"
    "xp_encoder_sent_eos_ack rx' = xp_encoder_sent_eos_ack rx"
    by (rule consume_learn [OF assms(1,3,4)])
  then show ?thesis using assms(2,3) by (auto simp: over_def acknowledged_def decoded_def answered_def)
qed

definition zero_segment :: bytes where
  "zero_segment = replicate XCODEC_SEGMENT_LENGTH 0"

definition waiting_receiver :: xcodec_pipe_pair where
  "waiting_receiver = (pipe_pair_new [some_uuid \<mapsto> XCodecMemoryCache Map.empty] [])
     \<lparr>xp_decoder_cache := Some some_uuid, xp_decoder := Some (decoder_new (XCodecMemoryCache Map.empty)),
      xp_unknown_hashes := {segment_hash zero_segment}, xp_received_eos := True,
      xp_frame_buffer := XCODEC_MAGIC # XCODEC_OP_REF # be64 (segment_hash zero_segment),
      xp_encoder_pipe := pipe_producer_new\<lparr>pp_output_buffer := ask_bytes {segment_hash zero_segment}\<rparr>\<rparr>"

lemma waiting_receiver_over:
  "over False [segment_hash zero_segment \<mapsto> zero_segment] some_uuid waiting_receiver zero_segment" "acknowledged waiting_receiver"
proof -
  let ?h = "segment_hash zero_segment" and ?d = "decoder_new (XCodecMemoryCache Map.empty)"
  let ?f = "XCODEC_MAGIC # XCODEC_OP_REF # be64 ?h"
  have e: "cache_lookup (XCodecMemoryCache Map.empty) = Map.empty" by (rule ext) (simp add: memory_cache_lookup_def)
  have "xstream [?h \<mapsto> zero_segment] window_new ?f zero_segment [?h \<mapsto> zero_segment] (declared ?h zero_segment window_new)"
    by (rule xstream_ref1) simp
  moreover have "hashed [?h \<mapsto> zero_segment]" by (simp add: hashed_def zero_segment_def)
  moreover have "follows [?h \<mapsto> zero_segment] ?d"
    using new_cache e by (simp add: follows_def decoder_wf_new)
  ultimately have s: "stream_left False [?h \<mapsto> zero_segment] ?d ?f zero_segment"
    unfolding stream_left_def by (metis decoder_new_fields(2) map_le_refl)
  have "next_token ?f = Some (Ref ?h, [])" by (simp add: next_token_def next_op_def)
  then have "stopped [?h \<mapsto> zero_segment] ?d ?f {?h}" by (simp add: stopped_def memory_cache_lookup_def)
  with s have "receiving False [?h \<mapsto> zero_segment] some_uuid [] waiting_receiver zero_segment"
    by (simp add: receiving_def waiting_receiver_def)
  moreover have "pipes_ok waiting_receiver" "answered waiting_receiver = ask_bytes {?h}"
    using pipe_pair_new_ok(1) [of "[some_uuid \<mapsto> XCodecMemoryCache Map.empty]" "[]"]
    by (simp_all add: waiting_receiver_def pipes_ok_def producer_ok_def pipe_wf_def answered_def undelivered_def pipe_producer_new_def)
  ultimately show "over False [?h \<mapsto> zero_segment] some_uuid waiting_receiver zero_segment"
    by (simp add: over_def asked_def) (simp add: waiting_receiver_def)
  show "acknowledged waiting_receiver" by (simp add: acknowledged_def waiting_receiver_def)
qed

theorem eos_ack_missing_witness:
  "\<exists>rx'. decoder_consume (\<lambda>_. True) (wire_bytes (Learn zero_segment)) waiting_receiver = Some rx' \<and>
    (xp_unknown_hashes rx' = {} \<longrightarrow> undelivered (xp_decoder_pipe rx') = undelivered (xp_decoder_pipe waiting_receiver) @ zero_segment \<and>
       pp_output_eos (xp_decoder_pipe rx') \<and> \<not> xp_encoder_sent_eos_ack rx' \<and>
       undelivered (xp_encoder_pipe rx') = undelivered (xp_encoder_pipe waiting_receiver))"
  by (rule eos_ack_missing [OF waiting_receiver_over]) (simp_all add: waiting_receiver_def)

text \<open>A receiver in the middle of a stream: it has had <HELLO> and not <EOS>, has read all that has
  arrived and asks for nothing; \<open>d\<close> is its decoder with the peer's cache.\<close>

definition mid_stream :: "xcodec_decoder \<Rightarrow> xcodec_pipe_pair \<Rightarrow> bool" where
  "mid_stream d xp \<longleftrightarrow> pipes_ok xp \<and> decoder_wf d \<and>
     (\<exists>uuid d0 c. xp_decoder_cache xp = Some uuid \<and> xp_decoder xp = Some d0 \<and> xp_caches xp uuid = Some c \<and> d = d0\<lparr>xd_cache := c\<rparr>) \<and>
     xp_buffer xp = [] \<and> xp_unknown_hashes xp = {} \<and> \<not> xp_received_eos xp \<and> \<not> xp_sent_eos xp \<and> \<not> xp_encoder_sent_eos_ack xp"

lemma read_tokens_incomplete:
  "read_tokens st = (True, st') \<Longrightarrow> ds_unknown st' = {} \<Longrightarrow> next_token (ds_input st') = None"
proof (induction st rule: read_tokens.induct)
  case (1 st)
  obtain l st1 where step: "token_step st = (l, st1)" by (cases "token_step st")
  show ?case
  proof (cases l)
    case Continue
    then show ?thesis using 1 step by (simp add: read_tokens.simps [of st])
  qed (use 1 step in \<open>auto simp: read_tokens.simps [of st] token_step_def split: option.splits outcome.splits\<close>)
qed

lemma pipe_decode_incomplete:
  assumes r: "xp_decoder_cache xp = Some uuid" "xp_decoder xp = Some d" "xp_caches xp uuid = Some (xd_cache d)" "decoder_wf d"
    and f: "xp_frame_buffer xp \<noteq> []" "next_token (xp_frame_buffer xp) = None" and u: "xp_unknown_hashes xp = {}"
  shows "pipe_decode xp = Some (Break, xp)"
proof -
  have "decode [] (xp_frame_buffer xp) {} d = Some (True, \<lparr>ds_output = [], ds_input = xp_frame_buffer xp, ds_unknown = {}, ds_dec = d\<rparr>)"
    using f by (simp add: decode_eq [OF r(4)] read_tokens.simps token_step_def)
  then show ?thesis using r f u by (cases xp) (simp add: pipe_decode_def pipe_call_decoder_def pipe_send_asks_def map_upd_triv)
qed

lemma pipe_decode_left:
  assumes r: "xp_decoder_cache xp = Some uuid" "xp_decoder xp = Some d" "xp_caches xp uuid = Some c" "xp_unknown_hashes xp = {}"
    and st: "decode [] (xp_frame_buffer xp) {} (d\<lparr>xd_cache := c\<rparr>) = Some (True, st)" "ds_unknown st = {}" "ds_input st \<noteq> []"
    and ok: "pipes_ok xp" and f: "xp_frame_buffer xp \<noteq> []" and eos: "\<not> xp_sent_eos xp"
  obtains p where "pipe_decode xp = Some (Break, xp\<lparr>xp_frame_buffer := ds_input st, xp_decoder := Some (ds_dec st),
      xp_caches := (xp_caches xp)(uuid \<mapsto> xd_cache (ds_dec st)), xp_decoder_pipe := p\<rparr>)"
    "undelivered p = decoded xp @ ds_output st"
proof -
  let ?x = "xp\<lparr>xp_frame_buffer := ds_input st, xp_unknown_hashes := {}, xp_decoder := Some (ds_dec st),
    xp_caches := (xp_caches xp)(uuid \<mapsto> xd_cache (ds_dec st))\<rparr>"
  have call: "pipe_call_decoder xp = Some (True, ds_output st, ?x)" using r st by (simp add: pipe_call_decoder_def)
  have x: "pipes_ok ?x" "decoded ?x = decoded xp" using ok by (simp_all add: pipes_ok_def decoded_def)
  show ?thesis
  proof (cases "ds_output st = []")
    case True
    then show ?thesis using call r f st(3)
      by (intro that [of "xp_decoder_pipe xp"]) (simp_all add: pipe_decode_def pipe_send_asks_def decoded_def)
  next
    case False
    obtain p where "decoder_produce (ds_output st) ?x = Some (?x\<lparr>xp_decoder_pipe := p\<rparr>)" "undelivered p = decoded ?x @ ds_output st"
      by (rule decoder_produce_ok [OF x(1) False])
    then show ?thesis using call r f eos False x(2)
      by (intro that [of p]) (simp_all add: pipe_decode_def pipe_send_asks_def)
  qed
qed

lemma consume_one:
  assumes "pipe_step valid (xp\<lparr>xp_buffer := b\<rparr>) = Some (Break, xp')" "xp_buffer xp' = []" "xp_buffer xp = []" "b \<noteq> []"
  shows "decoder_consume valid b xp = do { xp \<leftarrow> decoder_finish_eos xp'; decoder_finish_ack xp }"
  using assms by (simp add: decoder_consume_def decoder_loop.simps)

text \<open>C26: A peer can stop the process by ending its stream inside an operation.  A receiver in the
  middle of a stream, whatever came before, gets a <FRAME> with any data \<open>x\<close> after which the
  decoder is left with part of an operation and asks for nothing: it delivers the data decoded
  so far and waits for the rest, but <EOS> now fails the assertion that nothing is left to
  decode at the end of the stream.\<close>

theorem truncated_stream_stops:
  assumes s: "mid_stream d rx" and x: "x \<noteq> []" "length x \<le> XCODEC_PIPE_MAX_FRAME"
    and dec: "decode [] (xp_frame_buffer rx @ x) {} d = Some (True, st)" "ds_input st \<noteq> []" "ds_unknown st = {}"
  shows "\<exists>rx'. decoder_consume valid (wire_bytes (Frame x)) rx = Some rx' \<and>
    undelivered (xp_decoder_pipe rx') = undelivered (xp_decoder_pipe rx) @ ds_output st \<and>
    xp_frame_buffer rx' = ds_input st \<and> decoder_consume valid (wire_bytes Eos) rx' = None"
proof -
  obtain uuid d0 c where d: "xp_decoder_cache rx = Some uuid" "xp_decoder rx = Some d0" "xp_caches rx uuid = Some c" "d = d0\<lparr>xd_cache := c\<rparr>"
    and ok: "pipes_ok rx" and wf: "decoder_wf d" and e: "xp_buffer rx = []" "xp_unknown_hashes rx = {}"
    "\<not> xp_received_eos rx" "\<not> xp_sent_eos rx" "\<not> xp_encoder_sent_eos_ack rx"
    using s by (auto simp: mid_stream_def)
  let ?x0 = "rx\<lparr>xp_buffer := wire_bytes (Frame x)\<rparr>" and ?x1 = "rx\<lparr>xp_buffer := [], xp_frame_buffer := xp_frame_buffer rx @ x\<rparr>"
  have op: "pipe_op valid ?x0 = Some (Break, ?x1)"
    by (subst pipe_op_Frame [of _ x "[]"]) (use x d in simp_all)
  obtain p where p: "pipe_decode ?x1 = Some (Break, ?x1\<lparr>xp_frame_buffer := ds_input st, xp_decoder := Some (ds_dec st),
      xp_caches := (xp_caches ?x1)(uuid \<mapsto> xd_cache (ds_dec st)), xp_decoder_pipe := p\<rparr>)" "undelivered p = decoded ?x1 @ ds_output st"
    by (rule pipe_decode_left [of ?x1 uuid d0 c st]) (use d e dec ok x in \<open>simp_all add: pipes_ok_def\<close>)
  define rx' where "rx' = rx\<lparr>xp_buffer := [], xp_frame_buffer := ds_input st, xp_decoder := Some (ds_dec st),
      xp_caches := (xp_caches rx)(uuid \<mapsto> xd_cache (ds_dec st)), xp_decoder_pipe := p\<rparr>"
  have "pipe_step valid ?x0 = Some (Break, rx')" using op p(1) by (simp add: pipe_step_def rx'_def)
  then have c1: "decoder_consume valid (wire_bytes (Frame x)) rx = Some rx'"
    using consume_one [of valid "wire_bytes (Frame x)" rx rx'] e by (simp add: rx'_def decoder_finish_eos_def decoder_finish_ack_def)
  have rd: "read_tokens \<lparr>ds_output = [], ds_input = xp_frame_buffer rx @ x, ds_unknown = {}, ds_dec = d\<rparr> = (True, st)"
    using dec(1) decode_eq [OF wf] by simp
  have wf': "decoder_wf (ds_dec st)" using read_tokens_wf [of "\<lparr>ds_output = [], ds_input = xp_frame_buffer rx @ x, ds_unknown = {}, ds_dec = d\<rparr>"] rd wf by simp
  let ?e0 = "rx'\<lparr>xp_buffer := wire_bytes Eos\<rparr>" and ?e1 = "rx'\<lparr>xp_received_eos := True\<rparr>"
  have "pipe_op valid ?e0 = Some (Break, ?e1)" by (subst pipe_op_Eos [of _ "[]"]) (use e in \<open>simp_all add: rx'_def\<close>)
  moreover have "pipe_decode ?e1 = Some (Break, ?e1)"
    by (rule pipe_decode_incomplete [of _ uuid "ds_dec st"]) (use d e wf' dec read_tokens_incomplete [OF rd] in \<open>simp_all add: rx'_def\<close>)
  ultimately have "pipe_step valid ?e0 = Some (Break, ?e1)" by (simp add: pipe_step_def)
  then have "decoder_consume valid (wire_bytes Eos) rx' = None"
    using consume_one [of valid "wire_bytes Eos" rx' ?e1] e dec(2) by (simp add: rx'_def decoder_finish_eos_def)
  then show ?thesis using c1 p(2) by (intro exI [of _ rx']) (simp add: rx'_def decoded_def)
qed

definition greeted_receiver :: xcodec_pipe_pair where
  "greeted_receiver = (pipe_pair_new [some_uuid \<mapsto> XCodecMemoryCache Map.empty] [])
     \<lparr>xp_decoder_cache := Some some_uuid, xp_decoder := Some (decoder_new (XCodecMemoryCache Map.empty))\<rparr>"

theorem truncated_stream_stops_witness:
  "decoder_consume (\<lambda>_. True) (wire_bytes (Hello some_uuid)) (pipe_pair_new Map.empty []) = Some greeted_receiver \<and>
   (\<exists>rx'. decoder_consume (\<lambda>_. True) (wire_bytes (Frame [7, XCODEC_MAGIC])) greeted_receiver = Some rx' \<and>
      undelivered (xp_decoder_pipe rx') = [7] \<and> decoder_consume (\<lambda>_. True) (wire_bytes Eos) rx' = None)"
proof -
  let ?d = "decoder_new (XCodecMemoryCache Map.empty)" and ?x = "[7, XCODEC_MAGIC]"
  let ?st = "\<lparr>ds_output = [7], ds_input = [XCODEC_MAGIC], ds_unknown = {}, ds_dec = ?d\<rparr>"
  have wf: "decoder_wf ?d" using new_cache(2) by (rule decoder_wf_new)
  have s: "mid_stream ?d greeted_receiver"
    using wf pipe_pair_new_ok(1) [of "[some_uuid \<mapsto> XCodecMemoryCache Map.empty]" "[]"]
    by (simp add: mid_stream_def greeted_receiver_def pipes_ok_def decoder_new_def)
  have dec: "decode [] (xp_frame_buffer greeted_receiver @ ?x) {} ?d = Some (True, ?st)"
    by (simp add: decode_eq [OF wf] read_tokens.simps token_step_def next_token_def XCODEC_MAGIC_def greeted_receiver_def)
  have u: "undelivered (xp_decoder_pipe greeted_receiver) = []" by (simp add: greeted_receiver_def pipe_pair_new_def undelivered_def pipe_producer_new_def)
  have "pipe_op (\<lambda>_. True) ((pipe_pair_new Map.empty [])\<lparr>xp_buffer := wire_bytes (Hello some_uuid)\<rparr>) = Some (Break, greeted_receiver)"
    using new_cache(4) by (subst pipe_op_Hello [of _ some_uuid "[]"]) (simp_all add: peer_cache_def greeted_receiver_def pipe_pair_new_def)
  then have "decoder_consume (\<lambda>_. True) (wire_bytes (Hello some_uuid)) (pipe_pair_new Map.empty []) = Some greeted_receiver"
    by (subst consume_one [of _ _ _ greeted_receiver])
      (simp_all add: pipe_step_def pipe_decode_def pipe_send_eos_ack_def greeted_receiver_def decoder_finish_eos_def decoder_finish_ack_def)
  moreover have "\<exists>rx'. decoder_consume (\<lambda>_. True) (wire_bytes (Frame ?x)) greeted_receiver = Some rx' \<and>
      undelivered (xp_decoder_pipe rx') = undelivered (xp_decoder_pipe greeted_receiver) @ ds_output ?st \<and>
      xp_frame_buffer rx' = ds_input ?st \<and> decoder_consume (\<lambda>_. True) (wire_bytes Eos) rx' = None"
    by (rule truncated_stream_stops [OF s _ _ dec]) (simp_all add: XCODEC_PIPE_MAX_FRAME_def)
  ultimately show ?thesis using u by auto
qed

end
