(* ===== verification/Socks.thy ===== *)
theory Socks
  imports Endian Pipe_Producer
begin

text \<open>
  class ProxySocksConnection (programs/wanproxy/proxy_socks_connection.cc): the server side
  of SOCKS4 and SOCKS5 on a new client, one byte field at a time, up to the
  ProxyConnector that takes the client over.  A handler is called with the Event of the
  action that is pending; \<open>None\<close> is a failed assertion.  Which request makes a handler fail
  one, and what the handlers make of the others, is proved at the end.
\<close>

section \<open>State\<close>

datatype socks_phase = GetSOCKSVersion
  | GetSOCKS4Command | GetSOCKS4Port | GetSOCKS4Address | GetSOCKS4User
  | GetSOCKS5AuthLength | GetSOCKS5Auth | GetSOCKS5Command | GetSOCKS5Reserved | GetSOCKS5AddressType
  | GetSOCKS5Address | GetSOCKS5NameLength | GetSOCKS5Name | GetSOCKS5Port

datatype socks_action = SocksRead nat | SocksWrite bytes | SocksClose

datatype address_family = SocketAddressFamilyIP | SocketAddressFamilyIPv4

record socks =
  sk_client :: bool
  sk_action :: "socks_action option"
  sk_state :: socks_phase
  sk_port :: u16
  sk_address :: u32
  sk_authenticated :: bool
  sk_remote_name :: bytes

text \<open>What a handler leaves: the connection, or its end with a new ProxyConnector or without.\<close>

datatype socks_outcome = SocksOpen socks | SocksConnect address_family bytes | SocksClosed

section \<open>Scheduling\<close>

definition socks_schedule_read :: "nat \<Rightarrow> socks \<Rightarrow> socks option" where
  "socks_schedule_read amount s = do {
     assert_that (sk_action s = None);
     assert_that (sk_client s);
     Some (s\<lparr>sk_action := Some (SocksRead amount)\<rparr>) }"

definition socks4_connected :: bytes where "socks4_connected = [0x00, 0x5a, 0x00, 0x00, 0x00, 0x00, 0x00, 0x00]"
definition socks5_authenticated :: bytes where "socks5_authenticated = [0x05, 0x00]"
definition socks5_connected :: bytes where "socks5_connected = [0x05, 0x00, 0x00]"

definition socks_response :: "socks \<Rightarrow> bytes option" where
  "socks_response s =
     (case sk_state s of
        GetSOCKS4User \<Rightarrow> Some socks4_connected
      | GetSOCKS5Auth \<Rightarrow> Some socks5_authenticated
      | GetSOCKS5Port \<Rightarrow> do {
          response \<leftarrow>
            (if sk_remote_name s \<noteq> [] \<or> sk_address s = 0
             then buf_append_bytes (socks5_connected @ [0x03] @ [of_nat (length (sk_remote_name s))]) (sk_remote_name s)
             else Some (socks5_connected @ [0x01] @ be32 (sk_address s)));
          Some (response @ be16 (sk_port s)) }
      | _ \<Rightarrow> None)"

definition socks_schedule_write :: "socks \<Rightarrow> socks option" where
  "socks_schedule_write s = do {
     assert_that (sk_action s = None);
     response \<leftarrow> socks_response s;
     assert_that (sk_client s);
     Some (s\<lparr>sk_action := Some (SocksWrite response)\<rparr>) }"

definition socks_schedule_close :: "socks \<Rightarrow> socks option" where
  "socks_schedule_close s = do {
     assert_that (sk_action s = None);
     assert_that (sk_client s);
     Some (s\<lparr>sk_action := Some SocksClose\<rparr>) }"

definition socks_new :: "socks option" where
  "socks_new = socks_schedule_read 1
     \<lparr>sk_client = True, sk_action = None, sk_state = GetSOCKSVersion, sk_port = 0, sk_address = 0,
      sk_authenticated = False, sk_remote_name = []\<rparr>"

section \<open>read_complete\<close>

text \<open>The value of a byte, and the two fields in network byte order.\<close>

definition socks_goto :: "socks_phase \<Rightarrow> nat \<Rightarrow> socks \<Rightarrow> socks option" where
  "socks_goto st amount s = socks_schedule_read amount (s\<lparr>sk_state := st\<rparr>)"

definition socks_port :: "bytes \<Rightarrow> socks \<Rightarrow> socks option" where
  "socks_port buf s = do { port \<leftarrow> buf_copyout buf 0 2; Some (s\<lparr>sk_port := be16_value port\<rparr>) }"

definition socks_address :: "bytes \<Rightarrow> socks \<Rightarrow> socks option" where
  "socks_address buf s = do { address \<leftarrow> buf_copyout buf 0 4; Some (s\<lparr>sk_address := be32_value address\<rparr>) }"

definition socks_version :: "byte \<Rightarrow> socks \<Rightarrow> socks option" where
  "socks_version b s =
     (if b = 0x04 then socks_goto GetSOCKS4Command 1 s
      else if b = 0x05 then
        (if sk_authenticated s then socks_goto GetSOCKS5Command 1 s else socks_goto GetSOCKS5AuthLength 1 s)
      else socks_schedule_close s)"

definition socks_address_type :: "byte \<Rightarrow> socks \<Rightarrow> socks option" where
  "socks_address_type b s =
     (if b = 0x01 then socks_goto GetSOCKS5Address 4 s
      else if b = 0x03 then socks_goto GetSOCKS5NameLength 1 s
      else socks_schedule_close s)"

text \<open>The loop over the authentication methods stops at "no authentication required".\<close>

fun socks_auth :: "bytes \<Rightarrow> socks \<Rightarrow> socks option" where
  "socks_auth [] s = socks_schedule_close s"
| "socks_auth (b # buf) s = (if b = 0x00 then socks_schedule_write s else socks_auth buf s)"

definition socks_input :: "bytes \<Rightarrow> socks \<Rightarrow> socks option" where
  "socks_input buf s =
     (case sk_state s of
        GetSOCKSVersion \<Rightarrow> do { b \<leftarrow> buf_peek buf; socks_version b s }
      | GetSOCKS4Command \<Rightarrow> do {
          b \<leftarrow> buf_peek buf;
          (if b \<noteq> 0x01 then socks_schedule_close s else socks_goto GetSOCKS4Port 2 s) }
      | GetSOCKS4Port \<Rightarrow> do { s \<leftarrow> socks_port buf s; socks_goto GetSOCKS4Address 4 s }
      | GetSOCKS4Address \<Rightarrow> do { s \<leftarrow> socks_address buf s; socks_goto GetSOCKS4User 1 s }
      | GetSOCKS4User \<Rightarrow> do {
          b \<leftarrow> buf_peek buf;
          (if b = 0x00 then socks_schedule_write s else socks_schedule_read 1 s) }
      | GetSOCKS5AuthLength \<Rightarrow> do { b \<leftarrow> buf_peek buf; socks_goto GetSOCKS5Auth (unat b) s }
      | GetSOCKS5Auth \<Rightarrow> socks_auth buf s
      | GetSOCKS5Command \<Rightarrow> do {
          b \<leftarrow> buf_peek buf;
          (if b \<noteq> 0x01 then socks_schedule_close s else socks_goto GetSOCKS5Reserved 1 s) }
      | GetSOCKS5Reserved \<Rightarrow> do {
          b \<leftarrow> buf_peek buf;
          (if b \<noteq> 0x00 then socks_schedule_close s else socks_goto GetSOCKS5AddressType 1 s) }
      | GetSOCKS5AddressType \<Rightarrow> do { b \<leftarrow> buf_peek buf; socks_address_type b s }
      | GetSOCKS5Address \<Rightarrow> do { s \<leftarrow> socks_address buf s; socks_goto GetSOCKS5Port 2 s }
      | GetSOCKS5NameLength \<Rightarrow> do { b \<leftarrow> buf_peek buf; socks_goto GetSOCKS5Name (unat b) s }
      | GetSOCKS5Name \<Rightarrow> socks_goto GetSOCKS5Port 2 (s\<lparr>sk_remote_name := sk_remote_name s @ buf\<rparr>)
      | GetSOCKS5Port \<Rightarrow> do { s \<leftarrow> socks_port buf s; socks_schedule_write s })"

definition socks_cancel :: "socks \<Rightarrow> socks option" where
  "socks_cancel s = do { assert_that (sk_action s \<noteq> None); Some (s\<lparr>sk_action := None\<rparr>) }"

definition socks_read_complete :: "event \<Rightarrow> socks \<Rightarrow> socks option" where
  "socks_read_complete e s = do {
     s \<leftarrow> socks_cancel s;
     (if ev_type e = Done then socks_input (ev_buffer e) s else socks_schedule_close s) }"

section \<open>write_complete and close_complete\<close>

text \<open>Integers are written to the stream in decimal.\<close>

fun decimal :: "nat \<Rightarrow> bytes" where
  "decimal n = (if n < 10 then [0x30 + of_nat n] else decimal (n div 10) @ [0x30 + of_nat (n mod 10)])"

declare decimal.simps [simp del]

definition dotted :: "u32 \<Rightarrow> bytes" where
  "dotted a =
     decimal (unat (and (drop_bit 24 a) 0xff)) @ [0x2e] @ decimal (unat (and (drop_bit 16 a) 0xff)) @ [0x2e] @
     decimal (unat (and (drop_bit 8 a) 0xff)) @ [0x2e] @ decimal (unat (and (drop_bit 0 a) 0xff))"

definition socks_connect :: "socks \<Rightarrow> socks_outcome option" where
  "socks_connect s =
     (if sk_state s = GetSOCKS5Port \<and> sk_remote_name s \<noteq> [] then do {
        assert_that (sk_authenticated s);
        assert_that (sk_address s = 0);
        Some (SocksConnect SocketAddressFamilyIP
          ([0x5b] @ sk_remote_name s @ [0x5d] @ [0x3a] @ decimal (unat (sk_port s)))) }
      else Some (SocksConnect SocketAddressFamilyIPv4
        ([0x5b] @ dotted (sk_address s) @ [0x5d] @ [0x3a] @ decimal (unat (sk_port s)))))"

definition socks_write_complete :: "event \<Rightarrow> socks \<Rightarrow> socks_outcome option" where
  "socks_write_complete e s = do {
     s \<leftarrow> socks_cancel s;
     (if ev_type e \<noteq> Done then do { s \<leftarrow> socks_schedule_close s; Some (SocksOpen s) }
      else if sk_state s = GetSOCKS5Auth then do {
        assert_that (\<not> sk_authenticated s);
        assert_that (sk_remote_name s = []);
        assert_that (sk_address s = 0);
        assert_that (sk_port s = 0);
        s \<leftarrow> socks_schedule_read 1 (s\<lparr>sk_authenticated := True, sk_state := GetSOCKSVersion\<rparr>);
        Some (SocksOpen s) }
      else socks_connect s) }"

definition socks_close_complete :: "socks \<Rightarrow> socks_outcome option" where
  "socks_close_complete s = do {
     s \<leftarrow> socks_cancel s;
     assert_that (sk_client s);
     Some SocksClosed }"

section \<open>Any client\<close>

text \<open>The callback of the pending action.  A read of 0 bytes asks for whatever there is.\<close>

definition socks_complete :: "event \<Rightarrow> socks \<Rightarrow> socks_outcome option" where
  "socks_complete e s =
     (case sk_action s of
        None \<Rightarrow> None
      | Some (SocksRead n) \<Rightarrow> do { s \<leftarrow> socks_read_complete e s; Some (SocksOpen s) }
      | Some (SocksWrite bs) \<Rightarrow> socks_write_complete e s
      | Some SocksClose \<Rightarrow> socks_close_complete s)"

definition socks_event :: "event \<Rightarrow> socks \<Rightarrow> bool" where
  "socks_event e s \<longleftrightarrow>
     (\<forall>n. sk_action s = Some (SocksRead n) \<and> ev_type e = Done \<longrightarrow>
        (if n = 0 then ev_buffer e \<noteq> [] else length (ev_buffer e) = n))"

inductive socks_reachable :: "socks \<Rightarrow> bool" where
  socks_start: "socks_new = Some s \<Longrightarrow> socks_reachable s"
| socks_next: "socks_reachable s \<Longrightarrow> socks_event e s \<Longrightarrow> socks_complete e s = Some (SocksOpen s') \<Longrightarrow> socks_reachable s'"

section \<open>The invariant\<close>

definition socks_pending :: "socks \<Rightarrow> bool" where
  "socks_pending s \<longleftrightarrow>
     (case sk_action s of
        None \<Rightarrow> False
      | Some SocksClose \<Rightarrow> True
      | Some (SocksWrite bs) \<Rightarrow> sk_state s \<in> {GetSOCKS4User, GetSOCKS5Auth, GetSOCKS5Port}
      | Some (SocksRead n) \<Rightarrow>
          (case sk_state s of GetSOCKS4Port \<Rightarrow> n = 2 | GetSOCKS5Port \<Rightarrow> n = 2 | GetSOCKS4Address \<Rightarrow> n = 4
           | GetSOCKS5Address \<Rightarrow> n = 4 | GetSOCKS5Auth \<Rightarrow> True | GetSOCKS5Name \<Rightarrow> True | _ \<Rightarrow> n = 1))"

definition socks_blank :: "socks \<Rightarrow> bool" where
  "socks_blank s \<longleftrightarrow> sk_remote_name s = [] \<and> sk_address s = 0 \<and> sk_port s = 0"

definition socks_fields :: "socks \<Rightarrow> bool" where
  "socks_fields s \<longleftrightarrow> sk_client s \<and>
     (case sk_state s of
        GetSOCKSVersion \<Rightarrow> socks_blank s | GetSOCKS4Command \<Rightarrow> socks_blank s | GetSOCKS4Port \<Rightarrow> socks_blank s
      | GetSOCKS4Address \<Rightarrow> sk_remote_name s = [] \<and> sk_address s = 0
      | GetSOCKS4User \<Rightarrow> sk_remote_name s = []
      | GetSOCKS5AuthLength \<Rightarrow> \<not> sk_authenticated s \<and> socks_blank s
      | GetSOCKS5Auth \<Rightarrow> \<not> sk_authenticated s \<and> socks_blank s
      | GetSOCKS5Port \<Rightarrow> sk_authenticated s \<and> (sk_remote_name s \<noteq> [] \<longrightarrow> sk_address s = 0)
      | _ \<Rightarrow> sk_authenticated s \<and> socks_blank s)"

definition socks_ok :: "socks \<Rightarrow> bool" where
  "socks_ok s \<longleftrightarrow> socks_pending s \<and> socks_fields s"

lemma socks_okD: "socks_ok s \<Longrightarrow> sk_action s \<noteq> None \<and> sk_client s"
  by (cases "sk_action s") (auto simp: socks_ok_def socks_pending_def socks_fields_def)

lemmas socks_inv_defs = socks_ok_def socks_pending_def socks_fields_def socks_blank_def

lemmas socks_schedule_defs = socks_schedule_read_def socks_schedule_write_def socks_schedule_close_def socks_goto_def

lemma socks_ok_new: "socks_new = Some s \<Longrightarrow> socks_ok s"
  by (auto simp: socks_new_def socks_schedule_defs socks_inv_defs)

lemma socks_auth_ok:
  assumes "sk_state s = GetSOCKS5Auth" "sk_action s = None" "sk_client s"
  shows "socks_auth buf s = Some (s\<lparr>sk_action := Some (if 0 \<in> set buf then SocksWrite socks5_authenticated else SocksClose)\<rparr>)"
  using assms by (induction buf) (auto simp: socks_schedule_defs socks_response_def)

text \<open>A client that has given the address 0.0.0.0 and no name, of which the port is being read: the reply will be about an empty name,
  which cannot be appended to it.\<close>

definition socks_nowhere :: "socks \<Rightarrow> bool" where
  "socks_nowhere s \<longleftrightarrow> sk_state s = GetSOCKS5Port \<and> sk_action s = Some (SocksRead 2) \<and> sk_remote_name s = [] \<and> sk_address s = 0"

lemma socks_response_port:
  assumes "sk_state s = GetSOCKS5Port"
  shows "socks_response s = None \<longleftrightarrow> sk_remote_name s = [] \<and> sk_address s = 0"
  using assms by (auto simp: socks_response_def buf_append_bytes_def assert_that_def)

lemma socks_input_ok:
  assumes p: "socks_ok s" "sk_action s = Some (SocksRead n)" and n: "if n = 0 then buf \<noteq> [] else length buf = n"
    and some: "\<not> socks_nowhere s"
  shows "\<exists>s'. socks_input buf (s\<lparr>sk_action := None\<rparr>) = Some s' \<and> socks_ok s'"
proof (cases "sk_state s \<in> {GetSOCKS5Auth, GetSOCKS5Name}")
  case True
  then show ?thesis using p
    by (elim insertE) (simp_all add: socks_input_def socks_auth_ok socks_schedule_defs socks_inv_defs)
next
  case False
  then have "length buf = n" "0 < n" using p n by (cases "sk_state s"; simp add: socks_inv_defs)+
  then have buf: "buf_peek buf = Some (hd buf)" by (auto simp: buf_peek_def)
  have port: "sk_state s \<in> {GetSOCKS4Port, GetSOCKS5Port} \<Longrightarrow> buf_copyout buf 0 2 = Some (take 2 buf)"
    and address: "sk_state s \<in> {GetSOCKS4Address, GetSOCKS5Address} \<Longrightarrow> buf_copyout buf 0 4 = Some (take 4 buf)"
    using p \<open>length buf = n\<close> by (auto simp: buf_copyout_def socks_inv_defs)
  show ?thesis using p False buf port address some
    by (cases "sk_state s") (auto simp: socks_input_def socks_schedule_defs socks_version_def socks_address_type_def
        socks_port_def socks_address_def socks_response_def socks_inv_defs socks_nowhere_def buf_append_bytes_def)
qed

lemma socks_nowhere_fails:
  assumes "socks_nowhere s" "ev_type e = Done" "socks_event e s"
  shows "socks_complete e s = None"
proof -
  have "length (ev_buffer e) = 2" using assms by (simp add: socks_nowhere_def socks_event_def)
  then show ?thesis using assms(1,2)
    by (simp add: socks_nowhere_def socks_complete_def socks_read_complete_def socks_cancel_def socks_input_def socks_port_def
        buf_copyout_def socks_schedule_write_def socks_response_def buf_append_bytes_def)
qed

lemma socks_close_ok: "socks_fields s \<Longrightarrow> sk_action s = None \<Longrightarrow> \<exists>s'. socks_schedule_close s = Some s' \<and> socks_ok s'"
  by (cases "sk_state s") (simp_all add: socks_schedule_defs socks_inv_defs)

lemma socks_complete_ok:
  assumes s: "socks_ok s" and e: "socks_event e s" and some: "\<not> (socks_nowhere s \<and> ev_type e = Done)"
  shows "\<exists>out. socks_complete e s = Some out \<and> (\<forall>s'. out = SocksOpen s' \<longrightarrow> socks_ok s')"
proof -
  let ?s = "s\<lparr>sk_action := None\<rparr>"
  obtain a where a: "sk_action s = Some a" using s by (auto simp: socks_ok_def socks_pending_def split: option.splits)
  then have c: "socks_cancel s = Some ?s" by (simp add: socks_cancel_def)
  have f: "socks_fields ?s" using s by (cases "sk_state s") (simp_all add: socks_inv_defs)
  obtain sc where sc: "socks_schedule_close ?s = Some sc" "socks_ok sc" using socks_close_ok [OF f] by auto
  show ?thesis
  proof (cases a)
    case (SocksRead n)
    show ?thesis
    proof (cases "ev_type e = Done")
      case True
      then have "if n = 0 then ev_buffer e \<noteq> [] else length (ev_buffer e) = n" using e a SocksRead by (simp add: socks_event_def)
      then have "\<exists>s'. socks_input (ev_buffer e) ?s = Some s' \<and> socks_ok s'"
        by (intro socks_input_ok [OF s]) (use a SocksRead True some in simp_all)
      then show ?thesis using True a SocksRead c by (auto simp: socks_complete_def socks_read_complete_def)
    next
      case False
      then show ?thesis using a SocksRead c sc by (simp add: socks_complete_def socks_read_complete_def)
    qed
  next
    case (SocksWrite bs)
    then have "sk_state s \<in> {GetSOCKS4User, GetSOCKS5Auth, GetSOCKS5Port}" using s a by (simp add: socks_ok_def socks_pending_def)
    then show ?thesis using a SocksWrite c sc f
      by (elim insertE) (simp_all add: socks_complete_def socks_write_complete_def socks_connect_def socks_schedule_defs socks_inv_defs)
  next
    case SocksClose
    then show ?thesis using a c socks_okD [OF s] by (simp add: socks_complete_def socks_close_complete_def)
  qed
qed

lemma socks_reachable_ok: "socks_reachable s \<Longrightarrow> socks_ok s"
proof (induction rule: socks_reachable.induct)
  case (socks_next s e s')
  then have "\<not> (socks_nowhere s \<and> ev_type e = Done)" using socks_nowhere_fails by fastforce
  then show ?case using socks_complete_ok [OF socks_next.IH socks_next.hyps(2)] socks_next.hyps(3) by auto
qed (rule socks_ok_new)

text \<open>C17: Whatever bytes a client sends, whenever it closes the connection and whatever I/O errors occur, there is exactly one way to
  make an assertion of \<^verbatim>\<open>ProxySocksConnection\<close> fail: a SOCKS5 client that asks for the address 0.0.0.0 does so when its port has
  arrived, because the empty name is appended to the reply.  In every other state that can be reached the callback of the
  pending action returns, with the connection kept, closed, or handed to a ProxyConnector, and exactly one action is pending as
  long as it is kept.\<close>

theorem socks_fails_only_nowhere:
  assumes "socks_reachable s" and "socks_event e s"
  shows "if socks_nowhere s \<and> ev_type e = Done then socks_complete e s = None
    else \<exists>out. socks_complete e s = Some out \<and> (\<forall>s'. out = SocksOpen s' \<longrightarrow> sk_action s' \<noteq> None \<and> sk_client s')"
proof (cases "socks_nowhere s \<and> ev_type e = Done")
  case True
  then show ?thesis using socks_nowhere_fails assms(2) by simp
next
  case False
  then show ?thesis using socks_complete_ok [OF socks_reachable_ok [OF assms(1)] assms(2)] socks_okD by auto
qed

text \<open>The state is reached: the bytes of a SOCKS5 client up to the address 0.0.0.0, then its port.\<close>

definition socks_zero_address :: socks where
  "socks_zero_address = \<lparr>sk_client = True, sk_action = Some (SocksRead 2), sk_state = GetSOCKS5Port, sk_port = 0, sk_address = 0,
     sk_authenticated = True, sk_remote_name = []\<rparr>"

fun socks_feed :: "event list \<Rightarrow> socks \<Rightarrow> socks option" where
  "socks_feed [] s = Some s"
| "socks_feed (e # es) s = (case sk_action s of
     Some (SocksRead n) \<Rightarrow> if n = 0 \<or> length (ev_buffer e) \<noteq> n then None
       else (case socks_complete e s of Some (SocksOpen s) \<Rightarrow> socks_feed es s | _ \<Rightarrow> None)
   | _ \<Rightarrow> (case socks_complete e s of Some (SocksOpen s) \<Rightarrow> socks_feed es s | _ \<Rightarrow> None))"

lemma socks_feed_reachable: "socks_reachable s \<Longrightarrow> socks_feed es s = Some s' \<Longrightarrow> socks_reachable s'"
proof (induction es arbitrary: s)
  case (Cons e es)
  obtain s1 where "socks_complete e s = Some (SocksOpen s1)" "socks_feed es s1 = Some s'" "socks_event e s"
    using Cons.prems(2) by (auto simp: socks_event_def split: option.splits socks_action.splits socks_outcome.splits if_splits)
  then show ?case using Cons.IH Cons.prems(1) socks_next by blast
qed simp

lemma socks_zero_address_reachable: "socks_reachable socks_zero_address"
proof -
  obtain s where s: "socks_new = Some s" by (simp add: socks_new_def socks_schedule_read_def)
  let ?es = "[event_with Done [5], event_with Done [1], event_with Done [0], event_of Done,
      event_with Done [5], event_with Done [1], event_with Done [0], event_with Done [1], event_with Done [0, 0, 0, 0]]"
  have "Option.bind socks_new (socks_feed ?es) = Some socks_zero_address" by code_simp
  then have "socks_feed ?es s = Some socks_zero_address" unfolding s bind.simps .
  then show ?thesis by (rule socks_feed_reachable [OF socks_start [OF s]])
qed

theorem socks_fails_only_nowhere_witness:
  "socks_reachable socks_zero_address \<and> socks_complete (event_with Done [0, 80]) socks_zero_address = None"
proof -
  have "socks_event (event_with Done [0, 80]) socks_zero_address" by (simp add: socks_event_def socks_zero_address_def)
  from socks_fails_only_nowhere [OF socks_zero_address_reachable this] show ?thesis
    using socks_zero_address_reachable by (simp add: socks_nowhere_def socks_zero_address_def)
qed

section \<open>Whole requests\<close>

text \<open>
  A client that sends \<open>inp\<close>, over a channel that reads exactly what is asked for and
  writes at once: what is written to it, what becomes of the connection and what has not
  been read.
\<close>

lemma socks_write_reads: "socks_complete e s = Some (SocksOpen s') \<Longrightarrow> sk_action s = Some (SocksWrite bs) \<Longrightarrow> sk_action s' \<noteq> Some (SocksWrite bs')"
  by (auto simp: socks_complete_def socks_write_complete_def socks_connect_def socks_schedule_defs bind_eq_Some_conv split: if_splits)

function socks_talk :: "bytes \<Rightarrow> socks \<Rightarrow> (bytes \<times> socks_outcome \<times> bytes) option" where
  "socks_talk inp s =
     (case sk_action s of
        Some (SocksRead n) \<Rightarrow>
          (if n = 0 \<or> length inp < n then Some ([], SocksOpen s, inp)
           else case socks_complete (event_with Done (take n inp)) s of
             None \<Rightarrow> None
           | Some (SocksOpen s) \<Rightarrow> socks_talk (drop n inp) s
           | Some out \<Rightarrow> Some ([], out, drop n inp))
      | Some (SocksWrite bs) \<Rightarrow>
          (case socks_complete (event_of Done) s of
             None \<Rightarrow> None
           | Some (SocksOpen s) \<Rightarrow>
               (case socks_talk inp s of None \<Rightarrow> None | Some (ws, out, inp) \<Rightarrow> Some (bs @ ws, out, inp))
           | Some out \<Rightarrow> Some (bs, out, inp))
      | _ \<Rightarrow> Some ([], SocksOpen s, inp))"
  by pat_completeness auto
termination
proof (relation "measure (\<lambda>(inp, s). 2 * length inp + (case sk_action s of Some (SocksWrite bs) \<Rightarrow> 1 | _ \<Rightarrow> 0))", goal_cases)
  case (2 inp s a n b s')
  then show ?case by (auto split: option.splits socks_action.splits)
next
  case (3 inp s a bs b s')
  then show ?case by (auto split: option.splits socks_action.splits dest: socks_write_reads)
qed simp

declare socks_talk.simps [simp del]

lemma socks_talk_read:
  assumes "sk_action s = Some (SocksRead (length field))" "field \<noteq> []"
    and "socks_input field (s\<lparr>sk_action := None\<rparr>) = Some s'"
  shows "socks_talk (field @ inp) s = socks_talk inp s'"
  using assms by (subst socks_talk.simps) (simp add: socks_complete_def socks_read_complete_def socks_cancel_def)

lemmas socks_field_defs = socks_input_def socks_schedule_defs socks_version_def socks_address_type_def socks_port_def
  socks_address_def buf_peek_def buf_copyout_def

lemma socks_talk_user:
  assumes "sk_state s = GetSOCKS4User" "sk_action s = Some (SocksRead 1)" "sk_client s" "0 \<notin> set user"
  shows "socks_talk (user @ [0] @ inp) s = Some (socks4_connected,
    SocksConnect SocketAddressFamilyIPv4 ([0x5b] @ dotted (sk_address s) @ [0x5d, 0x3a] @ decimal (unat (sk_port s))), inp)"
  using assms(4)
proof (induction user)
  case Nil
  have "socks_input [0] (s\<lparr>sk_action := None\<rparr>) = Some (s\<lparr>sk_action := Some (SocksWrite socks4_connected)\<rparr>)"
    using assms by (simp add: socks_field_defs socks_response_def)
  then have "socks_talk ([0] @ inp) s = socks_talk inp (s\<lparr>sk_action := Some (SocksWrite socks4_connected)\<rparr>)"
    using assms by (intro socks_talk_read) simp_all
  then show ?case using assms
    by (simp add: socks_talk.simps [of inp] socks_complete_def socks_write_complete_def socks_cancel_def socks_connect_def)
next
  case (Cons u user)
  have "socks_input [u] (s\<lparr>sk_action := None\<rparr>) = Some s"
    using assms Cons.prems by (cases s) (simp add: socks_field_defs)
  then have "socks_talk ([u] @ (user @ [0] @ inp)) s = socks_talk (user @ [0] @ inp) s"
    using assms by (intro socks_talk_read) simp_all
  then show ?case using Cons by simp
qed

lemma socks_talk_field:
  assumes "sk_action s = Some (SocksRead n)" "length field = n" "0 < n"
  shows "socks_talk (field @ inp) s =
    (case socks_input field (s\<lparr>sk_action := None\<rparr>) of None \<Rightarrow> None | Some s' \<Rightarrow> socks_talk inp s')"
  using assms by (subst socks_talk.simps)
    (auto simp: socks_complete_def socks_read_complete_def socks_cancel_def split: option.split)

lemma socks_talk_byte:
  assumes "sk_action s = Some (SocksRead 1)"
  shows "socks_talk (b # inp) s =
    (case socks_input [b] (s\<lparr>sk_action := None\<rparr>) of None \<Rightarrow> None | Some s' \<Rightarrow> socks_talk inp s')"
  using socks_talk_field [OF assms, of "[b]"] by simp

lemma socks_talk_write:
  assumes "sk_action s = Some (SocksWrite bs)"
  shows "socks_talk inp s =
    (case socks_write_complete (event_of Done) s of None \<Rightarrow> None
     | Some (SocksOpen s') \<Rightarrow> (case socks_talk inp s' of None \<Rightarrow> None | Some (ws, out, inp) \<Rightarrow> Some (bs @ ws, out, inp))
     | Some out \<Rightarrow> Some (bs, out, inp))"
  using assms by (subst socks_talk.simps) (simp add: socks_complete_def)

definition socks_at :: "socks_phase \<Rightarrow> nat \<Rightarrow> bool \<Rightarrow> socks" where
  "socks_at st n auth = \<lparr>sk_client = True, sk_action = Some (SocksRead n), sk_state = st, sk_port = 0, sk_address = 0,
     sk_authenticated = auth, sk_remote_name = []\<rparr>"

lemma socks_new_at: "socks_new = Some s \<longleftrightarrow> s = socks_at GetSOCKSVersion 1 False"
  by (auto simp: socks_new_def socks_schedule_read_def socks_at_def)

lemma socks5_method:
  assumes "length methods = unat n" "0 \<in> set methods"
  shows "socks_talk ([5, n] @ methods @ inp) (socks_at GetSOCKSVersion 1 False) =
    (case socks_talk inp (socks_at GetSOCKSVersion 1 True) of None \<Rightarrow> None
     | Some (ws, out, inp) \<Rightarrow> Some (socks5_authenticated @ ws, out, inp))"
proof -
  have n: "0 < unat n" using assms by (cases methods) auto
  let ?s = "(socks_at GetSOCKS5Auth (unat n) False)\<lparr>sk_action := None\<rparr>"
  have a: "socks_auth methods ?s = Some (?s\<lparr>sk_action := Some (SocksWrite socks5_authenticated)\<rparr>)"
    using assms(2) by (subst socks_auth_ok) (simp_all add: socks_at_def)
  have "socks_talk ([5, n] @ methods @ inp) (socks_at GetSOCKSVersion 1 False) =
      socks_talk (methods @ inp) (socks_at GetSOCKS5Auth (unat n) False)"
    by (simp add: socks_at_def socks_talk_byte socks_field_defs)
  also have "\<dots> = socks_talk inp (?s\<lparr>sk_action := Some (SocksWrite socks5_authenticated)\<rparr>)"
    using a n assms(1) by (subst socks_talk_field) (simp_all add: socks_input_def socks_at_def)
  finally show ?thesis
    by (simp add: socks_talk_write socks_write_complete_def socks_cancel_def socks_schedule_read_def socks_at_def)
qed

text \<open>C18: A SOCKS4 CONNECT request, whatever the user name, is answered with "granted" and the client is
  handed to a ProxyConnector for exactly the address and port of the request; bytes after
  the request are left for it.\<close>

theorem socks4_connects:
  assumes "socks_new = Some s" and "0 \<notin> set user"
  shows "socks_talk ([4, 1] @ be16 port @ be32 address @ user @ [0] @ rest) s =
    Some (socks4_connected,
      SocksConnect SocketAddressFamilyIPv4 ([0x5b] @ dotted address @ [0x5d, 0x3a] @ decimal (unat port)), rest)"
proof -
  let ?u = "(socks_at GetSOCKS4User 1 False)\<lparr>sk_port := port, sk_address := address\<rparr>"
  have "socks_talk ([4, 1] @ be16 port @ be32 address @ user @ [0] @ rest) s = socks_talk (user @ [0] @ rest) ?u"
    using assms(1) by (simp add: socks_new_at socks_at_def socks_talk_byte socks_talk_field socks_field_defs)
  then show ?thesis using socks_talk_user [of ?u user rest] assms(2) by (simp add: socks_at_def)
qed

theorem socks4_connects_witness:
  "socks_talk ([4, 1] @ be16 80 @ be32 0x0a000001 @ [0x6d, 0, 0x47])
     \<lparr>sk_client = True, sk_action = Some (SocksRead 1), sk_state = GetSOCKSVersion, sk_port = 0, sk_address = 0,
      sk_authenticated = False, sk_remote_name = []\<rparr> =
   Some (socks4_connected,
     SocksConnect SocketAddressFamilyIPv4 ([0x5b] @ dotted 0x0a000001 @ [0x5d, 0x3a] @ decimal (unat (80 :: u16))), [0x47])"
  using socks4_connects [OF socks_new_at [THEN iffD2, OF refl], of "[0x6d]" 80 "0x0a000001" "[0x47]"]
  by (simp add: socks_at_def)

text \<open>C19: A SOCKS5 client that offers "no authentication" and asks to CONNECT to a name is authenticated,
  gets the reply with the name and the port, and is handed to a ProxyConnector for exactly
  that name and port.\<close>

theorem socks5_connects:
  assumes "socks_new = Some s" and "length methods = unat n" "0 \<in> set methods" and "length name = unat len" "0 < len"
  shows "socks_talk ([5, n] @ methods @ [5, 1, 0, 3, len] @ name @ be16 port @ rest) s =
    Some (socks5_authenticated @ socks5_connected @ [3, len] @ name @ be16 port,
      SocksConnect SocketAddressFamilyIP ([0x5b] @ name @ [0x5d, 0x3a] @ decimal (unat port)), rest)"
proof -
  have len: "0 < unat len" using assms(5) by (simp add: word_less_nat_alt)
  then have name: "name \<noteq> []" "of_nat (length name) = len" using assms(4) by auto
  have "socks_talk ([5, 1, 0, 3, len] @ name @ be16 port @ rest) (socks_at GetSOCKSVersion 1 True) =
      Some (socks5_connected @ [3, len] @ name @ be16 port,
        SocksConnect SocketAddressFamilyIP ([0x5b] @ name @ [0x5d, 0x3a] @ decimal (unat port)), rest)"
    using assms(4) len name
    by (simp add: socks_at_def socks_talk_byte socks_talk_field socks_field_defs socks_talk_write socks_response_def buf_append_bytes_def
        socks_write_complete_def socks_cancel_def socks_connect_def)
  then show ?thesis using socks5_method [OF assms(2,3)] assms(1) by (simp add: socks_new_at)
qed

theorem socks5_connects_witness:
  "socks_talk ([5, 2, 2, 0] @ [5, 1, 0, 3, 1, 0x61] @ be16 80)
     \<lparr>sk_client = True, sk_action = Some (SocksRead 1), sk_state = GetSOCKSVersion, sk_port = 0, sk_address = 0,
      sk_authenticated = False, sk_remote_name = []\<rparr> =
   Some ([5, 0] @ [5, 0, 0, 3, 1, 0x61] @ be16 80,
     SocksConnect SocketAddressFamilyIP ([0x5b, 0x61, 0x5d, 0x3a] @ decimal (unat (80 :: u16))), [])"
  using socks5_connects [OF socks_new_at [THEN iffD2, OF refl], of "[2, 0]" 2 "[0x61]" 1 80 "[]"]
  by (simp add: socks_at_def socks5_authenticated_def socks5_connected_def)

end
