(* ===== verification/SSH_Protocol.thy ===== *)
theory SSH_Protocol
  imports Endian Buffer_Spec
begin

text \<open>
  The data types of the SSH protocol (ssh/ssh_protocol.cc): uint32, string, mpint and
  name-list, each with its encoder and its decoder.  A decoder returns whether it
  succeeded, the value and the input it left.  The big numbers are those of OpenSSL: the
  conversions \<^verbatim>\<open>BN_bn2bin\<close> and \<^verbatim>\<open>BN_bin2bn\<close> are parameters.
\<close>

section \<open>Messages\<close>

definition TransportRangeBegin :: byte where "TransportRangeBegin = 1"
definition TransportRangeEnd :: byte where "TransportRangeEnd = 19"
definition AlgorithmNegotiationRangeBegin :: byte where "AlgorithmNegotiationRangeBegin = 20"
definition KeyExchangeInitializationMessage :: byte where "KeyExchangeInitializationMessage = 20"
definition NewKeysMessage :: byte where "NewKeysMessage = 21"
definition AlgorithmNegotiationRangeEnd :: byte where "AlgorithmNegotiationRangeEnd = 29"
definition KeyExchangeMethodRangeBegin :: byte where "KeyExchangeMethodRangeBegin = 30"
definition KeyExchangeMethodRangeEnd :: byte where "KeyExchangeMethodRangeEnd = 49"

section \<open>UInt32 and String\<close>

definition ssh_uint32_encode :: "bytes \<Rightarrow> u32 \<Rightarrow> bytes" where
  "ssh_uint32_encode out n = out @ be32 n"

definition ssh_uint32_decode :: "bytes \<Rightarrow> (u32 option \<times> bytes) option" where
  "ssh_uint32_decode inp =
     (if length inp < 4 then Some (None, inp)
      else do {
        n \<leftarrow> buf_copyout inp 0 4;
        inp \<leftarrow> buf_skip 4 inp;
        Some (Some (be32_value n), inp) })"

definition ssh_string_encode :: "bytes \<Rightarrow> bytes \<Rightarrow> bytes" where
  "ssh_string_encode out inp =
     (let out = ssh_uint32_encode out (of_nat (length inp)) in
      if inp \<noteq> [] then buf_append_buffer out inp else out)"

text \<open>Returns success, the output and the rest of the input.\<close>

definition ssh_string_decode :: "bytes \<Rightarrow> bytes \<Rightarrow> (bool \<times> bytes \<times> bytes) option" where
  "ssh_string_decode out inp =
     (if length inp < 4 then Some (False, out, inp)
      else do {
        b \<leftarrow> buf_copyout inp 0 4;
        let len = unat (be32_value b);
        (if len = 0 then do { inp \<leftarrow> buf_skip 4 inp; Some (True, out, inp) }
         else if length inp < 4 + len then Some (False, out, inp)
         else do { (out, inp) \<leftarrow> buf_moveout_buffer out inp 4 len; Some (True, out, inp) }) })"

section \<open>MPInt\<close>

text \<open>The number is given by its sign and its bytes; reading \<^verbatim>\<open>buf[0]\<close> of an empty array is undefined.\<close>

definition ssh_mpint_encode :: "('n \<Rightarrow> bool) \<Rightarrow> ('n \<Rightarrow> bytes) \<Rightarrow> bytes \<Rightarrow> 'n \<Rightarrow> bytes option" where
  "ssh_mpint_encode negative bn2bin out n = do {
     assert_that (\<not> negative n);
     let buf = bn2bin n;
     assert_that (buf \<noteq> []);
     (if bit (hd buf) 7 then do {
        let out = ssh_uint32_encode out (of_nat (length buf + 1));
        out \<leftarrow> buf_append_bytes out [0x00];
        buf_append_bytes out buf }
      else buf_append_bytes (ssh_uint32_encode out (of_nat (length buf))) buf) }"

definition ssh_mpint_decode :: "'n \<Rightarrow> (bytes \<Rightarrow> 'n option) \<Rightarrow> bytes \<Rightarrow> ('n option \<times> bytes) option" where
  "ssh_mpint_decode zero bin2bn inp =
     (if length inp < 4 then Some (None, inp)
      else do {
        b \<leftarrow> buf_copyout inp 0 4;
        let len = unat (be32_value b);
        (if len = 0 then do { inp \<leftarrow> buf_skip 4 inp; Some (Some zero, inp) }
         else if length inp < 4 + len then Some (None, inp)
         else do {
           buf \<leftarrow> buf_copyout inp 4 len;
           (case bin2bn buf of
              None \<Rightarrow> Some (None, inp)
            | Some n \<Rightarrow> do { inp \<leftarrow> buf_skip (4 + len) inp; Some (Some n, inp) }) }) })"

section \<open>NameList\<close>

definition ssh_namelist_encode :: "bytes \<Rightarrow> bytes list \<Rightarrow> bytes" where
  "ssh_namelist_encode out names = ssh_string_encode out (buf_join names [0x2c])"

definition ssh_namelist_decode :: "bytes \<Rightarrow> (bytes list option \<times> bytes) option" where
  "ssh_namelist_decode inp = do {
     (ok, merged, inp) \<leftarrow> ssh_string_decode [] inp;
     Some (if ok then Some (buf_split 0x2c False merged) else None, inp) }"

section \<open>Decoding what was encoded\<close>

lemma take_be32 [simp]: "take 4 (be32 n @ r) = be32 n" "drop 4 (be32 n @ r) = r"
  by simp_all

lemma be32_neq_Nil [simp]: "be32 n \<noteq> []"
  using be32.length_enc [of n] by (metis list.size(3) zero_neq_numeral)

lemma ssh_uint32_decode_encode: "ssh_uint32_decode (ssh_uint32_encode [] n @ rest) = Some (Some n, rest)"
  by (simp add: ssh_uint32_decode_def ssh_uint32_encode_def buf_copyout_def buf_skip_def)

lemma unat_length: "length xs < 2 ^ 32 \<Longrightarrow> unat (of_nat (length xs) :: u32) = length xs"
  by (simp add: unsigned_of_nat take_bit_nat_eq_self)

lemma ssh_string_decode_encode:
  assumes "length s < 2 ^ 32"
  shows "ssh_string_decode out (ssh_string_encode [] s @ rest) = Some (True, out @ s, rest)"
proof -
  let ?i = "be32 (of_nat (length s)) @ s @ rest"
  have i: "ssh_string_encode [] s @ rest = ?i" by (simp add: ssh_string_encode_def ssh_uint32_encode_def buf_append_buffer_def Let_def)
  have "buf_copyout ?i 0 4 = Some (be32 (of_nat (length s)))" by (simp add: buf_copyout_def)
  then show ?thesis unfolding i using unat_length [OF assms]
    by (cases "s = []") (simp_all add: ssh_string_decode_def buf_skip_def buf_moveout_buffer_def)
qed

text \<open>Splitting at commas gives back joined names.\<close>

lemma buf_split_loop_join_names:
  "\<forall>x\<in>set xs. x \<noteq> [] \<and> ch \<notin> set x \<Longrightarrow> xs \<noteq> [] \<Longrightarrow> buf_split_loop ch False (buf_join_loop [ch] xs) = xs"
proof (induction xs rule: induct_list012)
  case (2 x)
  then have "buf_find ch 0 x = None" by (auto simp: buf_find_None_iff)
  then show ?case using 2 by (simp add: buf_split_loop.simps)
next
  case (3 x y xs)
  let ?r = "buf_join_loop [ch] (y # xs)"
  have f: "buf_find ch 0 (x @ ch # ?r) = Some (length x)"
    unfolding buf_find_def using 3(3) by (simp del: buf_join_loop.simps) (rule first_index_append_hit, auto)
  have "buf_split_loop ch False (x @ ch # ?r) = x # buf_split_loop ch False ?r"
    using 3(3) by (subst buf_split_loop.simps) (simp add: f)
  then show ?case using 3 by simp
qed simp

lemma buf_split_join_names:
  assumes "\<forall>x\<in>set xs. x \<noteq> [] \<and> ch \<notin> set x"
  shows "buf_split ch False (buf_join xs [ch]) = xs"
proof (cases "xs = []")
  case False
  have j: "buf_join xs [ch] = buf_join_loop [ch] xs" by (cases xs; cases "tl xs") (auto simp: buf_join_def)
  have "buf_join_loop [ch] xs \<noteq> []" using False assms by (cases xs; cases "tl xs") auto
  then show ?thesis using buf_split_loop_join_names [OF assms False] by (simp add: buf_split_def j)
qed (simp add: buf_split_def buf_join_def)

text \<open>C21: A name-list of non-empty names without commas that fits a 32-bit length is read back by
  \<^verbatim>\<open>NameList::decode\<close> exactly as \<^verbatim>\<open>NameList::encode\<close> wrote it, the empty list included, and what
  follows it is left.\<close>

theorem ssh_namelist_round_trip:
  assumes "\<forall>x\<in>set names. x \<noteq> [] \<and> 0x2c \<notin> set x" and "length (buf_join names [0x2c]) < 2 ^ 32"
  shows "ssh_namelist_decode (ssh_namelist_encode [] names @ rest) = Some (Some names, rest)"
  using ssh_string_decode_encode [OF assms(2), of "[]" rest] buf_split_join_names [OF assms(1)]
  by (simp add: ssh_namelist_decode_def ssh_namelist_encode_def)

theorem ssh_namelist_round_trip_witness:
  "ssh_namelist_decode (ssh_namelist_encode [] [[0x61, 0x62], [0x63]] @ [7]) = Some (Some [[0x61, 0x62], [0x63]], [7])"
  using ssh_namelist_round_trip [of "[[0x61, 0x62], [0x63]]" "[7]"] by (simp add: buf_join_def)

text \<open>C22: A non-negative, non-zero number is read back by \<^verbatim>\<open>MPInt::decode\<close> as \<^verbatim>\<open>MPInt::encode\<close> wrote it,
  with the zero byte that keeps the sign bit clear when it needs one, for any
  \<^verbatim>\<open>BN_bin2bn\<close> that inverts \<^verbatim>\<open>BN_bn2bin\<close> and ignores leading zero bytes.\<close>

theorem ssh_mpint_round_trip:
  assumes "\<not> negative n" and "bn2bin n \<noteq> []" and "length (bn2bin n) + 1 < 2 ^ 32"
    and "bin2bn (bn2bin n) = Some n" and "\<And>bs. bin2bn (0 # bs) = bin2bn bs"
  shows "\<exists>bs. ssh_mpint_encode negative bn2bin [] n = Some bs \<and>
    ssh_mpint_decode zero bin2bn (bs @ rest) = Some (Some n, rest) \<and> \<not> bit (bs ! 4) 7"
proof -
  let ?b = "if bit (hd (bn2bin n)) 7 then 0 # bn2bin n else bn2bin n"
  let ?bs = "be32 (of_nat (length ?b)) @ ?b"
  have b: "?b \<noteq> []" "bin2bn ?b = Some n" "\<not> bit (?b ! 0) 7" "length ?b < 2 ^ 32"
    using assms by (simp_all add: hd_conv_nth)
  have e: "ssh_mpint_encode negative bn2bin [] n = Some ?bs"
    using assms(1,2) by (simp add: ssh_mpint_encode_def ssh_uint32_encode_def buf_append_bytes_def Let_def)
  have c: "buf_copyout (?bs @ rest) 0 4 = Some (be32 (of_nat (length ?b)))" "buf_copyout (?bs @ rest) 4 (length ?b) = Some ?b"
    using b(1) by (simp_all add: buf_copyout_def)
  have "buf_skip (4 + length ?b) (?bs @ rest) = Some rest" by (simp add: buf_skip_def)
  then have "ssh_mpint_decode zero bin2bn (?bs @ rest) = Some (Some n, rest)"
    unfolding ssh_mpint_decode_def using c b unat_length [OF b(4)] by (simp add: Let_def)
  moreover have "?bs ! 4 = ?b ! 0" by (simp add: nth_append)
  ultimately show ?thesis using e b(3) by (intro exI [of _ ?bs]) simp
qed

text \<open>Natural numbers in base 256.\<close>

fun nat_bytes :: "nat \<Rightarrow> bytes" where
  "nat_bytes n = (if n = 0 then [] else nat_bytes (n div 256) @ [of_nat n])"

declare nat_bytes.simps [simp del]

definition nat_of_bytes :: "bytes \<Rightarrow> nat" where
  "nat_of_bytes = foldl (\<lambda>n b. n * 256 + unat b) 0"

theorem ssh_mpint_round_trip_witness:
  "\<exists>bs. ssh_mpint_encode (\<lambda>n. n < 0) (\<lambda>n. nat_bytes (nat n)) [] (1000 :: int) = Some bs \<and>
    ssh_mpint_decode 0 (\<lambda>bs. Some (int (nat_of_bytes bs))) (bs @ [9]) = Some (Some 1000, [9]) \<and> \<not> bit (bs ! 4) 7"
  by (rule ssh_mpint_round_trip) (simp_all add: nat_bytes.simps [of 1000] nat_bytes.simps [of 3] nat_bytes.simps [of 0] nat_of_bytes_def)

end
