(* ===== verification/SSH_Negotiation.thy ===== *)
theory SSH_Negotiation
  imports SSH_Protocol
begin

text \<open>
  struct SSH::Session (ssh/ssh_session.h, ssh_session.cc) and class
  SSH::AlgorithmNegotiation (ssh/ssh_algorithm_negotiation.cc): the lists of algorithms of
  one side, the KEXINIT message, the choice of an algorithm of each kind, the keys derived
  for the chosen ones and the switch to them.  What \<^verbatim>\<open>name()\<close>, \<^verbatim>\<open>iv_size()\<close> and so on
  return is a field of the record of an algorithm object; hashing and the initialization
  of ciphers and MACs by OpenSSL are parameters.
\<close>

section \<open>State\<close>

datatype ssh_role = ClientRole | ServerRole

record ssh_algorithm =
  alg_name :: bytes
  alg_block_size :: nat
  alg_iv_size :: nat
  alg_key_size :: nat
  alg_mac_size :: nat

record ssh_unidirectional =
  ua_encryption :: "ssh_algorithm option"
  ua_mac :: "ssh_algorithm option"
  ua_compression :: "ssh_algorithm option"
  ua_language :: "ssh_algorithm option"

definition ssh_unidirectional_new :: ssh_unidirectional where
  "ssh_unidirectional_new = \<lparr>ua_encryption = None, ua_mac = None, ua_compression = None, ua_language = None\<rparr>"

text \<open>
  \<^verbatim>\<open>local_to_remote_\<close> and \<^verbatim>\<open>remote_to_local_\<close> are pointers to a member of an Algorithms
  struct of the session: which struct and which member.
\<close>

datatype ssh_struct = ChosenAlgorithms | ActiveAlgorithms
datatype ssh_direction = ClientToServer | ServerToClient

record ssh_algorithms =
  sa_key_exchange :: "ssh_algorithm option"
  sa_server_host_key :: "ssh_algorithm option"
  sa_client_to_server :: ssh_unidirectional
  sa_server_to_client :: ssh_unidirectional
  sa_local_to_remote :: "ssh_struct \<times> ssh_direction"
  sa_remote_to_local :: "ssh_struct \<times> ssh_direction"

definition ssh_algorithms_new :: "ssh_struct \<Rightarrow> ssh_role \<Rightarrow> ssh_algorithms" where
  "ssh_algorithms_new self role =
     \<lparr>sa_key_exchange = None, sa_server_host_key = None, sa_client_to_server = ssh_unidirectional_new,
      sa_server_to_client = ssh_unidirectional_new,
      sa_local_to_remote = (self, if role = ClientRole then ClientToServer else ServerToClient),
      sa_remote_to_local = (self, if role = ClientRole then ServerToClient else ClientToServer)\<rparr>"

record ssh_session =
  ss_role :: ssh_role
  ss_chosen :: ssh_algorithms
  ss_active :: ssh_algorithms
  ss_client_version :: bytes
  ss_server_version :: bytes
  ss_client_kexinit :: bytes
  ss_server_kexinit :: bytes
  ss_shared_secret :: bytes
  ss_session_id :: bytes
  ss_exchange_hash :: bytes
  ss_client_to_server_iv :: bytes
  ss_server_to_client_iv :: bytes
  ss_client_to_server_key :: bytes
  ss_server_to_client_key :: bytes
  ss_client_to_server_integrity_key :: bytes
  ss_server_to_client_integrity_key :: bytes
  ss_local_sequence_number :: u32
  ss_remote_sequence_number :: u32

definition ssh_session_new :: "ssh_role \<Rightarrow> ssh_session" where
  "ssh_session_new role =
     \<lparr>ss_role = role, ss_chosen = ssh_algorithms_new ChosenAlgorithms role,
      ss_active = ssh_algorithms_new ActiveAlgorithms role, ss_client_version = [], ss_server_version = [],
      ss_client_kexinit = [], ss_server_kexinit = [], ss_shared_secret = [], ss_session_id = [],
      ss_exchange_hash = [], ss_client_to_server_iv = [], ss_server_to_client_iv = [],
      ss_client_to_server_key = [], ss_server_to_client_key = [], ss_client_to_server_integrity_key = [],
      ss_server_to_client_integrity_key = [], ss_local_sequence_number = 0, ss_remote_sequence_number = 0\<rparr>"

definition ssh_local_version :: "bytes \<Rightarrow> ssh_session \<Rightarrow> ssh_session" where
  "ssh_local_version v s = (if ss_role s = ClientRole then s\<lparr>ss_client_version := v\<rparr> else s\<lparr>ss_server_version := v\<rparr>)"

definition ssh_remote_version :: "bytes \<Rightarrow> ssh_session \<Rightarrow> ssh_session" where
  "ssh_remote_version v s = (if ss_role s = ClientRole then s\<lparr>ss_server_version := v\<rparr> else s\<lparr>ss_client_version := v\<rparr>)"

definition ssh_local_kexinit :: "bytes \<Rightarrow> ssh_session \<Rightarrow> ssh_session" where
  "ssh_local_kexinit k s = (if ss_role s = ClientRole then s\<lparr>ss_client_kexinit := k\<rparr> else s\<lparr>ss_server_kexinit := k\<rparr>)"

definition ssh_remote_kexinit :: "bytes \<Rightarrow> ssh_session \<Rightarrow> ssh_session" where
  "ssh_remote_kexinit k s = (if ss_role s = ClientRole then s\<lparr>ss_server_kexinit := k\<rparr> else s\<lparr>ss_client_kexinit := k\<rparr>)"

text \<open>Following a pointer.\<close>

definition ssh_deref :: "ssh_session \<Rightarrow> ssh_struct \<times> ssh_direction \<Rightarrow> ssh_unidirectional" where
  "ssh_deref s p =
     (let a = (case fst p of ChosenAlgorithms \<Rightarrow> ss_chosen s | ActiveAlgorithms \<Rightarrow> ss_active s) in
      case snd p of ClientToServer \<Rightarrow> sa_client_to_server a | ServerToClient \<Rightarrow> sa_server_to_client a)"

definition ssh_local_to_remote :: "ssh_session \<Rightarrow> ssh_unidirectional" where
  "ssh_local_to_remote s = ssh_deref s (sa_local_to_remote (ss_active s))"

definition ssh_remote_to_local :: "ssh_session \<Rightarrow> ssh_unidirectional" where
  "ssh_remote_to_local s = ssh_deref s (sa_remote_to_local (ss_active s))"

section \<open>Keys\<close>

text \<open>The digest is appended to the key until there are enough bytes.\<close>

partial_function (option) generate_key_loop ::
  "(bytes \<Rightarrow> bytes option) \<Rightarrow> bytes \<Rightarrow> bytes \<Rightarrow> bytes \<Rightarrow> nat \<Rightarrow> bytes \<Rightarrow> bytes option" where
  "generate_key_loop hash secret x sid key_size key =
     (if length key < key_size
      then Option.bind (hash (secret @ (if key = [] then x @ sid else key)))
             (\<lambda>digest. generate_key_loop hash secret x sid key_size (key @ digest))
      else Some key)"

definition generate_key :: "(ssh_algorithm \<Rightarrow> bytes \<Rightarrow> bytes option) \<Rightarrow> bytes \<Rightarrow> nat \<Rightarrow> ssh_session \<Rightarrow> bytes option" where
  "generate_key hash x key_size s = do {
     key \<leftarrow> generate_key_loop
       (\<lambda>input. Option.bind (sa_key_exchange (ss_active s)) (\<lambda>kex. hash kex input))
       (ss_shared_secret s @ ss_exchange_hash s) x (ss_session_id s) key_size [];
     (if key_size < length key then buf_truncate key_size key else Some key) }"

definition activate_encryption ::
  "(ssh_algorithm \<Rightarrow> bytes \<Rightarrow> bytes option) \<Rightarrow> ssh_session \<Rightarrow> ssh_session option" where
  "activate_encryption hash s = do {
     s \<leftarrow> (case ua_encryption (sa_client_to_server (ss_active s)) of
        None \<Rightarrow> Some s
      | Some e \<Rightarrow> do {
          iv \<leftarrow> generate_key hash [0x41] (alg_iv_size e) s;
          key \<leftarrow> generate_key hash [0x43] (alg_key_size e) s;
          Some (s\<lparr>ss_client_to_server_iv := iv, ss_client_to_server_key := key\<rparr>) });
     (case ua_encryption (sa_server_to_client (ss_active s)) of
        None \<Rightarrow> Some s
      | Some e \<Rightarrow> do {
          iv \<leftarrow> generate_key hash [0x42] (alg_iv_size e) s;
          key \<leftarrow> generate_key hash [0x44] (alg_key_size e) s;
          Some (s\<lparr>ss_server_to_client_iv := iv, ss_server_to_client_key := key\<rparr>) }) }"

definition activate_mac ::
  "(ssh_algorithm \<Rightarrow> bytes \<Rightarrow> bytes option) \<Rightarrow> (ssh_algorithm \<Rightarrow> bytes \<Rightarrow> bool) \<Rightarrow> ssh_session \<Rightarrow> ssh_session option" where
  "activate_mac hash mac_init s = do {
     s \<leftarrow> (case ua_mac (sa_client_to_server (ss_active s)) of
        None \<Rightarrow> Some s
      | Some m \<Rightarrow> do {
          key \<leftarrow> generate_key hash [0x45] (alg_key_size m) s;
          assert_that (mac_init m key);
          Some (s\<lparr>ss_client_to_server_integrity_key := key\<rparr>) });
     (case ua_mac (sa_server_to_client (ss_active s)) of
        None \<Rightarrow> Some s
      | Some m \<Rightarrow> do {
          key \<leftarrow> generate_key hash [0x46] (alg_key_size m) s;
          assert_that (mac_init m key);
          Some (s\<lparr>ss_server_to_client_integrity_key := key\<rparr>) }) }"

text \<open>\<^verbatim>\<open>active_algorithms_ = chosen_algorithms_\<close> copies the struct with its two pointers.\<close>

definition activate_chosen ::
  "(ssh_algorithm \<Rightarrow> bytes \<Rightarrow> bytes option) \<Rightarrow> (ssh_algorithm \<Rightarrow> bytes \<Rightarrow> bool) \<Rightarrow>
   (ssh_algorithm \<Rightarrow> bool \<Rightarrow> bytes \<Rightarrow> bytes \<Rightarrow> bool) \<Rightarrow> ssh_session \<Rightarrow> ssh_session option" where
  "activate_chosen hash mac_init enc_init s = do {
     let s = s\<lparr>ss_active := ss_chosen s\<rparr>;
     s \<leftarrow> activate_encryption hash s;
     s \<leftarrow> activate_mac hash mac_init s;
     let client = (ss_role s = ClientRole);
     (case ua_encryption (ssh_local_to_remote s) of
        None \<Rightarrow> Some ()
      | Some e \<Rightarrow> assert_that (enc_init e True
          (if client then ss_client_to_server_key s else ss_server_to_client_key s)
          (if client then ss_client_to_server_iv s else ss_server_to_client_iv s)));
     (case ua_encryption (ssh_remote_to_local s) of
        None \<Rightarrow> Some ()
      | Some e \<Rightarrow> assert_that (enc_init e False
          (if client then ss_server_to_client_key s else ss_client_to_server_key s)
          (if client then ss_server_to_client_iv s else ss_client_to_server_iv s)));
     Some s }"

section \<open>The lists of one side\<close>

record ssh_offer =
  so_key_exchange :: "ssh_algorithm list"
  so_server_host_key :: "ssh_algorithm list"
  so_encryption_client_to_server :: "ssh_algorithm list"
  so_encryption_server_to_client :: "ssh_algorithm list"
  so_mac_client_to_server :: "ssh_algorithm list"
  so_mac_server_to_client :: "ssh_algorithm list"
  so_compression_client_to_server :: "ssh_algorithm list"
  so_compression_server_to_client :: "ssh_algorithm list"
  so_language_client_to_server :: "ssh_algorithm list"
  so_language_server_to_client :: "ssh_algorithm list"

definition ssh_offer_new :: ssh_offer where
  "ssh_offer_new = \<lparr>so_key_exchange = [], so_server_host_key = [], so_encryption_client_to_server = [],
     so_encryption_server_to_client = [], so_mac_client_to_server = [], so_mac_server_to_client = [],
     so_compression_client_to_server = [], so_compression_server_to_client = [],
     so_language_client_to_server = [], so_language_server_to_client = []\<rparr>"

definition add_key_exchange :: "ssh_algorithm \<Rightarrow> ssh_offer \<Rightarrow> ssh_offer" where
  "add_key_exchange a f = f\<lparr>so_key_exchange := so_key_exchange f @ [a]\<rparr>"

definition add_server_host_key :: "ssh_algorithm \<Rightarrow> ssh_offer \<Rightarrow> ssh_offer" where
  "add_server_host_key a f = f\<lparr>so_server_host_key := so_server_host_key f @ [a]\<rparr>"

definition add_encryption :: "ssh_algorithm \<Rightarrow> ssh_offer \<Rightarrow> ssh_offer" where
  "add_encryption a f = f\<lparr>so_encryption_client_to_server := so_encryption_client_to_server f @ [a],
     so_encryption_server_to_client := so_encryption_server_to_client f @ [a]\<rparr>"

definition add_mac :: "ssh_algorithm \<Rightarrow> ssh_offer \<Rightarrow> ssh_offer" where
  "add_mac a f = f\<lparr>so_mac_client_to_server := so_mac_client_to_server f @ [a],
     so_mac_server_to_client := so_mac_server_to_client f @ [a]\<rparr>"

definition add_compression :: "ssh_algorithm \<Rightarrow> ssh_offer \<Rightarrow> ssh_offer" where
  "add_compression a f = f\<lparr>so_compression_client_to_server := so_compression_client_to_server f @ [a],
     so_compression_server_to_client := so_compression_server_to_client f @ [a]\<rparr>"

definition add_language :: "ssh_algorithm \<Rightarrow> ssh_offer \<Rightarrow> ssh_offer" where
  "add_language a f = f\<lparr>so_language_client_to_server := so_language_client_to_server f @ [a],
     so_language_server_to_client := so_language_server_to_client f @ [a]\<rparr>"

text \<open>The ten lists in the order of the message.\<close>

definition offer_lists :: "ssh_offer \<Rightarrow> ssh_algorithm list list" where
  "offer_lists f = [so_key_exchange f, so_server_host_key f, so_encryption_client_to_server f,
     so_encryption_server_to_client f, so_mac_client_to_server f, so_mac_server_to_client f,
     so_compression_client_to_server f, so_compression_server_to_client f,
     so_language_client_to_server f, so_language_server_to_client f]"

definition names :: "ssh_algorithm list \<Rightarrow> bytes list" where
  "names = map alg_name"

section \<open>KEXINIT\<close>

text \<open>The cookie is 16 bytes from the random generator, or \<open>None\<close> when it fails.\<close>

definition negotiation_init :: "bytes option \<Rightarrow> ssh_offer \<Rightarrow> bytes \<Rightarrow> ssh_session \<Rightarrow> (bool \<times> bytes \<times> ssh_session) option" where
  "negotiation_init cookie f out s = do {
     assert_that (out = []);
     (case cookie of
        None \<Rightarrow> Some (False, out, s)
      | Some cookie \<Rightarrow> do {
          out \<leftarrow> buf_append_bytes out [KeyExchangeInitializationMessage];
          let out = buf_append_buffer out cookie;
          let out = fold (\<lambda>l out. ssh_namelist_encode out (names l)) (offer_lists f) out;
          out \<leftarrow> buf_append_bytes out [0];
          out \<leftarrow> buf_append_bytes out [0, 0, 0, 0];
          Some (True, out, ssh_local_kexinit out s) }) }"

section \<open>Choosing\<close>

text \<open>The inner loops: the first server name that equals the client's, then the object of that name.\<close>

fun choose_among :: "bytes \<Rightarrow> bytes list \<Rightarrow> ssh_algorithm list \<Rightarrow> ssh_algorithm option option" where
  "choose_among c [] algs = Some None"
| "choose_among c (x # xs) algs =
     (if c \<noteq> x then choose_among c xs algs
      else case find (\<lambda>a. alg_name a = c) algs of Some a \<Rightarrow> Some (Some a) | None \<Rightarrow> None)"

fun choose_first :: "bytes list \<Rightarrow> bytes list \<Rightarrow> ssh_algorithm list \<Rightarrow> ssh_algorithm option option" where
  "choose_first [] server algs = Some None"
| "choose_first (c # cs) server algs =
     (case choose_among c server algs of
        None \<Rightarrow> None | Some (Some a) \<Rightarrow> Some (Some a) | Some None \<Rightarrow> choose_first cs server algs)"

text \<open>Returns success, the algorithm stored in \<^verbatim>\<open>*chosenp\<close> if any, and the rest of the input.\<close>

definition choose_algorithm ::
  "ssh_role \<Rightarrow> ssh_algorithm list \<Rightarrow> bytes \<Rightarrow> (bool \<times> ssh_algorithm option \<times> bytes) option" where
  "choose_algorithm role algs inp = do {
     let local = names algs;
     (remote, inp) \<leftarrow> ssh_namelist_decode inp;
     (case remote of
        None \<Rightarrow> Some (False, None, inp)
      | Some remote \<Rightarrow>
          (if remote = [] \<and> local = [] then Some (True, None, inp)
           else do {
             chosen \<leftarrow> (if role = ClientRole then choose_first local remote algs else choose_first remote local algs);
             Some (chosen \<noteq> None, chosen, inp) })) }"

text \<open>The ten calls in order, up to the first that fails.\<close>

fun choose_each :: "ssh_role \<Rightarrow> ssh_algorithm list list \<Rightarrow> bytes \<Rightarrow> (bool \<times> ssh_algorithm option list) option" where
  "choose_each role [] inp = Some (True, [])"
| "choose_each role (l # ls) inp =
     (case choose_algorithm role l inp of
        None \<Rightarrow> None
      | Some (ok, a, inp) \<Rightarrow>
          (if \<not> ok then Some (False, [])
           else case choose_each role ls inp of
             None \<Rightarrow> None
           | Some (ok, as) \<Rightarrow> Some (ok, a # as)))"

definition chosen_at :: "nat \<Rightarrow> ssh_algorithm option list \<Rightarrow> ssh_algorithm option \<Rightarrow> ssh_algorithm option" where
  "chosen_at i as old = (if i < length as then (case as ! i of None \<Rightarrow> old | Some a \<Rightarrow> Some a) else old)"

text \<open>
  \<^verbatim>\<open>*chosenp = alg->clone()\<close>: a new object of the same kind.  \<^verbatim>\<open>CryptoSSHMAC::clone\<close> passes the size of
  the key where the constructor takes the size of the MAC.
\<close>

definition mac_clone :: "ssh_algorithm \<Rightarrow> ssh_algorithm" where
  "mac_clone a = a\<lparr>alg_mac_size := alg_key_size a\<rparr>"

definition clone_macs :: "ssh_algorithm option list \<Rightarrow> ssh_algorithm option list" where
  "clone_macs as = map (map_option mac_clone) as"

definition assign_chosen :: "ssh_algorithm option list \<Rightarrow> ssh_algorithms \<Rightarrow> ssh_algorithms" where
  "assign_chosen as a =
     (let u = sa_client_to_server a; v = sa_server_to_client a in
      a\<lparr>sa_key_exchange := chosen_at 0 as (sa_key_exchange a),
        sa_server_host_key := chosen_at 1 as (sa_server_host_key a),
        sa_client_to_server := u\<lparr>ua_encryption := chosen_at 2 as (ua_encryption u), ua_mac := chosen_at 4 (clone_macs as) (ua_mac u),
          ua_compression := chosen_at 6 as (ua_compression u), ua_language := chosen_at 8 as (ua_language u)\<rparr>,
        sa_server_to_client := v\<lparr>ua_encryption := chosen_at 3 as (ua_encryption v), ua_mac := chosen_at 5 (clone_macs as) (ua_mac v),
          ua_compression := chosen_at 7 as (ua_compression v), ua_language := chosen_at 9 as (ua_language v)\<rparr>\<rparr>)"

definition choose_algorithms :: "ssh_offer \<Rightarrow> bytes \<Rightarrow> ssh_session \<Rightarrow> (bool \<times> ssh_session) option" where
  "choose_algorithms f inp s = do {
     inp \<leftarrow> buf_skip 17 inp;
     (ok, as) \<leftarrow> choose_each (ss_role s) (offer_lists f) inp;
     Some (ok, s\<lparr>ss_chosen := assign_chosen as (ss_chosen s)\<rparr>) }"

section \<open>The rule of the protocol\<close>

text \<open>
  RFC 4253, section 7.1: of each kind, the first algorithm on the client's list that is
  also on the server's list.  The arguments are the lists of names of the client and of the
  server; a kind that neither side lists is skipped.
\<close>

fun agreement :: "bytes list list \<Rightarrow> bytes list list \<Rightarrow> bool \<times> bytes option list" where
  "agreement (c # cs) (s # ss) =
     (if c = [] \<and> s = [] then (let (ok, r) = agreement cs ss in (ok, None # r))
      else case find (\<lambda>x. x \<in> set s) c of
        None \<Rightarrow> (False, [])
      | Some x \<Rightarrow> (let (ok, r) = agreement cs ss in (ok, Some x # r)))"
| "agreement _ _ = (True, [])"

definition nameable :: "ssh_algorithm list \<Rightarrow> bool" where
  "nameable l \<longleftrightarrow> (\<forall>x\<in>set (names l). x \<noteq> [] \<and> 0x2c \<notin> set x) \<and> length (buf_join (names l) [0x2c]) < 2 ^ 32"

lemma choose_among_eq:
  "c \<in> set server \<longrightarrow> c \<in> alg_name ` set algs \<Longrightarrow>
   choose_among c server algs = Some (if c \<in> set server then find (\<lambda>a. alg_name a = c) algs else None)"
  by (induction server) (auto simp: find_None_iff split: option.splits)

lemma find_named: "c \<in> alg_name ` set algs \<Longrightarrow> \<exists>a. find (\<lambda>a. alg_name a = c) algs = Some a \<and> alg_name a = c \<and> a \<in> set algs"
  by (induction algs) auto

lemma choose_first_eq:
  assumes "\<forall>c\<in>set client. c \<in> set server \<longrightarrow> c \<in> alg_name ` set algs"
  shows "\<exists>r. choose_first client server algs = Some r \<and> map_option alg_name r = find (\<lambda>x. x \<in> set server) client \<and>
    (\<forall>a. r = Some a \<longrightarrow> a \<in> set algs)"
  using assms
proof (induction client)
  case (Cons c cs)
  have among: "choose_among c server algs = Some (if c \<in> set server then find (\<lambda>a. alg_name a = c) algs else None)"
    using Cons.prems by (intro choose_among_eq) simp
  show ?case
  proof (cases "c \<in> set server")
    case True
    then obtain a where "find (\<lambda>a. alg_name a = c) algs = Some a" "alg_name a = c" "a \<in> set algs"
      using Cons.prems find_named [of c algs] by auto
    then show ?thesis using True among by simp
  next
    case False
    then show ?thesis using Cons among by simp
  qed
qed simp

lemma ssh_namelist_encode_append: "ssh_namelist_encode out l = out @ ssh_namelist_encode [] l"
  by (simp add: ssh_namelist_encode_def ssh_string_encode_def ssh_uint32_encode_def buf_append_buffer_def Let_def)

definition offer_bytes :: "ssh_algorithm list list \<Rightarrow> bytes" where
  "offer_bytes ls = concat (map (\<lambda>l. ssh_namelist_encode [] (names l)) ls)"

lemma fold_namelist_encode: "fold (\<lambda>l out. ssh_namelist_encode out (names l)) ls out = out @ offer_bytes ls"
proof (induction ls arbitrary: out)
  case (Cons l ls)
  have "fold (\<lambda>l out. ssh_namelist_encode out (names l)) ls (ssh_namelist_encode out (names l)) =
      out @ ssh_namelist_encode [] (names l) @ offer_bytes ls"
    by (subst ssh_namelist_encode_append) (simp add: Cons)
  then show ?case by (simp add: offer_bytes_def)
qed (simp add: offer_bytes_def)

text \<open>One kind, on either side.\<close>

lemma choose_algorithm_eq:
  assumes "nameable r"
  shows "\<exists>a. choose_algorithm role l (ssh_namelist_encode [] (names r) @ rest) =
      Some (names r = [] \<and> names l = [] \<or> a \<noteq> None, a, rest) \<and>
    map_option alg_name a = (if role = ClientRole then find (\<lambda>x. x \<in> set (names r)) (names l) else find (\<lambda>x. x \<in> set (names l)) (names r)) \<and>
    (\<forall>x. a = Some x \<longrightarrow> x \<in> set l)"
proof -
  have d: "ssh_namelist_decode (ssh_namelist_encode [] (names r) @ rest) = Some (Some (names r), rest)"
    using assms ssh_string_decode_encode [of "buf_join (names r) [0x2c]" "[]" rest] buf_split_join_names [of "names r" "0x2c"]
    by (simp add: ssh_namelist_decode_def ssh_namelist_encode_def nameable_def)
  show ?thesis
  proof (cases "names r = [] \<and> names l = []")
    case True
    then show ?thesis unfolding choose_algorithm_def d by simp
  next
    case False
    let ?c = "if role = ClientRole then names l else names r" and ?s = "if role = ClientRole then names r else names l"
    have "\<forall>c\<in>set ?c. c \<in> set ?s \<longrightarrow> c \<in> alg_name ` set l" by (auto simp: names_def)
    from choose_first_eq [OF this] obtain a where a: "choose_first ?c ?s l = Some a"
        "map_option alg_name a = find (\<lambda>x. x \<in> set ?s) ?c" "\<forall>x. a = Some x \<longrightarrow> x \<in> set l" by blast
    have "choose_algorithm role l (ssh_namelist_encode [] (names r) @ rest) = Some (a \<noteq> None, a, rest)"
      using False a(1) by (cases "role = ClientRole") (auto simp: choose_algorithm_def d)
    then show ?thesis using a(2,3) False by (cases "role = ClientRole") auto
  qed
qed

lemma choose_each_eq:
  assumes "length ls = length rs" "\<forall>r\<in>set rs. nameable r"
  shows "\<exists>ok as. choose_each role ls (offer_bytes rs @ rest) = Some (ok, as) \<and>
    (ok, map (map_option alg_name) as) =
      (if role = ClientRole then agreement (map names ls) (map names rs) else agreement (map names rs) (map names ls))"
  using assms
proof (induction ls rs rule: list_induct2)
  case (Cons l ls r rs)
  obtain a where a: "choose_algorithm role l (ssh_namelist_encode [] (names r) @ (offer_bytes rs @ rest)) =
      Some (names r = [] \<and> names l = [] \<or> a \<noteq> None, a, offer_bytes rs @ rest)"
    "map_option alg_name a = (if role = ClientRole then find (\<lambda>x. x \<in> set (names r)) (names l) else find (\<lambda>x. x \<in> set (names l)) (names r))"
    using choose_algorithm_eq [of r role l "offer_bytes rs @ rest"] Cons.prems by auto
  obtain ok as where r: "choose_each role ls (offer_bytes rs @ rest) = Some (ok, as)" "(ok, map (map_option alg_name) as) =
      (if role = ClientRole then agreement (map names ls) (map names rs) else agreement (map names rs) (map names ls))"
    using Cons.IH Cons.prems by auto
  have step: "choose_each role (l # ls) (offer_bytes (r # rs) @ rest) =
      (if \<not> (names r = [] \<and> names l = [] \<or> a \<noteq> None) then Some (False, []) else Some (ok, a # as))"
    using a(1) r(1) by (simp add: offer_bytes_def)
  show ?case unfolding step using a(2) r(2) [symmetric]
    by (cases "role = ClientRole"; cases "names r = [] \<and> names l = []"; cases a) (auto dest: sym)
qed (auto simp: offer_bytes_def)

text \<open>The names of what is chosen, in the order of the message.\<close>

definition chosen_names :: "ssh_algorithms \<Rightarrow> bytes option list" where
  "chosen_names a = map (map_option alg_name)
     [sa_key_exchange a, sa_server_host_key a, ua_encryption (sa_client_to_server a), ua_encryption (sa_server_to_client a),
      ua_mac (sa_client_to_server a), ua_mac (sa_server_to_client a), ua_compression (sa_client_to_server a),
      ua_compression (sa_server_to_client a), ua_language (sa_client_to_server a), ua_language (sa_server_to_client a)]"

text \<open>The ten kinds, with \<open>None\<close> from the first failure on.\<close>

definition ten_kinds :: "bytes option list \<Rightarrow> bytes option list" where
  "ten_kinds xs = map (\<lambda>i. if i < length xs then xs ! i else None) [0, 1, 2, 3, 4, 5, 6, 7, 8, 9]"

lemma chosen_at_name: "map_option alg_name (chosen_at i as None) =
    (if i < length (map (map_option alg_name) as) then map (map_option alg_name) as ! i else None)"
  by (simp add: chosen_at_def split: option.split)

lemma clone_macs_name: "map (map_option alg_name) (clone_macs as) = map (map_option alg_name) as"
  by (simp add: clone_macs_def option.map_comp o_def mac_clone_def)

lemma chosen_names_assign:
  "chosen_names (assign_chosen as (ssh_algorithms_new self role)) = ten_kinds (map (map_option alg_name) as)"
  unfolding chosen_names_def assign_chosen_def ssh_algorithms_new_def ssh_unidirectional_new_def Let_def ten_kinds_def
  by (simp only: ssh_algorithms.simps ssh_unidirectional.simps list.map chosen_at_name clone_macs_name)

lemma negotiation_init_eq:
  assumes "length cookie = 16"
  shows "\<exists>m. negotiation_init (Some cookie) f [] s = Some (True, m, ssh_local_kexinit m s) \<and>
    buf_skip 17 m = Some (offer_bytes (offer_lists f) @ [0, 0, 0, 0, 0])"
  using assms by (simp add: negotiation_init_def buf_append_bytes_def buf_append_buffer_def fold_namelist_encode buf_skip_def)

lemma choose_algorithms_eq:
  assumes "\<forall>l\<in>set (offer_lists r). nameable l" and "buf_skip 17 m = Some (offer_bytes (offer_lists r) @ rest)"
    and s: "ss_role s = role" "ss_chosen s = ssh_algorithms_new self role"
    and agree: "(ok, xs) = (if role = ClientRole then agreement (map names (offer_lists l)) (map names (offer_lists r))
      else agreement (map names (offer_lists r)) (map names (offer_lists l)))"
  shows "\<exists>s'. choose_algorithms l m s = Some (ok, s') \<and>
    chosen_names (ss_chosen s') = ten_kinds xs"
proof -
  have "length (offer_lists l) = length (offer_lists r)" by (simp add: offer_lists_def)
  from choose_each_eq [OF this assms(1), of role rest] agree
  obtain as where as: "choose_each role (offer_lists l) (offer_bytes (offer_lists r) @ rest) = Some (ok, as)"
    and n: "map (map_option alg_name) as = xs" by (cases "role = ClientRole") (metis Pair_inject)+
  then show ?thesis using as assms(2) s by (simp add: choose_algorithms_def chosen_names_assign)
qed

text \<open>C20: Client and server choose the same algorithms: when each has sent its KEXINIT message and
  handles the other's with \<^verbatim>\<open>choose_algorithms\<close>, both succeed or both fail, and of every kind
  they have chosen the algorithm of the same name, the first on the client's list that the
  server has too; the assertion that a common algorithm is found in the local list never
  fails.\<close>

theorem negotiation_agrees:
  assumes "\<forall>l\<in>set (offer_lists fc). nameable l" "\<forall>l\<in>set (offer_lists fs). nameable l"
    and "length cookie_c = 16" "length cookie_s = 16"
  shows "\<exists>mc ms sc ss ok sc' ss' xs.
    negotiation_init (Some cookie_c) fc [] (ssh_session_new ClientRole) = Some (True, mc, sc) \<and>
    negotiation_init (Some cookie_s) fs [] (ssh_session_new ServerRole) = Some (True, ms, ss) \<and>
    choose_algorithms fc ms sc = Some (ok, sc') \<and> choose_algorithms fs mc ss = Some (ok, ss') \<and>
    (ok, xs) = agreement (map names (offer_lists fc)) (map names (offer_lists fs)) \<and>
    chosen_names (ss_chosen sc') = chosen_names (ss_chosen ss') \<and>
    chosen_names (ss_chosen sc') = ten_kinds xs"
proof -
  obtain mc where mc: "negotiation_init (Some cookie_c) fc [] (ssh_session_new ClientRole) =
      Some (True, mc, ssh_local_kexinit mc (ssh_session_new ClientRole))" "buf_skip 17 mc = Some (offer_bytes (offer_lists fc) @ [0, 0, 0, 0, 0])"
    using negotiation_init_eq [OF assms(3)] by blast
  obtain ms where ms: "negotiation_init (Some cookie_s) fs [] (ssh_session_new ServerRole) =
      Some (True, ms, ssh_local_kexinit ms (ssh_session_new ServerRole))" "buf_skip 17 ms = Some (offer_bytes (offer_lists fs) @ [0, 0, 0, 0, 0])"
    using negotiation_init_eq [OF assms(4)] by blast
  obtain ok xs where x: "(ok, xs) = agreement (map names (offer_lists fc)) (map names (offer_lists fs))"
    by (cases "agreement (map names (offer_lists fc)) (map names (offer_lists fs))") auto
  have s: "ss_role (ssh_local_kexinit m (ssh_session_new role)) = role"
    "ss_chosen (ssh_local_kexinit m (ssh_session_new role)) = ssh_algorithms_new ChosenAlgorithms role" for m role
    by (simp_all add: ssh_local_kexinit_def ssh_session_new_def)
  obtain sc' where "choose_algorithms fc ms (ssh_local_kexinit mc (ssh_session_new ClientRole)) = Some (ok, sc')"
      "chosen_names (ss_chosen sc') = ten_kinds xs"
    using choose_algorithms_eq [OF assms(2) ms(2) s(1) [of mc ClientRole] s(2) [of mc ClientRole], of ok xs fc] x by auto
  moreover obtain ss' where "choose_algorithms fs mc (ssh_local_kexinit ms (ssh_session_new ServerRole)) = Some (ok, ss')"
      "chosen_names (ss_chosen ss') = ten_kinds xs"
    using choose_algorithms_eq [OF assms(1) mc(2) s(1) [of ms ServerRole] s(2) [of ms ServerRole], of ok xs fs] x by auto
  ultimately show ?thesis using mc(1) ms(1) x by (metis (no_types))
qed

definition named_algorithm :: "bytes \<Rightarrow> ssh_algorithm" where
  "named_algorithm n = \<lparr>alg_name = n, alg_block_size = 16, alg_iv_size = 16, alg_key_size = 32, alg_mac_size = 20\<rparr>"

theorem negotiation_agrees_witness:
  "\<exists>mc ms sc ss ok sc' ss' xs.
    negotiation_init (Some (replicate 16 1)) (add_key_exchange (named_algorithm [0x61]) (add_key_exchange (named_algorithm [0x62]) ssh_offer_new))
      [] (ssh_session_new ClientRole) = Some (True, mc, sc) \<and>
    negotiation_init (Some (replicate 16 2)) (add_key_exchange (named_algorithm [0x61]) ssh_offer_new)
      [] (ssh_session_new ServerRole) = Some (True, ms, ss) \<and>
    choose_algorithms (add_key_exchange (named_algorithm [0x61]) (add_key_exchange (named_algorithm [0x62]) ssh_offer_new)) ms sc = Some (ok, sc') \<and>
    choose_algorithms (add_key_exchange (named_algorithm [0x61]) ssh_offer_new) mc ss = Some (ok, ss') \<and>
    (ok, xs) = (True, Some [0x61] # replicate 9 None) \<and>
    chosen_names (ss_chosen sc') = chosen_names (ss_chosen ss') \<and> chosen_names (ss_chosen sc') = ten_kinds xs"
proof -
  let ?c = "add_key_exchange (named_algorithm [0x61]) (add_key_exchange (named_algorithm [0x62]) ssh_offer_new)"
  let ?s = "add_key_exchange (named_algorithm [0x61]) ssh_offer_new"
  have l: "offer_lists ?c = [named_algorithm [0x62], named_algorithm [0x61]] # replicate 9 []" "offer_lists ?s = [named_algorithm [0x61]] # replicate 9 []"
    by (simp_all add: offer_lists_def add_key_exchange_def ssh_offer_new_def numeral_eq_Suc)
  have n: "nameable []" "nameable [named_algorithm [0x62], named_algorithm [0x61]]" "nameable [named_algorithm [0x61]]"
    by (simp_all add: nameable_def names_def named_algorithm_def buf_join_def)
  have "agreement (map names (offer_lists ?c)) (map names (offer_lists ?s)) = (True, Some [0x61] # replicate 9 None)"
    unfolding l by (simp add: names_def named_algorithm_def numeral_eq_Suc)
  then show ?thesis using negotiation_agrees [of ?c ?s "replicate 16 1" "replicate 16 2"] n by (simp add: l)
qed

section \<open>Keys\<close>

text \<open>RFC 4253, section 7.2: \<open>K1 = HASH(K || H || X || session_id)\<close>, \<open>K2 = HASH(K || H || K1)\<close>, and so on.\<close>

fun key_stream :: "(bytes \<Rightarrow> bytes) \<Rightarrow> bytes \<Rightarrow> bytes \<Rightarrow> nat \<Rightarrow> bytes" where
  "key_stream hash secret first 0 = []"
| "key_stream hash secret first (Suc n) =
     (let key = key_stream hash secret first n in key @ hash (secret @ (if n = 0 then first else key)))"

lemma key_stream_grows:
  assumes "\<forall>i. hash i \<noteq> []"
  shows "n \<le> length (key_stream hash secret first n)"
proof (induction n)
  case (Suc n)
  let ?k = "key_stream hash secret first n"
  have "0 < length (hash (secret @ (if n = 0 then first else ?k)))" using assms by simp
  then show ?case unfolding key_stream.simps Let_def length_append using Suc by linarith
qed simp

lemma generate_key_loop_eq:
  assumes h: "\<forall>i. h i = Some (hash i)" "\<forall>i. hash i \<noteq> []"
  shows "\<exists>m. generate_key_loop h secret x sid len (key_stream hash secret (x @ sid) n) = Some (key_stream hash secret (x @ sid) m) \<and>
    len \<le> length (key_stream hash secret (x @ sid) m)"
proof (induction "len - n" arbitrary: n rule: less_induct)
  case less
  let ?k = "key_stream hash secret (x @ sid)"
  show ?case
  proof (cases "length (?k n) < len")
    case False
    then show ?thesis by (subst generate_key_loop.simps) (auto intro: exI [of _ n])
  next
    case True
    have e: "?k n = [] \<longleftrightarrow> n = 0" using key_stream_grows [OF h(2), of n secret "x @ sid"] by (cases n) auto
    have "generate_key_loop h secret x sid len (?k n) = generate_key_loop h secret x sid len (?k (Suc n))"
      using True e h(1) by (subst generate_key_loop.simps) (simp add: Let_def)
    moreover have "len - Suc n < len - n" using True key_stream_grows [OF h(2), of n secret "x @ sid"] by simp
    ultimately show ?thesis using less.hyps [of "Suc n"] by simp
  qed
qed

text \<open>C23: With a key exchange chosen and a hash function that returns at least one byte, \<^verbatim>\<open>generate_key\<close>
  returns, and the key is the first \<open>key_size\<close> bytes of the key stream of RFC 4253.\<close>

theorem generate_key_terminates:
  assumes "sa_key_exchange (ss_active s) = Some kex" and "\<forall>i. h kex i = Some (hash i)" and "\<forall>i. hash i \<noteq> []"
  shows "\<exists>key m. generate_key h x key_size s = Some key \<and> length key = key_size \<and>
    key = take key_size (key_stream hash (ss_shared_secret s @ ss_exchange_hash s) (x @ ss_session_id s) m)"
proof -
  let ?k = "key_stream hash (ss_shared_secret s @ ss_exchange_hash s) (x @ ss_session_id s)"
  have "\<forall>i. Option.bind (sa_key_exchange (ss_active s)) (\<lambda>kex. h kex i) = Some (hash i)" using assms(1,2) by simp
  from generate_key_loop_eq [OF this assms(3), of "ss_shared_secret s @ ss_exchange_hash s" x "ss_session_id s" key_size 0]
  obtain m where m: "generate_key_loop (\<lambda>input. Option.bind (sa_key_exchange (ss_active s)) (\<lambda>kex. h kex input))
      (ss_shared_secret s @ ss_exchange_hash s) x (ss_session_id s) key_size [] = Some (?k m)" "key_size \<le> length (?k m)"
    by auto
  then show ?thesis by (cases "key_size < length (?k m)") (auto simp: generate_key_def buf_truncate_def intro!: exI [of _ m])
qed

theorem generate_key_terminates_witness:
  "\<exists>key m. generate_key (\<lambda>kex i. Some [of_nat (length i)]) [0x41] 3
      (ssh_session_new ClientRole\<lparr>ss_active := ssh_algorithms_new ActiveAlgorithms ClientRole\<lparr>sa_key_exchange := Some (named_algorithm [1])\<rparr>\<rparr>) = Some key \<and>
    length key = 3 \<and> key = take 3 (key_stream (\<lambda>i. [of_nat (length i)]) [] [0x41] m)"
  using generate_key_terminates [of "ssh_session_new ClientRole\<lparr>ss_active := ssh_algorithms_new ActiveAlgorithms ClientRole\<lparr>sa_key_exchange := Some (named_algorithm [1])\<rparr>\<rparr>"
      "named_algorithm [1]" "\<lambda>kex i. Some [of_nat (length i)]" "\<lambda>i. [of_nat (length i)]" "[0x41]" 3]
  by (simp add: ssh_session_new_def)

section \<open>Active and chosen algorithms\<close>

lemma activate_keeps:
  "activate_encryption hash s = Some s' \<Longrightarrow> ss_active s' = ss_active s \<and> ss_chosen s' = ss_chosen s"
  "activate_mac hash mi s = Some s' \<Longrightarrow> ss_active s' = ss_active s \<and> ss_chosen s' = ss_chosen s"
  by (auto simp: activate_encryption_def activate_mac_def bind_eq_Some_conv split: option.splits)

text \<open>C24: After \<^verbatim>\<open>activate_chosen\<close> the pointers of the active algorithms refer to the chosen ones, not to
  a copy of them: the next KEXINIT of the peer changes the algorithms packets are sent and
  received with at once, before new keys are in place.\<close>

theorem active_follows_chosen:
  assumes "sa_local_to_remote (ss_chosen s) = (ChosenAlgorithms, d)" "sa_remote_to_local (ss_chosen s) = (ChosenAlgorithms, d')"
    and "activate_chosen hash mac_init enc_init s = Some s1"
    and "choose_algorithms f m s1 = Some (ok, s2)"
  shows "ssh_local_to_remote s2 = ssh_deref s2 (ChosenAlgorithms, d) \<and> ssh_remote_to_local s2 = ssh_deref s2 (ChosenAlgorithms, d') \<and>
    ss_active s2 = ss_chosen s"
proof -
  let ?s = "s\<lparr>ss_active := ss_chosen s\<rparr>"
  obtain a where a: "activate_encryption hash ?s = Some a" "activate_mac hash mac_init a = Some s1"
    using assms(3) by (cases "activate_encryption hash ?s"; cases "activate_mac hash mac_init (the (activate_encryption hash ?s))")
      (auto simp: activate_chosen_def Let_def bind_eq_Some_conv)
  have "ss_active s1 = ss_chosen s" using activate_keeps(1) [OF a(1)] activate_keeps(2) [OF a(2)] by simp
  moreover have "ss_active s2 = ss_active s1" using assms(4) by (auto simp: choose_algorithms_def bind_eq_Some_conv)
  ultimately show ?thesis using assms(1,2) by (simp add: ssh_local_to_remote_def ssh_remote_to_local_def)
qed

theorem active_follows_chosen_witness:
  "\<exists>s1 ok s2. activate_chosen (\<lambda>k i. None) (\<lambda>m k. True) (\<lambda>e d k iv. True) (ssh_session_new ClientRole) = Some s1 \<and>
    choose_algorithms (add_encryption (named_algorithm [0x61]) ssh_offer_new)
      (replicate 17 0 @ offer_bytes (offer_lists (add_encryption (named_algorithm [0x61]) ssh_offer_new))) s1 = Some (ok, s2) \<and>
    ssh_local_to_remote s2 = ssh_deref s2 (ChosenAlgorithms, ClientToServer) \<and>
    ua_encryption (ssh_local_to_remote s1) = None \<and>
    map_option alg_name (ua_encryption (ssh_local_to_remote s2)) = Some [0x61]"
proof -
  let ?s = "ssh_session_new ClientRole" and ?f = "add_encryption (named_algorithm [0x61]) ssh_offer_new"
  let ?m = "replicate 17 0 @ offer_bytes (offer_lists ?f)" and ?s1 = "?s\<lparr>ss_active := ss_chosen ?s\<rparr>"
  have a: "activate_chosen (\<lambda>k i. None) (\<lambda>m k. True) (\<lambda>e d k iv. True) ?s = Some ?s1"
    by (simp add: activate_chosen_def activate_encryption_def activate_mac_def ssh_session_new_def ssh_algorithms_new_def
        ssh_unidirectional_new_def ssh_local_to_remote_def ssh_remote_to_local_def ssh_deref_def)
  have l: "offer_lists ?f = [[], [], [named_algorithm [0x61]], [named_algorithm [0x61]], [], [], [], [], [], []]"
    by (simp add: offer_lists_def add_encryption_def ssh_offer_new_def)
  have n: "\<forall>l\<in>set (offer_lists ?f). nameable l" unfolding l by (simp add: nameable_def names_def named_algorithm_def buf_join_def)
  have g: "agreement (map names (offer_lists ?f)) (map names (offer_lists ?f)) =
      (True, [None, None, Some [0x61], Some [0x61], None, None, None, None, None, None])"
    unfolding l by (simp add: names_def named_algorithm_def)
  have "\<exists>s2. choose_algorithms ?f ?m ?s1 = Some (True, s2) \<and>
      chosen_names (ss_chosen s2) = ten_kinds [None, None, Some [0x61], Some [0x61], None, None, None, None, None, None]"
    by (rule choose_algorithms_eq [OF n, of _ "[]" _ ClientRole ChosenAlgorithms])
      (simp_all add: g [symmetric] buf_skip_def ssh_session_new_def)
  then obtain s2 where s2: "choose_algorithms ?f ?m ?s1 = Some (True, s2)"
    "chosen_names (ss_chosen s2) = ten_kinds [None, None, Some [0x61], Some [0x61], None, None, None, None, None, None]" by blast
  from active_follows_chosen [OF _ _ a s2(1), of ClientToServer ServerToClient]
  have "ssh_local_to_remote s2 = ssh_deref s2 (ChosenAlgorithms, ClientToServer)" by (simp add: ssh_session_new_def ssh_algorithms_new_def)
  moreover have "ua_encryption (ssh_local_to_remote ?s1) = None"
    by (simp add: ssh_local_to_remote_def ssh_deref_def ssh_session_new_def ssh_algorithms_new_def ssh_unidirectional_new_def)
  moreover have "map_option alg_name (ua_encryption (sa_client_to_server (ss_chosen s2))) = Some [0x61]"
    using s2(2) by (simp add: chosen_names_def ten_kinds_def)
  ultimately show ?thesis using a s2(1) by (auto simp: ssh_deref_def)
qed

section \<open>Truncated MACs\<close>

lemma clone_macs_size: "chosen_at i (clone_macs as) None = Some a \<Longrightarrow> alg_mac_size a = alg_key_size a"
  by (cases "i < length as"; cases "as ! i") (simp_all add: chosen_at_def clone_macs_def mac_clone_def, auto)

text \<open>C39: A MAC that is negotiated never has the size it was registered with: the object chosen for either
  direction has the size of its key.  For hmac-sha1-96 and hmac-md5-96, whose MACs have 12 bytes,
  the packets do not have the form that the protocol gives them.\<close>

theorem chosen_mac_size_is_key_size:
  assumes "ss_chosen s = ssh_algorithms_new self role" and "choose_algorithms f m s = Some (ok, s')"
    and "ua_mac (sa_client_to_server (ss_chosen s')) = Some a \<or> ua_mac (sa_server_to_client (ss_chosen s')) = Some a"
  shows "alg_mac_size a = alg_key_size a"
proof -
  obtain as where "ss_chosen s' = assign_chosen as (ssh_algorithms_new self role)"
    using assms(1,2) by (auto simp: choose_algorithms_def bind_eq_Some_conv)
  then have "ua_mac (sa_client_to_server (ss_chosen s')) = chosen_at 4 (clone_macs as) None"
    "ua_mac (sa_server_to_client (ss_chosen s')) = chosen_at 5 (clone_macs as) None"
    by (simp_all add: assign_chosen_def ssh_algorithms_new_def ssh_unidirectional_new_def Let_def)
  then show ?thesis using assms(3) clone_macs_size by metis
qed

definition hmac_sha1_96 :: ssh_algorithm where
  "hmac_sha1_96 = \<lparr>alg_name = [0x61], alg_block_size = 0, alg_iv_size = 0, alg_key_size = 20, alg_mac_size = 12\<rparr>"

theorem chosen_mac_size_is_key_size_witness:
  "\<exists>ok s' a. choose_algorithms (add_mac hmac_sha1_96 ssh_offer_new)
      (replicate 17 0 @ offer_bytes (offer_lists (add_mac hmac_sha1_96 ssh_offer_new))) (ssh_session_new ServerRole) = Some (ok, s') \<and>
    ua_mac (sa_client_to_server (ss_chosen s')) = Some a \<and> alg_mac_size a = alg_key_size a \<and> alg_name a = alg_name hmac_sha1_96"
proof -
  let ?f = "add_mac hmac_sha1_96 ssh_offer_new" and ?s = "ssh_session_new ServerRole"
  have l: "offer_lists ?f = [[], [], [], [], [hmac_sha1_96], [hmac_sha1_96], [], [], [], []]"
    by (simp add: offer_lists_def add_mac_def ssh_offer_new_def)
  have n: "\<forall>l\<in>set (offer_lists ?f). nameable l" unfolding l by (simp add: nameable_def names_def hmac_sha1_96_def buf_join_def)
  have g: "agreement (map names (offer_lists ?f)) (map names (offer_lists ?f)) =
      (True, [None, None, None, None, Some [0x61], Some [0x61], None, None, None, None])"
    unfolding l by (simp add: names_def hmac_sha1_96_def)
  have chosen: "ss_chosen ?s = ssh_algorithms_new ChosenAlgorithms ServerRole" by (simp add: ssh_session_new_def)
  have "\<exists>s'. choose_algorithms ?f (replicate 17 0 @ offer_bytes (offer_lists ?f)) ?s = Some (True, s') \<and>
      chosen_names (ss_chosen s') = ten_kinds [None, None, None, None, Some [0x61], Some [0x61], None, None, None, None]"
    by (rule choose_algorithms_eq [OF n, of _ "[]" _ ServerRole ChosenAlgorithms])
      (simp_all add: g [symmetric] buf_skip_def ssh_session_new_def)
  then obtain s' where s': "choose_algorithms ?f (replicate 17 0 @ offer_bytes (offer_lists ?f)) ?s = Some (True, s')"
    "chosen_names (ss_chosen s') = ten_kinds [None, None, None, None, Some [0x61], Some [0x61], None, None, None, None]" by blast
  then obtain a where "ua_mac (sa_client_to_server (ss_chosen s')) = Some a" "alg_name a = [0x61]"
    by (auto simp: chosen_names_def ten_kinds_def)
  then show ?thesis using s'(1) chosen_mac_size_is_key_size [OF chosen s'(1)] by (auto simp: hmac_sha1_96_def)
qed

end
