(* ===== verification/HTTP_Protocol.thy ===== *)
theory HTTP_Protocol
  imports Buffer_Spec
begin

text \<open>
  namespace HTTPProtocol (http/http_protocol.h, http_protocol.cc): taking a line out of a
  Buffer, decoding the %-escapes of a URI, and decoding a whole message into its start line,
  headers and body.
\<close>

unbundle bit_operations_syntax

section \<open>Lines\<close>

text \<open>Characters of the literals of the source.\<close>

definition ascii :: "string \<Rightarrow> bytes" where
  "ascii s = map of_char s"

datatype parse_status = ParseSuccess | ParseFailure | ParseIncomplete

text \<open>Arguments and results: \<^verbatim>\<open>*line\<close>, \<^verbatim>\<open>*input\<close> and \<^verbatim>\<open>*line_ending\<close>, which may be NULL.\<close>

definition extract_line ::
  "bytes \<Rightarrow> bytes \<Rightarrow> bytes option \<Rightarrow> (parse_status \<times> bytes \<times> bytes \<times> bytes option) option" where
  "extract_line line inp ending = do {
     assert_that (line = []);
     (if inp = [] then Some (ParseIncomplete, line, inp, ending)
      else case buf_find_any [13, 10] inp of
        None \<Rightarrow> Some (ParseIncomplete, line, inp, ending)
      | Some (pos, found) \<Rightarrow>
          (if found = 13 then do {
             assert_that (pos < length inp);
             (if length inp = pos + 1 then Some (ParseIncomplete, line, inp, ending)
              else do {
                (line, inp) \<leftarrow> (if pos \<noteq> 0 then buf_moveout_buffer line inp 0 pos else Some (line, inp));
                inp \<leftarrow> buf_skip 1 inp;
                c \<leftarrow> buf_peek inp;
                (if c \<noteq> 10 then Some (ParseFailure, line, inp, ending)
                 else do {
                   inp \<leftarrow> buf_skip 1 inp;
                   Some (ParseSuccess, line, inp, map_option (\<lambda>e. e @ [13, 10]) ending) }) }) }
           else if found = 10 then do {
             (line, inp) \<leftarrow> (if pos \<noteq> 0 then buf_moveout_buffer line inp 0 pos else Some (line, inp));
             inp \<leftarrow> buf_skip 1 inp;
             Some (ParseSuccess, line, inp, map_option (\<lambda>e. e @ [10]) ending) }
           else None)) }"

section \<open>URIs\<close>

definition decode_nibble :: "byte \<Rightarrow> byte \<Rightarrow> byte option" where
  "decode_nibble out ch =
     (if 0x30 \<le> ch \<and> ch \<le> 0x39 then Some (out OR (0x00 + (ch - 0x30)))
      else if 0x61 \<le> ch \<and> ch \<le> 0x66 then Some (out OR (0x0a + (ch - 0x61)))
      else if 0x41 \<le> ch \<and> ch \<le> 0x46 then Some (out OR (0x0a + (ch - 0x41)))
      else None)"

text \<open>Returns success, what is left of \<^verbatim>\<open>*encoded\<close>, and \<^verbatim>\<open>*decoded\<close>.\<close>

function decode_uri_loop :: "bytes \<Rightarrow> bytes \<Rightarrow> (bool \<times> bytes \<times> bytes) option" where
  "decode_uri_loop encoded decoded =
     (case buf_find 0x25 0 encoded of
        None \<Rightarrow> (let (decoded, encoded) = buf_moveout_all decoded encoded in Some (True, encoded, decoded))
      | Some pos \<Rightarrow> do {
          (decoded, encoded) \<leftarrow>
            (if pos \<noteq> 0 then buf_moveout_buffer decoded encoded 0 pos else Some (decoded, encoded));
          (if length encoded < 3 then Some (False, encoded, decoded)
           else do {
             vis \<leftarrow> buf_copyout encoded 1 2;
             (case decode_nibble 0 (vis ! 0) of
                None \<Rightarrow> Some (False, encoded, decoded)
              | Some byte \<Rightarrow>
                  (case decode_nibble (push_bit 4 byte) (vis ! 1) of
                     None \<Rightarrow> Some (False, encoded, decoded)
                   | Some byte \<Rightarrow> do {
                       decoded \<leftarrow> buf_append_bytes decoded [byte];
                       encoded \<leftarrow> buf_skip 3 encoded;
                       decode_uri_loop encoded decoded })) }) })"
  by pat_completeness auto
termination
  by (relation "measure (length \<circ> fst)")
    (auto simp: buf_moveout_buffer_def buf_skip_def bind_eq_Some_conv split: if_splits)

declare decode_uri_loop.simps [simp del]

definition decode_uri :: "bytes \<Rightarrow> bytes \<Rightarrow> (bool \<times> bytes \<times> bytes) option" where
  "decode_uri encoded decoded =
     (if encoded = [] then Some (True, encoded, decoded) else decode_uri_loop encoded decoded)"

section \<open>Messages\<close>

datatype message_type = Request | Response

type_synonym http_headers = "bytes \<rightharpoonup> bytes list"

record http_message =
  hm_type :: message_type
  hm_start_line :: bytes
  hm_headers :: http_headers
  hm_body :: bytes

definition http_message_new :: "message_type \<Rightarrow> http_message" where
  "http_message_new t = \<lparr>hm_type = t, hm_start_line = [], hm_headers = Map.empty, hm_body = []\<rparr>"

text \<open>\<^verbatim>\<open>headers_[key]\<close> makes an empty vector for a new key; \<^verbatim>\<open>back()\<close> of an empty vector is undefined.\<close>

definition header_values :: "http_headers \<Rightarrow> bytes \<Rightarrow> bytes list" where
  "header_values h key = (case h key of Some vs \<Rightarrow> vs | None \<Rightarrow> [])"

definition header_push :: "bytes \<Rightarrow> bytes \<Rightarrow> http_headers \<Rightarrow> http_headers" where
  "header_push key value h = h(key \<mapsto> header_values h key @ [value])"

definition header_fold :: "bytes \<Rightarrow> bytes \<Rightarrow> http_headers \<Rightarrow> http_headers option" where
  "header_fold key line h =
     (let vs = header_values h key in
      do { assert_that (vs \<noteq> []); Some (h(key \<mapsto> butlast vs @ [last vs @ line])) })"

text \<open>A header that is not folded: the name up to the colon, and the value without leading spaces.\<close>

fun skip_spaces :: "bytes \<Rightarrow> bytes" where
  "skip_spaces [] = []"
| "skip_spaces (c # line) = (if c = 0x20 then skip_spaces line else c # line)"

definition header_split :: "nat \<Rightarrow> bytes \<Rightarrow> (bytes \<times> bytes) option" where
  "header_split pos line = do {
     (key, line) \<leftarrow> buf_moveout_buffer [] line 0 pos;
     line \<leftarrow> buf_skip 1 line;
     Some (key, skip_spaces line) }"

text \<open>The loop over the headers; \<open>lst\<close> is \<^verbatim>\<open>last_header\<close>.\<close>

lemma extract_line_shorter:
  "extract_line line inp e = Some (ParseSuccess, line', inp', e') \<Longrightarrow> length inp' < length inp"
  by (auto simp: extract_line_def bind_eq_Some_conv buf_skip_def buf_moveout_buffer_def split: if_splits option.splits)

function message_headers :: "bytes \<Rightarrow> bytes \<Rightarrow> http_message \<Rightarrow> (bool \<times> http_message \<times> bytes) option" where
  "message_headers inp lst m =
     (case extract_line [] inp None of
        None \<Rightarrow> None
      | Some (status, line, inp', _) \<Rightarrow>
          (if status \<noteq> ParseSuccess then Some (False, m, inp')
           else if line = [] then
             (if inp' \<noteq> [] then Some (True, m\<lparr>hm_body := hm_body m @ inp'\<rparr>, []) else Some (True, m, inp'))
           else if hd line = 0x20 then
             (if lst = [] then Some (False, m, inp')
              else case header_fold lst line (hm_headers m) of
                None \<Rightarrow> None
              | Some h \<Rightarrow> message_headers inp' lst (m\<lparr>hm_headers := h\<rparr>))
           else case buf_find 0x3a 0 line of
             None \<Rightarrow> Some (False, m, inp')
           | Some pos \<Rightarrow>
               (case header_split pos line of
                  None \<Rightarrow> None
                | Some (key, value) \<Rightarrow>
                    message_headers inp' key (m\<lparr>hm_headers := header_push key value (hm_headers m)\<rparr>))))"
  by pat_completeness auto
termination
  by (relation "measure (\<lambda>(inp, lst, m). length inp)") (auto dest: extract_line_shorter)

declare message_headers.simps [simp del]

text \<open>\<^verbatim>\<open>line.split\<close> empties the line it splits.\<close>

definition message_decode :: "bytes \<Rightarrow> http_message \<Rightarrow> (bool \<times> http_message \<times> bytes) option" where
  "message_decode inp m = do {
     let m = (if hm_start_line m = [] then m\<lparr>hm_start_line := [], hm_headers := Map.empty, hm_body := []\<rparr> else m);
     (status, line, inp, _) \<leftarrow> extract_line [] inp None;
     (if status \<noteq> ParseSuccess then Some (False, m, inp)
      else if line = [] then Some (False, m, inp)
      else do {
        let m = m\<lparr>hm_start_line := line\<rparr>;
        (if hm_type m = Request then do {
           let words = buf_split 0x20 False line;
           (if words = [] then Some (False, m, inp)
            else if length words = 2 then Some (True, m, inp)
            else if length words \<noteq> 3 then Some (False, m, inp)
            else message_headers inp [] m) }
         else message_headers inp [] m) }) }"

section \<open>What a line is\<close>

definition eol :: "bytes \<Rightarrow> bool" where
  "eol e \<longleftrightarrow> e = [13, 10] \<or> e = [10]"

definition one_line :: "bytes \<Rightarrow> bool" where
  "one_line l \<longleftrightarrow> 13 \<notin> set l \<and> 10 \<notin> set l"

lemma find_any_hit: "one_line l \<Longrightarrow> c \<in> {13, 10} \<Longrightarrow> buf_find_any [13, 10] (l @ c # r) = Some (length l, c)"
  unfolding buf_find_any_def one_line_def by (subst first_index_append_hit) auto

lemma find_any_miss: "one_line l \<Longrightarrow> buf_find_any [13, 10] l = None"
  by (auto simp: buf_find_any_def one_line_def first_index_None_iff)

lemma extract_line_eol:
  "one_line l \<Longrightarrow> eol e \<Longrightarrow> extract_line [] (l @ e @ r) None = Some (ParseSuccess, l, r, None)"
  using find_any_hit [of l 13 "10 # r"] find_any_hit [of l 10 r]
  by (cases "l = []") (auto simp: extract_line_def eol_def buf_simps)

lemma extract_line_none:
  "one_line l \<Longrightarrow> extract_line [] l None = Some (ParseIncomplete, [], l, None)"
  "one_line l \<Longrightarrow> extract_line [] (l @ [13]) None = Some (ParseIncomplete, [], l @ [13], None)"
  by (auto simp: extract_line_def find_any_hit find_any_miss)

text \<open>A line that has arrived in part is left where it is.\<close>

lemma extract_line_part:
  assumes "one_line l" "eol e" "b @ c = l @ e @ r"
  shows "extract_line [] b None =
    (if length (l @ e) \<le> length b then Some (ParseSuccess, l, drop (length (l @ e)) b, None)
     else Some (ParseIncomplete, [], b, None))"
proof (cases "length (l @ e) \<le> length b")
  case True
  then have "b = l @ e @ drop (length (l @ e)) b"
    using assms(3) by (metis append.assoc append_eq_append_conv_if append_take_drop_id)
  then show ?thesis using True extract_line_eol [OF assms(1,2)] by metis
next
  case False
  then have b: "b = take (length b) (l @ e)" using assms(3) by (metis append.assoc append_eq_append_conv_if nat_le_linear)
  show ?thesis
  proof (cases "length b \<le> length l")
    case True
    then have "one_line b" using b assms(1) by (metis append_eq_conv_conj diff_is_0_eq in_set_takeD one_line_def take0 take_append append_Nil2)
    then show ?thesis using False extract_line_none(1) by simp
  next
    case long: False
    then have "b = l @ [13]" using b False assms(2) by (auto simp: eol_def take_Cons')
    then show ?thesis using False assms(1) extract_line_none(2) by simp
  qed
qed

section \<open>Decoding a URI\<close>

text \<open>A URI read from the left, with the value of two hexadecimal digits.\<close>

definition hex_digit :: "byte \<Rightarrow> nat option" where
  "hex_digit c =
     (let n = unat c in
      if 48 \<le> n \<and> n \<le> 57 then Some (n - 48)
      else if 97 \<le> n \<and> n \<le> 102 then Some (n - 87)
      else if 65 \<le> n \<and> n \<le> 70 then Some (n - 55) else None)"

fun uri_text :: "bytes \<Rightarrow> bytes option" where
  "uri_text [] = Some []"
| "uri_text (c # cs) =
     (if c = 0x25 then
        (case cs of
           a # b # rest \<Rightarrow> do {
             x \<leftarrow> hex_digit a;
             y \<leftarrow> hex_digit b;
             t \<leftarrow> uri_text rest;
             Some (of_nat (16 * x + y) # t) }
         | _ \<Rightarrow> None)
      else map_option ((#) c) (uri_text cs))"

lemma hex_digit_less: "hex_digit c = Some n \<Longrightarrow> n < 16"
  by (auto simp: hex_digit_def Let_def split: if_splits)

lemma decode_nibble_eq: "decode_nibble out c = map_option (\<lambda>n. out OR of_nat n) (hex_digit c)"
proof -
  have range: "a \<le> c \<longleftrightarrow> unat a \<le> unat c" "c \<le> a \<longleftrightarrow> unat c \<le> unat a" for a :: byte
    by (simp_all add: word_le_nat_alt)
  have shift: "of_nat (unat c - n) = c - of_nat n" if "n \<le> unat c" for n
    using that by (simp add: of_nat_diff)
  show ?thesis unfolding decode_nibble_def hex_digit_def range by (simp add: Let_def shift)
qed

lemma nibbles_byte:
  assumes "x < 16" "y < 16"
  shows "push_bit 4 (0 OR of_nat x) OR of_nat y = (of_nat (16 * x + y) :: byte)"
proof -
  have "\<forall>x\<in>set [0..<16]. \<forall>y\<in>set [0..<16]. push_bit 4 (0 OR of_nat x) OR of_nat y = (of_nat (16 * x + y) :: byte)"
    by code_simp
  then show ?thesis using assms by simp
qed

lemma uri_text_plain: "0x25 \<notin> set xs \<Longrightarrow> uri_text (xs @ r) = map_option ((@) xs) (uri_text r)"
proof (induction xs)
  case Nil
  then show ?case by (cases "uri_text r") simp_all
next
  case (Cons x xs)
  then show ?case by (cases "uri_text r") auto
qed

lemma uri_text_escape:
  "uri_text (0x25 # a # b # r) = Option.bind (decode_nibble 0 a) (\<lambda>x. Option.bind (decode_nibble (push_bit 4 x) b)
     (\<lambda>y. map_option ((#) y) (uri_text r)))"
proof (cases "hex_digit a")
  case (Some x)
  show ?thesis
  proof (cases "hex_digit b")
    case y: (Some y)
    have "push_bit 4 (0 OR of_nat x) OR of_nat y = (of_nat (16 * x + y) :: byte)"
      using Some y by (intro nibbles_byte) (auto dest: hex_digit_less)
    then show ?thesis using Some y by (cases "uri_text r") (simp_all add: decode_nibble_eq)
  qed (simp add: Some decode_nibble_eq)
qed (simp add: decode_nibble_eq)

lemma uri_text_short: "length r < 2 \<Longrightarrow> uri_text (0x25 # r) = None"
  by (cases r; cases "tl r") auto

lemma decode_uri_loop_eq:
  "\<exists>rest dec'. decode_uri_loop enc dec = Some (uri_text enc \<noteq> None, rest, dec') \<and>
    (case uri_text enc of None \<Rightarrow> True | Some t \<Rightarrow> rest = [] \<and> dec' = dec @ t)"
proof (induction "length enc" arbitrary: enc dec rule: less_induct)
  case less
  show ?case
  proof (cases "buf_find 0x25 0 enc")
    case None
    then have "uri_text enc = Some enc" using uri_text_plain [of enc "[]"] by (simp add: buf_find_None_iff)
    then show ?thesis using None by (subst decode_uri_loop.simps) (simp add: buf_moveout_all_def)
  next
    case (Some pos)
    let ?xs = "take pos enc" and ?r = "drop (Suc pos) enc"
    have enc: "enc = ?xs @ 0x25 # ?r" and xs: "0x25 \<notin> set ?xs" and pos: "pos < length enc"
      using buf_find_split [OF Some] buf_find_SomeD [OF Some] by auto
    have whole: "uri_text enc = map_option ((@) ?xs) (uri_text (0x25 # ?r))"
      using uri_text_plain [OF xs, of "0x25 # ?r"] enc by simp
    have d: "drop pos enc = 0x25 # ?r" using enc pos by (metis Cons_nth_drop_Suc buf_find_SomeD(2) [OF Some])
    have move: "(if pos \<noteq> 0 then buf_moveout_buffer dec enc 0 pos else Some (dec, enc)) = Some (dec @ ?xs, 0x25 # ?r)"
      using pos d by (auto simp: buf_simps)
    show ?thesis
    proof (cases "length ?r < 2")
      case True
      then show ?thesis by (subst decode_uri_loop.simps) (use Some move whole uri_text_short in \<open>auto simp: Let_def\<close>)
    next
      case False
      then obtain a b r where r: "?r = a # b # r" by (cases ?r; cases "tl ?r") auto
      have len: "length r < length enc" using enc r by (metis Suc_lessD add_Suc_right length_Cons length_append less_Suc_eq trans_less_add2)
      have step: "decode_uri_loop enc dec = (case decode_nibble 0 a of None \<Rightarrow> Some (False, 0x25 # ?r, dec @ ?xs)
          | Some x \<Rightarrow> (case decode_nibble (push_bit 4 x) b of None \<Rightarrow> Some (False, 0x25 # ?r, dec @ ?xs)
            | Some y \<Rightarrow> decode_uri_loop r (dec @ ?xs @ [y])))"
        by (subst decode_uri_loop.simps, unfold Some option.case move)
          (simp add: r buf_simps split: option.splits)
      show ?thesis
      proof (cases "Option.bind (decode_nibble 0 a) (\<lambda>x. decode_nibble (push_bit 4 x) b)")
        case None
        then have "uri_text enc = None" "\<exists>rest dec'. decode_uri_loop enc dec = Some (False, rest, dec')"
          unfolding whole step r uri_text_escape by (auto split: option.splits bind_splits)
        then show ?thesis by simp
      next
        case y: (Some y)
        then obtain x where "decode_nibble 0 a = Some x" "decode_nibble (push_bit 4 x) b = Some y"
          by (auto simp: bind_eq_Some_conv)
        then have "decode_uri_loop enc dec = decode_uri_loop r (dec @ ?xs @ [y])" "uri_text enc = map_option (\<lambda>t. ?xs @ y # t) (uri_text r)"
          unfolding whole step r uri_text_escape by (simp_all add: option.map_comp o_def)
        then show ?thesis using less [OF len, of "dec @ ?xs @ [y]"] by (cases "uri_text r") auto
      qed
    qed
  qed
qed

text \<open>C32: \<^verbatim>\<open>DecodeURI\<close> terminates on every input without a failed assertion and decodes as a
  character-by-character reading of the URI does: it succeeds exactly when every percent
  sign is followed by two hexadecimal digits, and then it has consumed its input and appended
  the text with every escape replaced by the byte it stands for.\<close>

theorem decode_uri_is_reference:
  "\<exists>rest dec'. decode_uri encoded decoded = Some (uri_text encoded \<noteq> None, rest, dec') \<and>
    (case uri_text encoded of None \<Rightarrow> True | Some t \<Rightarrow> rest = [] \<and> dec' = decoded @ t)"
  using decode_uri_loop_eq [of encoded decoded] by (cases "encoded = []") (simp_all add: decode_uri_def)

section \<open>Decoding a message\<close>

definition header_lines :: "(bytes \<times> bytes) list \<Rightarrow> bytes" where
  "header_lines hs = concat (map (\<lambda>(k, v). k @ [0x3a, 0x20] @ v @ [13, 10]) hs)"

definition message_text :: "bytes \<Rightarrow> (bytes \<times> bytes) list \<Rightarrow> bytes \<Rightarrow> bytes" where
  "message_text start hs body = start @ [13, 10] @ header_lines hs @ [13, 10] @ body"

definition header_ok :: "bytes \<times> bytes \<Rightarrow> bool" where
  "header_ok h \<longleftrightarrow> (case h of (k, v) \<Rightarrow> k \<noteq> [] \<and> hd k \<noteq> 0x20 \<and> 0x3a \<notin> set k \<and> one_line k \<and>
     one_line v \<and> (v = [] \<or> hd v \<noteq> 0x20))"

definition start_ok :: "message_type \<Rightarrow> bytes \<Rightarrow> bool" where
  "start_ok t start \<longleftrightarrow> start \<noteq> [] \<and> one_line start \<and> (t = Request \<longrightarrow> length (buf_split 0x20 False start) = 3)"

lemma skip_spaces_id: "v = [] \<or> hd v \<noteq> 0x20 \<Longrightarrow> skip_spaces v = v"
  by (cases v) auto

lemma header_split_line:
  assumes "header_ok (k, v)"
  shows "buf_find 0x3a 0 (k @ [0x3a, 0x20] @ v) = Some (length k)"
    and "header_split (length k) (k @ [0x3a, 0x20] @ v) = Some (k, v)"
  using assms by (auto simp: header_ok_def buf_find_append_hit header_split_def buf_simps skip_spaces_id)

lemma message_headers_lines:
  assumes "\<forall>h\<in>set hs. header_ok h"
  shows "message_headers (header_lines hs @ [13, 10] @ body) lst m =
    Some (True, m\<lparr>hm_headers := fold (\<lambda>(k, v). header_push k v) hs (hm_headers m), hm_body := hm_body m @ body\<rparr>, [])"
  using assms
proof (induction hs arbitrary: lst m)
  case Nil
  have "extract_line [] ([13, 10] @ body) None = Some (ParseSuccess, [], body, None)"
    using extract_line_eol [of "[]" "[13, 10]" body] by (simp add: one_line_def eol_def)
  then show ?case by (subst message_headers.simps) (simp add: header_lines_def)
next
  case (Cons h hs)
  obtain k v where h: "h = (k, v)" by (cases h)
  have ok: "header_ok (k, v)" using Cons.prems h by simp
  let ?r = "header_lines hs @ [13, 10] @ body" and ?l = "k @ [0x3a, 0x20] @ v"
  have l: "one_line ?l" "?l \<noteq> []" "hd ?l \<noteq> 0x20" using ok by (auto simp: header_ok_def one_line_def)
  have "extract_line [] (header_lines (h # hs) @ [13, 10] @ body) None = Some (ParseSuccess, ?l, ?r, None)"
    using extract_line_eol [OF l(1), of "[13, 10]" ?r] by (simp add: header_lines_def h eol_def)
  then have "message_headers (header_lines (h # hs) @ [13, 10] @ body) lst m =
      message_headers ?r k (m\<lparr>hm_headers := header_push k v (hm_headers m)\<rparr>)"
    using l(2,3) header_split_line [OF ok] by (subst message_headers.simps) simp
  then show ?case using Cons h by simp
qed

text \<open>C33: A message written as its start line, one line per header and an empty line before the
  body is decoded to exactly these: the values of every name in their order, and the whole
  rest of the input as the body.  A request needs a start line of three words.\<close>

theorem message_round_trip:
  assumes "start_ok t start" and "\<forall>h\<in>set hs. header_ok h"
  shows "message_decode (message_text start hs body) (http_message_new t) =
    Some (True, \<lparr>hm_type = t, hm_start_line = start, hm_headers = fold (\<lambda>(k, v). header_push k v) hs Map.empty, hm_body = body\<rparr>, [])"
proof -
  have "extract_line [] (message_text start hs body) None = Some (ParseSuccess, start, header_lines hs @ [13, 10] @ body, None)"
    using assms(1) extract_line_eol [of start "[13, 10]"] by (simp add: message_text_def start_ok_def eol_def)
  then show ?thesis using assms(1) message_headers_lines [OF assms(2), of body]
    by (cases t) (auto simp: message_decode_def start_ok_def http_message_new_def Let_def)
qed

theorem message_round_trip_witness:
  "message_decode (message_text (ascii ''GET / HTTP/1.1'') [(ascii ''Host'', ascii ''a''), (ascii ''Host'', ascii ''b'')] [1, 2])
     (http_message_new Request) =
   Some (True, \<lparr>hm_type = Request, hm_start_line = ascii ''GET / HTTP/1.1'',
     hm_headers = [ascii ''Host'' \<mapsto> [ascii ''a'', ascii ''b'']], hm_body = [1, 2]\<rparr>, [])"
proof -
  have "length (buf_split 0x20 False (ascii ''GET / HTTP/1.1'')) = 3" by code_simp
  then have "start_ok Request (ascii ''GET / HTTP/1.1'')" by (simp add: start_ok_def one_line_def ascii_def)
  moreover have "\<forall>h\<in>set [(ascii ''Host'', ascii ''a''), (ascii ''Host'', ascii ''b'')]. header_ok h"
    by (simp add: header_ok_def one_line_def ascii_def)
  ultimately show ?thesis using message_round_trip [of Request "ascii ''GET / HTTP/1.1''" "[(ascii ''Host'', ascii ''a''), (ascii ''Host'', ascii ''b'')]" "[1, 2]"]
    by (simp add: header_push_def header_values_def)
qed

end
