(* ===== verification/SSH_Transport.thy ===== *)
theory SSH_Transport
  imports SSH_Negotiation HTTP_Protocol Pipe_Producer
begin

text \<open>
  class SSH::TransportPipe (ssh/ssh_transport_pipe.cc): the identification string, and packets
  with padding, MAC and encryption in both directions, with the ciphers and MACs it calls
  (ssh/ssh_encryption.cc, ssh/ssh_mac.cc, crypto/crypto_encryption_openssl.cc and
  crypto/crypto_mac_openssl.cc).  The functions of OpenSSL are parameters; \<open>'c\<close> is the state of a
  cipher context or the key of a MAC.  Handing a received message to the algorithm negotiation,
  the key exchange or the receive callback is not part of the model.
\<close>

section \<open>Ciphers and MACs\<close>

text \<open>\<^verbatim>\<open>EVP_Cipher\<close>, \<^verbatim>\<open>AES_ctr128_encrypt\<close> and \<^verbatim>\<open>HMAC\<close>.\<close>

record 'c openssl =
  EVP_Cipher :: "ssh_algorithm \<Rightarrow> 'c \<Rightarrow> bytes \<Rightarrow> (bytes \<times> 'c) option"
  AES_ctr128_encrypt :: "'c \<Rightarrow> bytes \<Rightarrow> bytes \<times> 'c"
  HMAC :: "ssh_algorithm \<Rightarrow> 'c \<Rightarrow> bytes \<Rightarrow> bytes option"

definition session_evp_cipher :: "'c openssl \<Rightarrow> ssh_algorithm \<Rightarrow> 'c \<Rightarrow> bytes \<Rightarrow> (bytes \<times> 'c) option option" where
  "session_evp_cipher cr e c inp = do {
     indata \<leftarrow> buf_copyout inp 0 (length inp);
     Some (EVP_Cipher cr e c indata) }"

definition session_aes128ctr_cipher :: "'c openssl \<Rightarrow> 'c \<Rightarrow> bytes \<Rightarrow> (bytes \<times> 'c) option option" where
  "session_aes128ctr_cipher cr c inp = do {
     assert_that (length inp mod 16 = 0);
     indata \<leftarrow> buf_copyout inp 0 (length inp);
     Some (Some (AES_ctr128_encrypt cr c indata)) }"

text \<open>Only AES128 in CTR mode has a session class of its own.\<close>

definition encryption_cipher :: "'c openssl \<Rightarrow> ssh_algorithm \<Rightarrow> 'c \<Rightarrow> bytes \<Rightarrow> (bytes \<times> 'c) option option" where
  "encryption_cipher cr e c inp =
     (if alg_name e = ascii ''aes128-ctr'' then session_aes128ctr_cipher cr c inp else session_evp_cipher cr e c inp)"

text \<open>The size of the digest, \<^verbatim>\<open>EVP_MD_size\<close>, is the key size of the MAC.\<close>

definition instance_mac :: "'c openssl \<Rightarrow> ssh_algorithm \<Rightarrow> 'c \<Rightarrow> bytes \<Rightarrow> bytes option option" where
  "instance_mac cr m k inp = do {
     indata \<leftarrow> buf_copyout inp 0 (length inp);
     (case HMAC cr m k indata of
        None \<Rightarrow> Some None
      | Some macdata \<Rightarrow> do {
          assert_that (length macdata = alg_key_size m);
          out \<leftarrow> buf_append_bytes [] macdata;
          Some (Some out) }) }"

section \<open>State\<close>

datatype transport_state = GetIdentificationString | GetPacket

record 'c ssh_transport =
  tp_pipe :: pipe_producer
  tp_session :: ssh_session
  tp_state :: transport_state
  tp_input_buffer :: bytes
  tp_first_block :: bytes
  tp_receive_callback :: bool
  tp_receive_action :: "event option"
  tp_ready :: bool
  tp_ready_callback :: bool
  tp_ready_action :: bool
  tp_local_cipher :: 'c
  tp_remote_cipher :: 'c
  tp_local_mac :: 'c
  tp_remote_mac :: 'c

text \<open>\<open>c\<close> is a cipher or MAC that has not been initialized.\<close>

definition transport_new :: "'c \<Rightarrow> ssh_session \<Rightarrow> 'c ssh_transport option" where
  "transport_new c s = do {
     let ident = ascii ''SSH-2.0-WANProxy '' @ ascii ''/ssh/transport/pipe'';
     let s = ssh_local_version ident s;
     p \<leftarrow> produce (ident @ [13, 10]) pipe_producer_new;
     Some \<lparr>tp_pipe = p, tp_session = s, tp_state = GetIdentificationString, tp_input_buffer = [], tp_first_block = [],
       tp_receive_callback = False, tp_receive_action = None, tp_ready = False, tp_ready_callback = False,
       tp_ready_action = False, tp_local_cipher = c, tp_remote_cipher = c, tp_local_mac = c, tp_remote_mac = c\<rparr> }"

section \<open>Readiness\<close>

text \<open>Returns whether the callback is scheduled at once.\<close>

definition transport_ready :: "'c ssh_transport \<Rightarrow> (bool \<times> 'c ssh_transport) option" where
  "transport_ready t = do {
     assert_that (\<not> tp_ready_callback t);
     assert_that (\<not> tp_ready_action t);
     (if tp_ready t then Some (True, t) else Some (False, t\<lparr>tp_ready_callback := True\<rparr>)) }"

definition key_exchange_complete :: "'c ssh_transport \<Rightarrow> 'c ssh_transport option" where
  "key_exchange_complete t =
     (if \<not> tp_ready t then do {
        let t = t\<lparr>tp_ready := True\<rparr>;
        (if tp_ready_callback t then do {
           assert_that (\<not> tp_ready_action t);
           Some (t\<lparr>tp_ready_action := True, tp_ready_callback := False\<rparr>) }
         else Some t) }
      else do { assert_that (\<not> tp_ready_callback t); Some t })"

definition ready_cancel :: "'c ssh_transport \<Rightarrow> 'c ssh_transport option" where
  "ready_cancel t = do {
     t \<leftarrow> (if tp_ready_callback t then do { assert_that (\<not> tp_ready t); Some (t\<lparr>tp_ready_callback := False\<rparr>) } else Some t);
     (if tp_ready_action t then do { assert_that (tp_ready t); Some (t\<lparr>tp_ready_action := False\<rparr>) } else Some t) }"

definition receive_cancel :: "'c ssh_transport \<Rightarrow> 'c ssh_transport" where
  "receive_cancel t = t\<lparr>tp_receive_action := None, tp_receive_callback := False\<rparr>"

section \<open>Sending\<close>

definition transport_block_size :: "ssh_algorithm option \<Rightarrow> nat" where
  "transport_block_size e = (case e of Some e \<Rightarrow> if alg_block_size e < 8 then 8 else alg_block_size e | None \<Rightarrow> 8)"

definition transport_fail :: "'c ssh_transport \<Rightarrow> 'c ssh_transport option" where
  "transport_fail t = do { p \<leftarrow> produce_error (tp_pipe t); Some (t\<lparr>tp_pipe := p\<rparr>) }"

definition transport_send :: "'c openssl \<Rightarrow> bytes \<Rightarrow> 'c ssh_transport \<Rightarrow> 'c ssh_transport option" where
  "transport_send cr payload t = do {
     assert_that (tp_state t = GetPacket);
     let algs = ssh_local_to_remote (tp_session t);
     let block_size = transport_block_size (ua_encryption algs);
     let packet_len = (of_nat (1 + length payload) :: u32);
     let padding_len = (of_nat (4 + (block_size - ((4 + unat packet_len + 4) mod block_size))) :: byte);
     let packet_len = packet_len + ucast padding_len;
     packet \<leftarrow> buf_append_bytes (be32 packet_len) [padding_len];
     let (packet, payload) = buf_moveout_all packet payload;
     packet \<leftarrow> buf_append_bytes packet (replicate (unat padding_len) 0);
     mac \<leftarrow> (case ua_mac algs of
        None \<Rightarrow> Some (Some [])
      | Some m \<Rightarrow> instance_mac cr m (tp_local_mac t)
          (ssh_uint32_encode [] (ss_local_sequence_number (tp_session t)) @ packet));
     (case mac of
        None \<Rightarrow> transport_fail t
      | Some mac \<Rightarrow> do {
          ciphertext \<leftarrow> (case ua_encryption algs of
             None \<Rightarrow> Some (Some (packet, tp_local_cipher t))
           | Some e \<Rightarrow> encryption_cipher cr e (tp_local_cipher t) packet);
          (case ciphertext of
             None \<Rightarrow> transport_fail t
           | Some (packet, c) \<Rightarrow> do {
               let packet = (if mac \<noteq> [] then packet @ mac else packet);
               let s = (tp_session t)\<lparr>ss_local_sequence_number := ss_local_sequence_number (tp_session t) + 1\<rparr>;
               p \<leftarrow> produce packet (tp_pipe t);
               Some (t\<lparr>tp_session := s, tp_local_cipher := c, tp_pipe := p\<rparr>) }) }) }"

section \<open>Receiving\<close>

datatype ssh_received = Waiting | Failing | Received bytes

text \<open>The body of the loop of \<^verbatim>\<open>receive_do\<close> in four parts: the length, the packet, the MAC and the padding.  A part
  that fails or waits ends it.\<close>

definition packet_length :: "'c openssl \<Rightarrow> ssh_algorithm option \<Rightarrow> 'c ssh_transport \<Rightarrow> (u32 option \<times> 'c ssh_transport) option" where
  "packet_length cr enc t =
     (case enc of
        None \<Rightarrow> do { b \<leftarrow> buf_copyout (tp_input_buffer t) 0 4; Some (Some (be32_value b), t) }
      | Some e \<Rightarrow>
          (if tp_first_block t = [] then do {
             (block, inp) \<leftarrow> buf_moveout_buffer [] (tp_input_buffer t) 0 (transport_block_size enc);
             plain \<leftarrow> encryption_cipher cr e (tp_remote_cipher t) block;
             (case plain of
                None \<Rightarrow> Some (None, t\<lparr>tp_input_buffer := inp\<rparr>)
              | Some (plain, c) \<Rightarrow> do {
                  let t = t\<lparr>tp_input_buffer := inp, tp_first_block := plain, tp_remote_cipher := c\<rparr>;
                  b \<leftarrow> buf_copyout plain 0 4;
                  Some (Some (be32_value b), t) }) }
           else do { b \<leftarrow> buf_copyout (tp_first_block t) 0 4; Some (Some (be32_value b), t) }))"

text \<open>\<open>Some None\<close> waits; a failed decryption gives \<open>Some (Some None)\<close>.\<close>

definition packet_take ::
  "'c openssl \<Rightarrow> ssh_algorithm option \<Rightarrow> nat \<Rightarrow> u32 \<Rightarrow> 'c ssh_transport \<Rightarrow> (bytes option option \<times> 'c ssh_transport) option" where
  "packet_take cr enc mac_size packet_len t =
     (let need = 4 + unat packet_len; bs = transport_block_size enc in
      case enc of
        None \<Rightarrow>
          (if length (tp_input_buffer t) < need + mac_size then Some (None, t)
           else do {
             (packet, inp) \<leftarrow> buf_moveout_buffer [] (tp_input_buffer t) 0 need;
             Some (Some (Some packet), t\<lparr>tp_input_buffer := inp\<rparr>) })
      | Some e \<Rightarrow> do {
          assert_that (tp_first_block t \<noteq> []);
          (if bs + length (tp_input_buffer t) < need + mac_size then Some (None, t)
           else do {
             let packet = tp_first_block t;
             let t = t\<lparr>tp_first_block := []\<rparr>;
             (if bs < need then do {
                (block, inp) \<leftarrow> buf_moveout_buffer [] (tp_input_buffer t) 0 (need - bs);
                plain \<leftarrow> encryption_cipher cr e (tp_remote_cipher t) block;
                (case plain of
                   None \<Rightarrow> Some (Some None, t\<lparr>tp_input_buffer := inp\<rparr>)
                 | Some (plain, c) \<Rightarrow> do {
                     assert_that (length (packet @ plain) = need);
                     Some (Some (Some (packet @ plain)), t\<lparr>tp_input_buffer := inp, tp_remote_cipher := c\<rparr>) }) }
              else do {
                assert_that (length packet = need);
                Some (Some (Some packet), t) }) }) })"

definition packet_verify :: "'c openssl \<Rightarrow> ssh_algorithm option \<Rightarrow> bytes \<Rightarrow> 'c ssh_transport \<Rightarrow> (bool \<times> 'c ssh_transport) option" where
  "packet_verify cr m packet t =
     (case m of
        None \<Rightarrow> Some (True, t)
      | Some m \<Rightarrow> do {
          (mac, inp) \<leftarrow> buf_moveout_buffer [] (tp_input_buffer t) 0 (alg_mac_size m);
          let t = t\<lparr>tp_input_buffer := inp\<rparr>;
          expected \<leftarrow> instance_mac cr m (tp_remote_mac t)
            (ssh_uint32_encode [] (ss_remote_sequence_number (tp_session t)) @ packet);
          (case expected of
             None \<Rightarrow> Some (False, t)
           | Some expected \<Rightarrow> Some (expected = mac, t)) })"

definition packet_payload :: "bytes \<Rightarrow> bytes option option" where
  "packet_payload packet = do {
     packet \<leftarrow> buf_skip 4 packet;
     (padding_len, packet) \<leftarrow> buf_pop packet;
     (if padding_len \<noteq> 0 then
        (if length packet < unat padding_len then Some None
         else do {
           packet \<leftarrow> buf_trim (unat padding_len) packet;
           Some (if packet = [] then None else Some packet) })
      else Some (if packet = [] then None else Some packet)) }"

definition receive_packet :: "'c openssl \<Rightarrow> 'c ssh_transport \<Rightarrow> (ssh_received \<times> 'c ssh_transport) option" where
  "receive_packet cr t =
     (let algs = ssh_remote_to_local (tp_session t); enc = ua_encryption algs; m = ua_mac algs;
          mac_size = (case m of Some m \<Rightarrow> alg_mac_size m | None \<Rightarrow> 0) in
      if length (tp_input_buffer t) \<le> transport_block_size enc then Some (Waiting, t)
      else do {
        (len, t) \<leftarrow> packet_length cr enc t;
        (if len = None \<or> len = Some 0 then do { t \<leftarrow> transport_fail t; Some (Failing, t) }
         else do {
           (p, t) \<leftarrow> packet_take cr enc mac_size (the len) t;
           (case p of
              None \<Rightarrow> Some (Waiting, t)
            | Some None \<Rightarrow> do { t \<leftarrow> transport_fail t; Some (Failing, t) }
            | Some (Some packet) \<Rightarrow> do {
                (ok, t) \<leftarrow> packet_verify cr m packet t;
                (if \<not> ok then do { t \<leftarrow> transport_fail t; Some (Failing, t) }
                 else do {
                   let t = t\<lparr>tp_session := (tp_session t)
                     \<lparr>ss_remote_sequence_number := ss_remote_sequence_number (tp_session t) + 1\<rparr>\<rparr>;
                   payload \<leftarrow> packet_payload packet;
                   (case payload of
                      None \<Rightarrow> do { t \<leftarrow> transport_fail t; Some (Failing, t) }
                    | Some payload \<Rightarrow> Some (Received payload, t)) }) }) }) })"

section \<open>The identification string\<close>

text \<open>Lines before the one that begins with \<^verbatim>\<open>SSH-\<close> are skipped.  The result says whether a version was found; \<open>init\<close>
  is what the algorithm negotiation, if there is one, makes of the session: the cookie and the lists.\<close>

function identification :: "bytes \<Rightarrow> (parse_status \<times> bytes \<times> bytes) option" where
  "identification inp =
     (if inp = [] then Some (ParseIncomplete, [], inp)
      else case extract_line [] inp None of
        None \<Rightarrow> None
      | Some (status, line, rest, _) \<Rightarrow>
          (case status of
             ParseFailure \<Rightarrow> Some (ParseFailure, [], rest)
           | ParseIncomplete \<Rightarrow> Some (ParseIncomplete, [], rest)
           | ParseSuccess \<Rightarrow>
               (if take 4 line \<noteq> ascii ''SSH-'' then identification rest
                else if take 7 line \<noteq> ascii ''SSH-2.0'' then Some (ParseFailure, [], rest)
                else Some (ParseSuccess, line, rest))))"
  by pat_completeness auto
termination
  by (relation "measure length") (auto dest: extract_line_shorter)

declare identification.simps [simp del]

definition transport_identify ::
  "'c openssl \<Rightarrow> (bytes option \<times> ssh_offer) option \<Rightarrow> 'c ssh_transport \<Rightarrow> 'c ssh_transport option" where
  "transport_identify cr init t = do {
     (status, line, rest) \<leftarrow> identification (tp_input_buffer t);
     let t = t\<lparr>tp_input_buffer := rest\<rparr>;
     (case status of
        ParseFailure \<Rightarrow> transport_fail t
      | ParseIncomplete \<Rightarrow> Some t
      | ParseSuccess \<Rightarrow> do {
          let t = t\<lparr>tp_session := ssh_remote_version line (tp_session t), tp_state := GetPacket\<rparr>;
          (case init of
             None \<Rightarrow> Some t
           | Some (cookie, f) \<Rightarrow> do {
               (ok, packet, s) \<leftarrow> negotiation_init cookie f [] (tp_session t);
               let t = t\<lparr>tp_session := s\<rparr>;
               (if ok then transport_send cr packet t else Some t) }) }) }"

section \<open>Packets\<close>

text \<open>What RFC 4253 asks of a packet: the length, the padding length, the payload and the padding, a whole number of blocks.\<close>

definition ssh_padding :: "nat \<Rightarrow> bytes \<Rightarrow> nat" where
  "ssh_padding bs payload = 4 + (bs - (length payload + 9) mod bs)"

definition ssh_packet :: "nat \<Rightarrow> bytes \<Rightarrow> bytes" where
  "ssh_packet bs payload = be32 (of_nat (1 + length payload + ssh_padding bs payload)) @ [of_nat (ssh_padding bs payload)] @
     payload @ replicate (ssh_padding bs payload) 0"

lemma ssh_padding_bounds:
  assumes "8 \<le> bs" "bs \<le> 251"
  shows "4 < ssh_padding bs payload" "ssh_padding bs payload \<le> 255"
proof -
  have "(length payload + 9) mod bs < bs" using assms(1) by simp
  then show "4 < ssh_padding bs payload" "ssh_padding bs payload \<le> 255" using assms(2) by (auto simp: ssh_padding_def)
qed

lemma ssh_packet_length: "length (ssh_packet bs payload) = 5 + length payload + ssh_padding bs payload"
  by (simp add: ssh_packet_def)

lemma ssh_packet_blocks:
  assumes "8 \<le> bs"
  shows "bs dvd length (ssh_packet bs payload)"
proof -
  have "(length payload + 9) mod bs < bs" using assms by simp
  then have "length (ssh_packet bs payload) = (length payload + 9) - (length payload + 9) mod bs + bs"
    by (simp add: ssh_packet_length ssh_padding_def mod_less_eq_dividend)
  then show ?thesis by (metis dvd_add_left_iff dvd_minus_mod dvd_refl)
qed

lemma ssh_packet_payload:
  assumes "8 \<le> bs" "bs \<le> 251" "payload \<noteq> []"
  shows "packet_payload (ssh_packet bs payload) = Some (Some payload)"
proof -
  have "unat (of_nat (ssh_padding bs payload) :: byte) = ssh_padding bs payload"
    using ssh_padding_bounds [OF assms(1,2), of payload] by (simp add: unat_of_nat)
  moreover have "(of_nat (ssh_padding bs payload) :: byte) \<noteq> 0"
    using calculation ssh_padding_bounds(1) [OF assms(1,2), of payload] by (metis not_less_zero unat_0)
  ultimately show ?thesis using assms(3) ssh_padding_bounds(1) [OF assms(1,2), of payload]
    by (simp add: packet_payload_def ssh_packet_def buf_skip_def buf_pop_def buf_trim_def)
qed

section \<open>Two transports on one connection\<close>

text \<open>What the documentation of OpenSSL says of a cipher: on whole blocks, what one context has encrypted a second context
  with the same key and IV decrypts, at once or in two pieces.  \<open>R\<close> relates the contexts of the two ends.\<close>

definition openssl_cipher :: "'c openssl \<Rightarrow> ssh_algorithm \<Rightarrow> 'c \<Rightarrow> bytes \<Rightarrow> (bytes \<times> 'c) option" where
  "openssl_cipher cr e c xs = (if alg_name e = ascii ''aes128-ctr'' then Some (AES_ctr128_encrypt cr c xs) else EVP_Cipher cr e c xs)"

definition cipher_law :: "'c openssl \<Rightarrow> ('c \<Rightarrow> 'c \<Rightarrow> bool) \<Rightarrow> ssh_algorithm \<Rightarrow> bool" where
  "cipher_law cr R e \<longleftrightarrow> (\<forall>c d xs. R c d \<and> transport_block_size (Some e) dvd length xs \<longrightarrow>
     (\<exists>ys c'. openssl_cipher cr e c xs = Some (ys, c') \<and> length ys = length xs \<and>
       (\<exists>d'. openssl_cipher cr e d ys = Some (xs, d') \<and> R c' d') \<and>
       (\<forall>n. transport_block_size (Some e) dvd n \<longrightarrow> (\<exists>d1 d'. openssl_cipher cr e d (take n ys) = Some (take n xs, d1) \<and>
          openssl_cipher cr e d1 (drop n ys) = Some (drop n xs, d') \<and> R c' d'))))"

text \<open>HMAC gives a digest of the size of the algorithm.\<close>

definition hmac_law :: "'c openssl \<Rightarrow> ssh_algorithm \<Rightarrow> bool" where
  "hmac_law cr m \<longleftrightarrow> (\<forall>k xs. \<exists>d. HMAC cr m k xs = Some d \<and> length d = alg_key_size m)"

text \<open>What the tables of algorithms and the negotiation give: blocks of at most 251 bytes and of 16 for AES128 in CTR mode, and
  the size of a MAC is the size of its digest.  Where there is a cipher there is a MAC.\<close>

definition algorithms_ok :: "ssh_unidirectional \<Rightarrow> bool" where
  "algorithms_ok a \<longleftrightarrow>
     (case ua_encryption a of None \<Rightarrow> True
      | Some e \<Rightarrow> alg_block_size e \<le> 251 \<and> (alg_name e = ascii ''aes128-ctr'' \<longrightarrow> alg_block_size e = 16) \<and> ua_mac a \<noteq> None) \<and>
     (case ua_mac a of None \<Rightarrow> True | Some m \<Rightarrow> 0 < alg_mac_size m \<and> alg_mac_size m = alg_key_size m)"

definition openssl_ok :: "'c openssl \<Rightarrow> ('c \<Rightarrow> 'c \<Rightarrow> bool) \<Rightarrow> ssh_unidirectional \<Rightarrow> bool" where
  "openssl_ok cr R a \<longleftrightarrow>
     (case ua_encryption a of None \<Rightarrow> True | Some e \<Rightarrow> cipher_law cr R e) \<and>
     (case ua_mac a of None \<Rightarrow> True | Some m \<Rightarrow> hmac_law cr m)"

definition transports_linked :: "('c \<Rightarrow> 'c \<Rightarrow> bool) \<Rightarrow> 'c ssh_transport \<Rightarrow> 'c ssh_transport \<Rightarrow> bool" where
  "transports_linked R st rt \<longleftrightarrow>
     tp_state st = GetPacket \<and> pipe_wf (tp_pipe st) \<and> \<not> pp_error (tp_pipe st) \<and> \<not> pp_output_eos (tp_pipe st) \<and>
     ssh_remote_to_local (tp_session rt) = ssh_local_to_remote (tp_session st) \<and>
     ss_remote_sequence_number (tp_session rt) = ss_local_sequence_number (tp_session st) \<and>
     R (tp_local_cipher st) (tp_remote_cipher rt) \<and> tp_remote_mac rt = tp_local_mac st \<and> tp_first_block rt = []"

lemma transport_block_size_bounds:
  assumes "algorithms_ok a"
  shows "8 \<le> transport_block_size (ua_encryption a)" "transport_block_size (ua_encryption a) \<le> 251"
  using assms by (auto simp: algorithms_ok_def transport_block_size_def split: option.splits)

lemma encryption_cipher_openssl:
  assumes "xs \<noteq> []" "alg_name e = ascii ''aes128-ctr'' \<longrightarrow> length xs mod 16 = 0"
  shows "encryption_cipher cr e c xs = Some (openssl_cipher cr e c xs)"
  using assms
  by (simp add: encryption_cipher_def session_evp_cipher_def session_aes128ctr_cipher_def openssl_cipher_def buf_copyout_def)

lemma instance_mac_ok:
  assumes "hmac_law cr m" "0 < alg_key_size m" "xs \<noteq> []"
  obtains mac where "instance_mac cr m k xs = Some (Some mac)" "length mac = alg_key_size m"
proof -
  obtain d where d: "HMAC cr m k xs = Some d" "length d = alg_key_size m" using assms(1) by (auto simp: hmac_law_def)
  have "d \<noteq> []" using d(2) assms(2) by auto
  with d assms(3) have "instance_mac cr m k xs = Some (Some d)"
    by (simp add: instance_mac_def buf_copyout_def buf_append_bytes_def)
  then show thesis using d(2) that by blast
qed

text \<open>A packet of whole blocks, encrypted by one end and taken apart by the other.\<close>

lemma encrypted_packet:
  assumes law: "cipher_law cr R e" and r: "R c d" and bs: "bs = transport_block_size (Some e)"
    and ctr: "alg_name e = ascii ''aes128-ctr'' \<longrightarrow> bs = 16" and dvd: "bs dvd length xs" and ne: "xs \<noteq> []"
  obtains ys c' where "encryption_cipher cr e c xs = Some (Some (ys, c'))" "length ys = length xs"
    "\<exists>d'. encryption_cipher cr e d ys = Some (Some (xs, d')) \<and> R c' d'"
    "bs < length xs \<longrightarrow> (\<exists>d1 d'. encryption_cipher cr e d (take bs ys) = Some (Some (take bs xs, d1)) \<and>
       encryption_cipher cr e d1 (drop bs ys) = Some (Some (drop bs xs, d')) \<and> R c' d')"
proof -
  have bs0: "0 < bs" by (simp add: bs transport_block_size_def)
  obtain ys c' where ys: "openssl_cipher cr e c xs = Some (ys, c')" "length ys = length xs"
    and whole: "\<exists>d'. openssl_cipher cr e d ys = Some (xs, d') \<and> R c' d'"
    and parts: "\<And>n. bs dvd n \<Longrightarrow> \<exists>d1 d'. openssl_cipher cr e d (take n ys) = Some (take n xs, d1) \<and>
          openssl_cipher cr e d1 (drop n ys) = Some (drop n xs, d') \<and> R c' d'"
    using law [unfolded cipher_law_def, rule_format, of c d xs] r dvd unfolding bs [symmetric] by metis
  have whole_blocks: "alg_name e = ascii ''aes128-ctr'' \<longrightarrow> length zs mod 16 = 0" if "bs dvd length zs" for zs :: bytes
    using ctr that by (metis dvd_imp_mod_0)
  have ok: "encryption_cipher cr e k zs = Some (openssl_cipher cr e k zs)" if "zs \<noteq> []" "bs dvd length zs" for k zs
    using encryption_cipher_openssl [OF that(1) whole_blocks [OF that(2)]] .
  have "ys \<noteq> []" using ys(2) ne by auto
  show thesis
  proof (rule that [OF _ ys(2)])
    show "encryption_cipher cr e c xs = Some (Some (ys, c'))" using ok [OF ne dvd] ys(1) by metis
    show "\<exists>d'. encryption_cipher cr e d ys = Some (Some (xs, d')) \<and> R c' d'"
      using ok [OF \<open>ys \<noteq> []\<close>] dvd ys(2) whole by metis
    show "bs < length xs \<longrightarrow> (\<exists>d1 d'. encryption_cipher cr e d (take bs ys) = Some (Some (take bs xs, d1)) \<and>
       encryption_cipher cr e d1 (drop bs ys) = Some (Some (drop bs xs, d')) \<and> R c' d')"
    proof
      assume lt: "bs < length xs"
      have "take bs ys \<noteq> []" "bs dvd length (take bs ys)" using lt bs0 \<open>ys \<noteq> []\<close> ys(2) by auto
      moreover have "drop bs ys \<noteq> []" "bs dvd length (drop bs ys)" using lt ys(2) dvd by (auto intro: dvd_diff_nat)
      ultimately show "\<exists>d1 d'. encryption_cipher cr e d (take bs ys) = Some (Some (take bs xs, d1)) \<and>
         encryption_cipher cr e d1 (drop bs ys) = Some (Some (drop bs xs, d')) \<and> R c' d'"
        using parts [of bs] ok by (metis dvd_refl)
    qed
  qed
qed

text \<open>The cipher of a direction, which may be none.\<close>

definition seal :: "'c openssl \<Rightarrow> ssh_algorithm option \<Rightarrow> 'c \<Rightarrow> bytes \<Rightarrow> (bytes \<times> 'c) option option" where
  "seal cr enc c packet = (case enc of None \<Rightarrow> Some (Some (packet, c)) | Some e \<Rightarrow> encryption_cipher cr e c packet)"

definition seal_mac :: "'c openssl \<Rightarrow> ssh_algorithm option \<Rightarrow> 'c \<Rightarrow> u32 \<Rightarrow> bytes \<Rightarrow> bytes option option" where
  "seal_mac cr m k n packet = (case m of None \<Rightarrow> Some (Some []) | Some m \<Rightarrow> instance_mac cr m k (ssh_uint32_encode [] n @ packet))"

definition mac_length :: "ssh_algorithm option \<Rightarrow> nat" where
  "mac_length m = (case m of Some m \<Rightarrow> alg_mac_size m | None \<Rightarrow> 0)"

lemma seal_mac_ok:
  assumes "algorithms_ok a" "openssl_ok cr R a"
  obtains mac where "seal_mac cr (ua_mac a) k n packet = Some (Some mac)" "length mac = mac_length (ua_mac a)"
proof (cases "ua_mac a")
  case None
  then show thesis using that [of "[]"] by (simp add: seal_mac_def mac_length_def)
next
  case (Some m)
  have m: "hmac_law cr m" "0 < alg_key_size m" "alg_mac_size m = alg_key_size m"
    using assms Some by (auto simp: algorithms_ok_def openssl_ok_def)
  have "ssh_uint32_encode [] n @ packet \<noteq> []" by (simp add: ssh_uint32_encode_def)
  then obtain mac where "instance_mac cr m k (ssh_uint32_encode [] n @ packet) = Some (Some mac)" "length mac = alg_key_size m"
    by (rule instance_mac_ok [OF m(1,2)])
  then show thesis using Some m(3) that [of mac] by (simp add: seal_mac_def mac_length_def)
qed

lemma transport_send_eq:
  assumes st: "tp_state t = GetPacket" and bs: "bs = transport_block_size (ua_encryption (ssh_local_to_remote (tp_session t)))"
    "8 \<le> bs" "bs \<le> 251" and len: "length payload < 2 ^ 31"
    and mac: "seal_mac cr (ua_mac (ssh_local_to_remote (tp_session t))) (tp_local_mac t)
      (ss_local_sequence_number (tp_session t)) (ssh_packet bs payload) = Some (Some mac)"
    and enc: "seal cr (ua_encryption (ssh_local_to_remote (tp_session t))) (tp_local_cipher t) (ssh_packet bs payload) = Some (Some (ys, c'))"
  shows "transport_send cr payload t = do {
     p \<leftarrow> produce (ys @ mac) (tp_pipe t);
     Some (t\<lparr>tp_session := (tp_session t)\<lparr>ss_local_sequence_number := ss_local_sequence_number (tp_session t) + 1\<rparr>,
       tp_local_cipher := c', tp_pipe := p\<rparr>) }"
proof -
  let ?pad = "ssh_padding bs payload"
  note pb = ssh_padding_bounds [OF bs(2,3), of payload]
  have n: "unat (of_nat (1 + length payload) :: u32) = 1 + length payload"
    using len by (simp only: unat_of_nat) (simp add: take_bit_eq_mod)
  have pad: "4 + (bs - (4 + (1 + length payload) + 4) mod bs) = ?pad"
    unfolding ssh_padding_def by (simp add: add.commute)
  define pl where "pl = (of_nat ?pad :: byte)"
  have pl: "unat pl = ?pad" using pb by (simp add: pl_def unat_of_nat)
  have len: "of_nat (1 + length payload) + ucast pl = (of_nat (1 + length payload + ?pad) :: u32)"
    unfolding of_nat_add pl [symmetric] by simp
  define header where "header = be32 (of_nat (1 + length payload + ?pad))"
  have packet: "ssh_packet bs payload = header @ pl # payload @ replicate (unat pl) 0"
    by (simp add: ssh_packet_def header_def pl_def [symmetric] pl)
  have "replicate (unat pl) (0 :: byte) \<noteq> []" using pb(1) pl by auto
  then show ?thesis using st mac enc
    unfolding transport_send_def Let_def bs(1) [symmetric] n pad pl_def [symmetric] len header_def [symmetric] packet
      seal_def [symmetric] seal_mac_def [symmetric]
    by (simp add: buf_append_bytes_def buf_moveout_all_def)
qed

lemma ssh_packet_header:
  assumes "8 \<le> bs" "bs \<le> 251" "length payload < 2 ^ 31"
  obtains n q where "ssh_packet bs payload = be32 n @ q" "length (ssh_packet bs payload) = 4 + unat n" "n \<noteq> 0"
proof -
  let ?n = "1 + length payload + ssh_padding bs payload"
  have "?n < 2 ^ 32" using ssh_padding_bounds(2) [OF assms(1,2), of payload] assms(3) by simp
  then have n: "unat (of_nat ?n :: u32) = ?n" by (simp only: unat_of_nat) (simp add: take_bit_eq_mod)
  then have "(of_nat ?n :: u32) \<noteq> 0" by (metis add_is_0 one_neq_zero unat_0)
  moreover have "length (ssh_packet bs payload) = 4 + unat (of_nat ?n :: u32)" by (simp only: n ssh_packet_length)
  moreover have "\<exists>q. ssh_packet bs payload = be32 (of_nat ?n) @ q" unfolding ssh_packet_def by blast
  ultimately show thesis using that by blast
qed

text \<open>What \<open>seal\<close> has encrypted, the receiver takes out of its input whole.\<close>

lemma plain_packet_taken:
  assumes inp: "tp_input_buffer t = packet @ mac @ rest" and packet: "packet = be32 n @ q" "length packet = 4 + unat n"
  shows "packet_length cr None t = Some (Some n, t)"
    "packet_take cr None (length mac) n t = Some (Some (Some packet), t\<lparr>tp_input_buffer := mac @ rest\<rparr>)"
proof -
  show "packet_length cr None t = Some (Some n, t)" by (simp add: packet_length_def buf_copyout_def inp packet(1))
  have "4 + unat n \<le> length (tp_input_buffer t)" "\<not> length (tp_input_buffer t) < 4 + unat n + length mac"
    "take (4 + unat n) (tp_input_buffer t) = packet" "drop (4 + unat n) (tp_input_buffer t) = mac @ rest"
    by (simp_all add: inp packet(2) [symmetric])
  then show "packet_take cr None (length mac) n t = Some (Some (Some packet), t\<lparr>tp_input_buffer := mac @ rest\<rparr>)"
    by (simp add: packet_take_def Let_def buf_moveout_buffer_def)
qed

lemma one_block_taken:
  assumes inp: "tp_input_buffer t = ys @ mac @ rest" and packet: "packet = be32 n @ q" "length packet = 4 + unat n"
    and first: "tp_first_block t = []" and bs: "transport_block_size (Some e) = length packet" "length ys = length packet"
    and dec: "encryption_cipher cr e (tp_remote_cipher t) ys = Some (Some (packet, d'))"
  defines "t1 \<equiv> t\<lparr>tp_input_buffer := mac @ rest, tp_first_block := packet, tp_remote_cipher := d'\<rparr>"
  shows "packet_length cr (Some e) t = Some (Some n, t1)"
    "packet_take cr (Some e) (length mac) n t1 =
      Some (Some (Some packet), t\<lparr>tp_input_buffer := mac @ rest, tp_first_block := [], tp_remote_cipher := d'\<rparr>)"
proof -
  have "length packet \<noteq> 0" "packet \<noteq> []" using packet by auto
  then show "packet_length cr (Some e) t = Some (Some n, t1)"
    using dec by (simp add: packet_length_def buf_moveout_buffer_def buf_copyout_def inp first bs packet(1) t1_def)
  show "packet_take cr (Some e) (length mac) n t1 =
      Some (Some (Some packet), t\<lparr>tp_input_buffer := mac @ rest, tp_first_block := [], tp_remote_cipher := d'\<rparr>)"
    using \<open>packet \<noteq> []\<close> unfolding packet_take_def Let_def bs(1) packet(2) [symmetric] by (simp add: t1_def)
qed

lemma blocks_taken:
  assumes inp: "tp_input_buffer t = ys @ mac @ rest" and packet: "packet = be32 n @ q" "length packet = 4 + unat n"
    and first: "tp_first_block t = []" and bs: "bs = transport_block_size (Some e)" "bs < length packet" "length ys = length packet"
    and dec: "encryption_cipher cr e (tp_remote_cipher t) (take bs ys) = Some (Some (take bs packet, d1))"
      "encryption_cipher cr e d1 (drop bs ys) = Some (Some (drop bs packet, d'))"
  defines "t1 \<equiv> t\<lparr>tp_input_buffer := drop bs ys @ mac @ rest, tp_first_block := take bs packet, tp_remote_cipher := d1\<rparr>"
  shows "packet_length cr (Some e) t = Some (Some n, t1)"
    "packet_take cr (Some e) (length mac) n t1 =
      Some (Some (Some packet), t\<lparr>tp_input_buffer := mac @ rest, tp_first_block := [], tp_remote_cipher := d'\<rparr>)"
proof -
  have bs8: "8 \<le> bs" by (simp add: bs(1) transport_block_size_def)
  then have "take bs packet \<noteq> []" using bs(2) by auto
  have head: "buf_copyout (take bs packet) 0 4 = Some (be32 n)" using bs8 bs(2) by (simp add: buf_copyout_def packet(1) min_def)
  have "buf_moveout_buffer [] (tp_input_buffer t) 0 bs = Some (take bs ys, drop bs ys @ mac @ rest)"
    using bs8 bs(2,3) by (simp add: buf_moveout_buffer_def inp)
  then show "packet_length cr (Some e) t = Some (Some n, t1)"
    using dec(1) head first by (simp add: packet_length_def bs(1) [symmetric] t1_def)
  have "buf_moveout_buffer [] (drop bs ys @ mac @ rest) 0 (length packet - bs) = Some (drop bs ys, mac @ rest)"
    using bs(2,3) by (simp add: buf_moveout_buffer_def)
  then show "packet_take cr (Some e) (length mac) n t1 =
      Some (Some (Some packet), t\<lparr>tp_input_buffer := mac @ rest, tp_first_block := [], tp_remote_cipher := d'\<rparr>)"
    using \<open>take bs packet \<noteq> []\<close> dec(2) bs(2,3)
    unfolding packet_take_def Let_def bs(1) [symmetric] packet(2) [symmetric] by (simp add: t1_def)
qed

lemma sealed_packet_taken:
  assumes a: "algorithms_ok a" "openssl_ok cr R a" and bs: "bs = transport_block_size (ua_encryption a)"
    and packet: "packet = be32 n @ q" "length packet = 4 + unat n" "bs dvd length packet" and r: "R c d"
  obtains ys c' where "seal cr (ua_encryption a) c packet = Some (Some (ys, c'))" "length ys = length packet"
    "\<And>t mac rest. tp_input_buffer t = ys @ mac @ rest \<Longrightarrow> tp_first_block t = [] \<Longrightarrow> tp_remote_cipher t = d \<Longrightarrow>
       \<exists>t1 d'. R c' d' \<and> packet_length cr (ua_encryption a) t = Some (Some n, t1) \<and>
         packet_take cr (ua_encryption a) (length mac) n t1 =
           Some (Some (Some packet), t\<lparr>tp_input_buffer := mac @ rest, tp_first_block := [], tp_remote_cipher := d'\<rparr>)"
proof (cases "ua_encryption a")
  case None
  show thesis
  proof (rule that [of packet c])
    fix t :: "'a ssh_transport" and mac rest
    assume t: "tp_input_buffer t = packet @ mac @ rest" "tp_first_block t = []" "tp_remote_cipher t = d"
    have "t\<lparr>tp_input_buffer := mac @ rest\<rparr> = t\<lparr>tp_input_buffer := mac @ rest, tp_first_block := [], tp_remote_cipher := d\<rparr>"
      using t(2,3) by (cases t) simp
    then show "\<exists>t1 d'. R c d' \<and> packet_length cr (ua_encryption a) t = Some (Some n, t1) \<and>
         packet_take cr (ua_encryption a) (length mac) n t1 =
           Some (Some (Some packet), t\<lparr>tp_input_buffer := mac @ rest, tp_first_block := [], tp_remote_cipher := d'\<rparr>)"
      using plain_packet_taken [OF t(1) packet(1,2)] r None by metis
  qed (simp_all add: seal_def None)
next
  case (Some e)
  have law: "cipher_law cr R e" and ctr: "alg_name e = ascii ''aes128-ctr'' \<longrightarrow> bs = 16"
    using a bs Some by (auto simp: openssl_ok_def algorithms_ok_def transport_block_size_def)
  have bs': "bs = transport_block_size (Some e)" using bs Some by simp
  have ne: "packet \<noteq> []" by (simp add: packet(1))
  obtain ys c' where ys: "encryption_cipher cr e c packet = Some (Some (ys, c'))" "length ys = length packet"
    and one: "\<exists>d'. encryption_cipher cr e d ys = Some (Some (packet, d')) \<and> R c' d'"
    and two: "bs < length packet \<longrightarrow> (\<exists>d1 d'. encryption_cipher cr e d (take bs ys) = Some (Some (take bs packet, d1)) \<and>
       encryption_cipher cr e d1 (drop bs ys) = Some (Some (drop bs packet, d')) \<and> R c' d')"
    by (rule encrypted_packet [OF law r bs' ctr packet(3) ne])
  show thesis
  proof (rule that [OF _ ys(2)])
    show "seal cr (ua_encryption a) c packet = Some (Some (ys, c'))" using ys(1) by (simp add: seal_def Some)
    fix t :: "'a ssh_transport" and mac rest
    assume t: "tp_input_buffer t = ys @ mac @ rest" "tp_first_block t = []" "tp_remote_cipher t = d"
    have "length packet = bs \<or> bs < length packet" using packet(3) ne by (metis dvd_imp_le le_eq_less_or_eq length_greater_0_conv)
    then show "\<exists>t1 d'. R c' d' \<and> packet_length cr (ua_encryption a) t = Some (Some n, t1) \<and>
         packet_take cr (ua_encryption a) (length mac) n t1 =
           Some (Some (Some packet), t\<lparr>tp_input_buffer := mac @ rest, tp_first_block := [], tp_remote_cipher := d'\<rparr>)"
    proof
      assume len: "length packet = bs"
      then obtain d' where d: "encryption_cipher cr e d ys = Some (Some (packet, d'))" "R c' d'" using one by blast
      show ?thesis
        using one_block_taken [OF t(1) packet(1,2) t(2) _ ys(2) d(1) [folded t(3)]] len bs' d(2) Some by metis
    next
      assume len: "bs < length packet"
      then obtain d1 d' where d: "encryption_cipher cr e d (take bs ys) = Some (Some (take bs packet, d1))"
        "encryption_cipher cr e d1 (drop bs ys) = Some (Some (drop bs packet, d'))" "R c' d'" using two by blast
      show ?thesis
        using blocks_taken [OF t(1) packet(1,2) t(2) bs' len ys(2) d(1) [folded t(3)] d(2)] d(3) Some by metis
    qed
  qed
qed

lemma packet_verified:
  assumes "tp_input_buffer t = mac @ rest" "length mac = mac_length m" "case m of None \<Rightarrow> True | Some m \<Rightarrow> 0 < alg_mac_size m"
    "seal_mac cr m (tp_remote_mac t) (ss_remote_sequence_number (tp_session t)) packet = Some (Some mac)"
  shows "packet_verify cr m packet t = Some (True, t\<lparr>tp_input_buffer := rest\<rparr>)"
proof (cases m)
  case None
  then have "tp_input_buffer t = rest" using assms by (simp add: mac_length_def)
  then have "t = t\<lparr>tp_input_buffer := rest\<rparr>" by (cases t) simp
  then show ?thesis using None by (simp add: packet_verify_def)
next
  case (Some a)
  then show ?thesis using assms by (simp add: packet_verify_def seal_mac_def mac_length_def buf_moveout_buffer_def)
qed

text \<open>With a cipher there is a MAC after the packet, so there is always more than the first block to wait for.\<close>

lemma packet_exceeds_block:
  assumes a: "algorithms_ok a" and bs: "bs = transport_block_size (ua_encryption a)"
  shows "bs < length (ssh_packet bs payload) + mac_length (ua_mac a)"
proof (cases "ua_encryption a")
  case None
  then have "bs = 8" by (simp add: bs transport_block_size_def)
  then show ?thesis using ssh_padding_bounds(1) [of bs payload] by (simp add: ssh_packet_length)
next
  case (Some e)
  then have "0 < mac_length (ua_mac a)" using a by (auto simp: algorithms_ok_def mac_length_def)
  moreover have "bs \<le> length (ssh_packet bs payload)"
    using ssh_packet_blocks transport_block_size_bounds(1) [OF a] bs by (metis dvd_imp_le ssh_packet_length zero_less_numeral add_pos_nonneg le0 add.assoc)
  ultimately show ?thesis by simp
qed

lemma receive_packet_ok:
  assumes a: "algorithms_ok a" "a = ssh_remote_to_local (tp_session t)" and bs: "bs = transport_block_size (ua_encryption a)"
    and payload: "payload \<noteq> []" and inp: "bs < length (tp_input_buffer t)" and n: "n \<noteq> 0"
    and len: "packet_length cr (ua_encryption a) t = Some (Some n, t1)"
    and take: "packet_take cr (ua_encryption a) (mac_length (ua_mac a)) n t1 = Some (Some (Some (ssh_packet bs payload)), t2)"
    and ver: "packet_verify cr (ua_mac a) (ssh_packet bs payload) t2 = Some (True, t3)"
  shows "receive_packet cr t = Some (Received payload,
    t3\<lparr>tp_session := (tp_session t3)\<lparr>ss_remote_sequence_number := ss_remote_sequence_number (tp_session t3) + 1\<rparr>\<rparr>)"
proof -
  note b = transport_block_size_bounds [OF a(1), folded bs]
  show ?thesis
    using inp n len take ver ssh_packet_payload [OF b payload]
    unfolding receive_packet_def a(2) [symmetric] Let_def bs [symmetric] mac_length_def [symmetric] by simp
qed

lemma algorithms_sequence_number [simp]:
  "ssh_local_to_remote (s\<lparr>ss_local_sequence_number := n\<rparr>) = ssh_local_to_remote s"
  "ssh_remote_to_local (s\<lparr>ss_remote_sequence_number := n\<rparr>) = ssh_remote_to_local s"
  by (simp_all add: ssh_local_to_remote_def ssh_remote_to_local_def ssh_deref_def Let_def split: ssh_struct.split ssh_direction.split)

lemma send_receive:
  assumes a: "algorithms_ok a" "openssl_ok cr R a" "a = ssh_local_to_remote (tp_session st)"
    and link: "transports_linked R st rt" and payload: "payload \<noteq> []" "length payload < 2 ^ 31"
  obtains st' wire where "transport_send cr payload st = Some st'" "undelivered (tp_pipe st') = undelivered (tp_pipe st) @ wire"
    "ssh_local_to_remote (tp_session st') = a"
    "\<And>rest. \<exists>rt'. receive_packet cr (rt\<lparr>tp_input_buffer := wire @ rest\<rparr>) = Some (Received payload, rt') \<and>
       tp_input_buffer rt' = rest \<and> transports_linked R st' rt'"
proof -
  define bs where "bs = transport_block_size (ua_encryption a)"
  note b = transport_block_size_bounds [OF a(1), folded bs_def]
  let ?p = "ssh_packet bs payload" and ?s = "tp_session st"
  obtain n q where n: "?p = be32 n @ q" "length ?p = 4 + unat n" "n \<noteq> 0" by (rule ssh_packet_header [OF b payload(2)])
  have lk: "tp_state st = GetPacket" "pipe_wf (tp_pipe st)" "\<not> pp_error (tp_pipe st)" "\<not> pp_output_eos (tp_pipe st)"
    "ssh_remote_to_local (tp_session rt) = a" "ss_remote_sequence_number (tp_session rt) = ss_local_sequence_number ?s"
    "R (tp_local_cipher st) (tp_remote_cipher rt)" "tp_remote_mac rt = tp_local_mac st" "tp_first_block rt = []"
    using link by (simp_all add: transports_linked_def a(3))
  obtain mac where mac: "seal_mac cr (ua_mac a) (tp_local_mac st) (ss_local_sequence_number ?s) ?p = Some (Some mac)"
    "length mac = mac_length (ua_mac a)" by (rule seal_mac_ok [OF a(1,2)])
  obtain ys c' where ys: "seal cr (ua_encryption a) (tp_local_cipher st) ?p = Some (Some (ys, c'))" "length ys = length ?p"
    and taken: "\<And>t mac rest. tp_input_buffer t = ys @ mac @ rest \<Longrightarrow> tp_first_block t = [] \<Longrightarrow> tp_remote_cipher t = tp_remote_cipher rt \<Longrightarrow>
       \<exists>t1 d'. R c' d' \<and> packet_length cr (ua_encryption a) t = Some (Some n, t1) \<and>
         packet_take cr (ua_encryption a) (length mac) n t1 =
           Some (Some (Some ?p), t\<lparr>tp_input_buffer := mac @ rest, tp_first_block := [], tp_remote_cipher := d'\<rparr>)"
    using sealed_packet_taken [OF a(1,2) bs_def n(1,2) ssh_packet_blocks [OF b(1)] lk(7)] by metis
  obtain p where p: "produce (ys @ mac) (tp_pipe st) = Some p" "pipe_wf p" "\<not> pp_error p" "pp_output_eos p \<longleftrightarrow> ys @ mac = []"
    "undelivered p = undelivered (tp_pipe st) @ ys @ mac" by (rule produce_ok [OF lk(2-4)])
  let ?st = "st\<lparr>tp_session := ?s\<lparr>ss_local_sequence_number := ss_local_sequence_number ?s + 1\<rparr>, tp_local_cipher := c', tp_pipe := p\<rparr>"
  have ne: "ys @ mac \<noteq> []" using ys(2) n(2) by auto
  show thesis
  proof (rule that [of ?st "ys @ mac"])
    show "transport_send cr payload st = Some ?st"
      using transport_send_eq [OF lk(1) bs_def [unfolded a(3)] b payload(2) mac(1) [unfolded a(3)] ys(1) [unfolded a(3)]] p(1) by simp
    fix rest
    let ?rt = "rt\<lparr>tp_input_buffer := (ys @ mac) @ rest\<rparr>"
    obtain t1 d' where t1: "R c' d'" "packet_length cr (ua_encryption a) ?rt = Some (Some n, t1)"
      "packet_take cr (ua_encryption a) (length mac) n t1 =
         Some (Some (Some ?p), ?rt\<lparr>tp_input_buffer := mac @ rest, tp_first_block := [], tp_remote_cipher := d'\<rparr>)"
      using taken [of ?rt mac rest] lk(9) by auto
    let ?t2 = "?rt\<lparr>tp_input_buffer := mac @ rest, tp_first_block := [], tp_remote_cipher := d'\<rparr>"
    have ver: "packet_verify cr (ua_mac a) ?p ?t2 = Some (True, ?t2\<lparr>tp_input_buffer := rest\<rparr>)"
      by (rule packet_verified [OF _ mac(2)]) (use a(1) mac(1) lk(6,8) in \<open>auto simp: algorithms_ok_def split: option.splits\<close>)
    have "bs < length (tp_input_buffer ?rt)" using packet_exceeds_block [OF a(1) bs_def, of payload] ys(2) mac(2) by simp
    then have "receive_packet cr ?rt = Some (Received payload, ?t2\<lparr>tp_input_buffer := rest,
        tp_session := (tp_session rt)\<lparr>ss_remote_sequence_number := ss_remote_sequence_number (tp_session rt) + 1\<rparr>\<rparr>)"
      using receive_packet_ok [OF a(1) _ bs_def payload(1) _ n(3) t1(2) t1(3) [unfolded mac(2)] ver] lk(5) by simp
    then show "\<exists>rt'. receive_packet cr ?rt = Some (Received payload, rt') \<and> tp_input_buffer rt' = rest \<and> transports_linked R ?st rt'"
      using lk t1(1) p(2-3) p(4) [unfolded eq_False [THEN iffD2, OF ne]] a(3) by (simp add: transports_linked_def)
  qed (use p(5) a(3) in simp_all)
qed

text \<open>A length of less than one block in the first block fails an assertion, and so does one that is not a whole number of blocks with
  AES128 in CTR mode; the MAC has not been checked by then.\<close>

lemma malformed_length_stops:
  assumes "tp_first_block t \<noteq> []" "length (tp_first_block t) = transport_block_size (Some e)"
    "4 + unat n + mac_size \<le> transport_block_size (Some e) + length (tp_input_buffer t)"
    "4 + unat n < transport_block_size (Some e) \<or>
     alg_name e = ascii ''aes128-ctr'' \<and> transport_block_size (Some e) < 4 + unat n \<and> (4 + unat n - transport_block_size (Some e)) mod 16 \<noteq> 0"
  shows "packet_take cr (Some e) mac_size n t = None"
  using assms(4)
proof
  assume "4 + unat n < transport_block_size (Some e)"
  then show ?thesis using assms(1-3) by (simp add: packet_take_def Let_def)
next
  assume a: "alg_name e = ascii ''aes128-ctr'' \<and> transport_block_size (Some e) < 4 + unat n \<and> (4 + unat n - transport_block_size (Some e)) mod 16 \<noteq> 0"
  let ?k = "4 + unat n - transport_block_size (Some e)"
  have "?k \<le> length (tp_input_buffer t)" using assms(3) by linarith
  then have "encryption_cipher cr e c (take ?k (tp_input_buffer t)) = None" for c
    using a by (simp add: encryption_cipher_def session_aes128ctr_cipher_def min_def)
  then show ?thesis using a assms(1,3) by (simp add: packet_take_def Let_def buf_moveout_buffer_def Option.bind_eq_None_conv)
qed

section \<open>Sequences of packets\<close>

primrec send_packets :: "'c openssl \<Rightarrow> bytes list \<Rightarrow> 'c ssh_transport \<Rightarrow> 'c ssh_transport option" where
  "send_packets cr [] t = Some t"
| "send_packets cr (p # ps) t = do { t \<leftarrow> transport_send cr p t; send_packets cr ps t }"

text \<open>At most \<open>n\<close> packets are taken out of the input; a packet that is not complete ends it.\<close>

primrec receive_packets :: "'c openssl \<Rightarrow> nat \<Rightarrow> 'c ssh_transport \<Rightarrow> (bytes list \<times> 'c ssh_transport) option" where
  "receive_packets cr 0 t = Some ([], t)"
| "receive_packets cr (Suc n) t = do {
     (r, t) \<leftarrow> receive_packet cr t;
     (case r of
        Received p \<Rightarrow> do { (ps, t) \<leftarrow> receive_packets cr n t; Some (p # ps, t) }
      | _ \<Rightarrow> Some ([], t)) }"

lemma receive_packets_empty: "tp_input_buffer t = [] \<Longrightarrow> receive_packets cr n t = Some ([], t)"
  by (cases n) (simp_all add: receive_packet_def Let_def)

lemma send_receive_packets:
  assumes "algorithms_ok a" "openssl_ok cr R a" "a = ssh_local_to_remote (tp_session st)" "transports_linked R st rt"
    "\<forall>p \<in> set ps. p \<noteq> [] \<and> length p < 2 ^ 31" "length ps \<le> n"
  shows "\<exists>st' wire. send_packets cr ps st = Some st' \<and> undelivered (tp_pipe st') = undelivered (tp_pipe st) @ wire \<and>
    (\<exists>rt'. receive_packets cr n (rt\<lparr>tp_input_buffer := wire\<rparr>) = Some (ps, rt') \<and> tp_input_buffer rt' = [] \<and> transports_linked R st' rt')"
  using assms(3-)
proof (induction ps arbitrary: st rt n)
  case Nil
  have "transports_linked R st (rt\<lparr>tp_input_buffer := []\<rparr>)" using Nil.prems(2) by (simp add: transports_linked_def)
  then show ?case by (simp add: receive_packets_empty)
next
  case (Cons p ps)
  then obtain m where n: "n = Suc m" "length ps \<le> m" by (metis Suc_le_D Suc_le_mono length_Cons)
  have ps: "p \<noteq> []" "length p < 2 ^ 31" "\<forall>p \<in> set ps. p \<noteq> [] \<and> length p < 2 ^ 31" using Cons.prems(3) by auto
  obtain st1 wire1 where st1: "transport_send cr p st = Some st1" "undelivered (tp_pipe st1) = undelivered (tp_pipe st) @ wire1"
    "ssh_local_to_remote (tp_session st1) = a"
    and received: "\<And>rest. \<exists>rt'. receive_packet cr (rt\<lparr>tp_input_buffer := wire1 @ rest\<rparr>) = Some (Received p, rt') \<and>
       tp_input_buffer rt' = rest \<and> transports_linked R st1 rt'"
    using send_receive [OF assms(1,2) Cons.prems(1,2) ps(1,2)] by metis
  obtain rt1 where "transports_linked R st1 rt1" using received by blast
  then obtain st' wire2 where st': "send_packets cr ps st1 = Some st'" "undelivered (tp_pipe st') = undelivered (tp_pipe st1) @ wire2"
    using Cons.IH [OF st1(3) [symmetric] _ ps(3) n(2)] by blast
  obtain rt2 where rt2: "receive_packet cr (rt\<lparr>tp_input_buffer := wire1 @ wire2\<rparr>) = Some (Received p, rt2)"
    "tp_input_buffer rt2 = wire2" "transports_linked R st1 rt2" using received by blast
  have "rt2\<lparr>tp_input_buffer := wire2\<rparr> = rt2" using rt2(2) by (cases rt2) simp
  then obtain rt' where "receive_packets cr m rt2 = Some (ps, rt')" "tp_input_buffer rt' = []" "transports_linked R st' rt'"
    using Cons.IH [OF st1(3) [symmetric] rt2(3) ps(3) n(2)] st' by (metis option.inject same_append_eq)
  then show ?case using st1 st' rt2(1) n(1) by (intro exI [of _ st'] exI [of _ "wire1 @ wire2"]) simp
qed

text \<open>C40: the packets one end sends, with or without a cipher and a MAC, are the packets the other end takes out of its input once it
  holds the bytes sent, all of them, unchanged and in order, and nothing is left over; afterwards both ends agree on the sequence number
  and on the state of the cipher again.\<close>

theorem ssh_packets_round_trip:
  assumes "algorithms_ok (ssh_local_to_remote (tp_session st))" "openssl_ok cr R (ssh_local_to_remote (tp_session st))"
    "transports_linked R st rt" "\<forall>p \<in> set ps. p \<noteq> [] \<and> length p < 2 ^ 31" "length ps \<le> n"
  shows "\<exists>st' wire. send_packets cr ps st = Some st' \<and> undelivered (tp_pipe st') = undelivered (tp_pipe st) @ wire \<and>
    (\<exists>rt'. receive_packets cr n (rt\<lparr>tp_input_buffer := wire\<rparr>) = Some (ps, rt') \<and> tp_input_buffer rt' = [] \<and> transports_linked R st' rt')"
  using assms by (rule send_receive_packets [OF _ _ refl])

text \<open>A stream of bytes added to the data stands for the cipher, and the sum of the bytes for the MAC.\<close>

fun xor_stream :: "nat \<Rightarrow> bytes \<Rightarrow> bytes" where
  "xor_stream c [] = []"
| "xor_stream c (x # xs) = (x XOR of_nat c) # xor_stream (Suc c) xs"

definition xor_openssl :: "nat openssl" where
  "xor_openssl = \<lparr>EVP_Cipher = (\<lambda>e c xs. Some (xor_stream c xs, c + length xs)),
     AES_ctr128_encrypt = (\<lambda>c xs. (xor_stream c xs, c + length xs)),
     HMAC = (\<lambda>m k xs. Some (replicate (alg_key_size m) (sum_list xs)))\<rparr>"

lemma xor_stream_length [simp]: "length (xor_stream c xs) = length xs"
  by (induction c xs rule: xor_stream.induct) simp_all

lemma xor_stream_twice [simp]: "xor_stream c (xor_stream c xs) = xs"
  by (induction c xs rule: xor_stream.induct) (simp_all add: xor.assoc)

lemma xor_stream_take_drop:
  "take n (xor_stream c xs) = xor_stream c (take n xs)" "drop n (xor_stream c xs) = xor_stream (c + min n (length xs)) (drop n xs)"
  by (induction c xs arbitrary: n rule: xor_stream.induct; simp split: nat.split add: take_Cons drop_Cons)+

lemma xor_openssl_ok: "openssl_ok xor_openssl (=) a"
  by (auto simp: openssl_ok_def cipher_law_def hmac_law_def openssl_cipher_def xor_openssl_def xor_stream_take_drop min.commute
      split: option.split)

text \<open>A client and a server that have agreed on AES128 in CTR mode and HMAC-SHA1 for what the client sends.\<close>

definition aes128_sha1 :: ssh_unidirectional where
  "aes128_sha1 = ssh_unidirectional_new
     \<lparr>ua_encryption := Some \<lparr>alg_name = ascii ''aes128-ctr'', alg_block_size = 16, alg_iv_size = 16, alg_key_size = 16, alg_mac_size = 0\<rparr>,
      ua_mac := Some \<lparr>alg_name = ascii ''hmac-sha1'', alg_block_size = 0, alg_iv_size = 0, alg_key_size = 20, alg_mac_size = 20\<rparr>\<rparr>"

definition example_transport :: "ssh_role \<Rightarrow> nat ssh_transport" where
  "example_transport role =
     \<lparr>tp_pipe = pipe_producer_new,
      tp_session = (ssh_session_new role)\<lparr>ss_active := (ssh_algorithms_new ActiveAlgorithms role)\<lparr>sa_client_to_server := aes128_sha1\<rparr>\<rparr>,
      tp_state = GetPacket, tp_input_buffer = [], tp_first_block = [], tp_receive_callback = False, tp_receive_action = None,
      tp_ready = False, tp_ready_callback = False, tp_ready_action = False, tp_local_cipher = 7, tp_remote_cipher = 7,
      tp_local_mac = 3, tp_remote_mac = 3\<rparr>"

lemmas example_transport_defs = example_transport_def ssh_session_new_def ssh_algorithms_new_def aes128_sha1_def
  ssh_unidirectional_new_def ssh_local_to_remote_def ssh_remote_to_local_def ssh_deref_def

theorem ssh_packets_round_trip_witness:
  "\<exists>st' wire. send_packets xor_openssl [[1, 2, 3], replicate 40 9] (example_transport ClientRole) = Some st' \<and>
    undelivered (tp_pipe st') = wire \<and>
    (\<exists>rt'. receive_packets xor_openssl 5 ((example_transport ServerRole)\<lparr>tp_input_buffer := wire\<rparr>) =
       Some ([[1, 2, 3], replicate 40 9], rt') \<and> tp_input_buffer rt' = [] \<and> transports_linked (=) st' rt')"
proof -
  have "algorithms_ok (ssh_local_to_remote (tp_session (example_transport ClientRole)))"
    by (simp add: algorithms_ok_def example_transport_defs)
  moreover have "transports_linked (=) (example_transport ClientRole) (example_transport ServerRole)"
    by (simp add: transports_linked_def example_transport_defs pipe_producer_new_def pipe_wf_def)
  moreover have "undelivered (tp_pipe (example_transport ClientRole)) = []"
    by (simp add: example_transport_def pipe_producer_new_def undelivered_def)
  ultimately show ?thesis
    using ssh_packets_round_trip [of "example_transport ClientRole" xor_openssl "(=)" "example_transport ServerRole"
        "[[1, 2, 3], replicate 40 9]" 5] xor_openssl_ok by simp
qed

end
