(* ===== verification/HTTP_Server.thy ===== *)
theory HTTP_Server
  imports HTTP_Protocol Pipe_Producer
begin

text \<open>
  class HTTPServerPipe (http/http_server_pipe.h, http_server_pipe.cc): a pipe that takes the
  bytes of a client, parses them into a request line by line, calls back when the request
  is complete or malformed, and produces the response.  \<open>log\<close> is the name of its
  LogHandle, which the response shows as the server.
\<close>

section \<open>State\<close>

datatype http_status = OK | BadRequest | NotFound | NotImplemented | VersionNotSupported

datatype http_state = GetStart | GetHeaders | GotRequest | HTTPError

record http_server =
  hs_log :: bytes
  hs_pipe :: pipe_producer
  hs_state :: http_state
  hs_buffer :: bytes
  hs_request :: http_message
  hs_last_header :: bytes
  hs_action :: "(event \<times> http_message) option"
  hs_callback :: bool

definition http_server_new :: "bytes \<Rightarrow> http_server" where
  "http_server_new log = \<lparr>hs_log = log, hs_pipe = pipe_producer_new, hs_state = GetStart, hs_buffer = [],
     hs_request = http_message_new Request, hs_last_header = [], hs_action = None, hs_callback = False\<rparr>"

definition http_finished :: "http_server \<Rightarrow> bool" where
  "http_finished s \<longleftrightarrow> hs_state s = GotRequest \<or> hs_state s = HTTPError"

section \<open>The request callback\<close>

definition http_schedule_callback :: "http_server \<Rightarrow> (event \<times> http_message) option" where
  "http_schedule_callback s =
     (case hs_state s of
        GotRequest \<Rightarrow> Some (event_of Done, hs_request s)
      | HTTPError \<Rightarrow> Some (event_of Error, http_message_new Request)
      | _ \<Rightarrow> None)"

text \<open>Returns the Action scheduled at once, or \<open>None\<close> when the callback is kept.\<close>

definition http_request :: "http_server \<Rightarrow> ((event \<times> http_message) option \<times> http_server) option" where
  "http_request s = do {
     assert_that (hs_action s = None);
     assert_that (\<not> hs_callback s);
     (if http_finished s then do { a \<leftarrow> http_schedule_callback s; Some (Some a, s) }
      else Some (None, s\<lparr>hs_callback := True\<rparr>)) }"

definition http_cancel :: "http_server \<Rightarrow> http_server option" where
  "http_cancel s =
     (if hs_action s \<noteq> None then do { assert_that (\<not> hs_callback s); Some (s\<lparr>hs_action := None\<rparr>) }
      else do { assert_that (hs_callback s); Some (s\<lparr>hs_callback := False\<rparr>) })"

definition http_notify :: "http_server \<Rightarrow> http_server option" where
  "http_notify s = do {
     assert_that (hs_action s = None);
     (if hs_callback s then do {
        a \<leftarrow> http_schedule_callback s;
        Some (s\<lparr>hs_action := Some a, hs_callback := False\<rparr>) }
      else Some s) }"

section \<open>Responses\<close>

definition http_status_line :: "http_status \<Rightarrow> bytes" where
  "http_status_line status =
     (case status of
        OK \<Rightarrow> ascii ''200 OK''
      | BadRequest \<Rightarrow> ascii ''400 Bad Request''
      | NotFound \<Rightarrow> ascii ''404 Not Found''
      | NotImplemented \<Rightarrow> ascii ''501 Not Implemented''
      | VersionNotSupported \<Rightarrow> ascii ''505 Version Not Supported'')"

definition http_response :: "bytes \<Rightarrow> http_status \<Rightarrow> bytes \<Rightarrow> bytes option \<Rightarrow> bytes" where
  "http_response log status body headers =
     ascii ''HTTP/1.1 '' @ http_status_line status @ [13, 10] @
     ascii ''Server: '' @ log @ [13, 10] @
     ascii ''Transfer-encoding: identity'' @ [13, 10] @
     ascii ''Connection: close'' @ [13, 10] @
     (case headers of Some h \<Rightarrow> h | None \<Rightarrow> []) @ [13, 10] @ body"

text \<open>A response before the request is complete ends the parsing.\<close>

definition http_abort :: "http_status \<Rightarrow> http_server \<Rightarrow> http_server option" where
  "http_abort status s = do {
     s \<leftarrow> (if hs_buffer s \<noteq> [] then Some (s\<lparr>hs_buffer := []\<rparr>)
           else do { assert_that (status = BadRequest); Some s });
     http_notify (s\<lparr>hs_state := HTTPError\<rparr>) }"

definition http_send_response :: "http_status \<Rightarrow> bytes \<Rightarrow> bytes option \<Rightarrow> http_server \<Rightarrow> http_server option" where
  "http_send_response status body headers s = do {
     s \<leftarrow> (if http_finished s then do { assert_that (hs_buffer s = []); Some s } else http_abort status s);
     p \<leftarrow> produce_eos (Some (http_response (hs_log s) status body headers)) (hs_pipe s);
     Some (s\<lparr>hs_pipe := p\<rparr>) }"

definition http_send_text :: "http_status \<Rightarrow> bytes \<Rightarrow> bytes \<Rightarrow> http_server \<Rightarrow> http_server option" where
  "http_send_text status body content_type s =
     http_send_response status body (Some (ascii ''Content-type: '' @ content_type @ [13, 10])) s"

section \<open>Input\<close>

text \<open>\<open>bad_request\<close> is \<^verbatim>\<open>send_response(BadRequest, text); return\<close>; the first component of a result says
  whether the loop over the lines goes on.\<close>

definition bad_request :: "string \<Rightarrow> http_server \<Rightarrow> (bool \<times> http_server) option" where
  "bad_request msg s = do { s \<leftarrow> http_send_text BadRequest (ascii msg) (ascii ''text/plain'') s; Some (False, s) }"

definition http_got_request :: "http_server \<Rightarrow> (bool \<times> http_server) option" where
  "http_got_request s = do { s \<leftarrow> http_notify (s\<lparr>hs_state := GotRequest\<rparr>); Some (False, s) }"

definition http_start_line :: "bytes \<Rightarrow> http_server \<Rightarrow> (bool \<times> http_server) option" where
  "http_start_line line s = do {
     assert_that (hm_start_line (hs_request s) = []);
     (if line = [] then bad_request ''Empty start line.'' s
      else do {
        let s = s\<lparr>hs_request := (hs_request s)\<lparr>hm_start_line := line\<rparr>\<rparr>;
        let words = buf_split 0x20 False line;
        (if words = [] then bad_request ''Empty start line.'' s
         else if length words = 3 then Some (True, s\<lparr>hs_state := GetHeaders\<rparr>)
         else if length words \<noteq> 2 then bad_request ''Too many request parameters.'' s
         else if hs_buffer s \<noteq> [] then bad_request ''Garbage after HTTP/0.9-style request.'' s
         else http_got_request s) }) }"

definition http_set_headers :: "bytes \<Rightarrow> http_headers \<Rightarrow> http_server \<Rightarrow> http_server" where
  "http_set_headers lst h s = s\<lparr>hs_request := (hs_request s)\<lparr>hm_headers := h\<rparr>, hs_last_header := lst\<rparr>"

definition http_header_line :: "bytes \<Rightarrow> http_server \<Rightarrow> (bool \<times> http_server) option" where
  "http_header_line line s = do {
     assert_that (hs_state s = GetHeaders);
     assert_that (hm_start_line (hs_request s) \<noteq> []);
     (if line = [] then
        (if hs_buffer s \<noteq> [] then bad_request ''Garbage after message.'' s else http_got_request s)
      else do {
        c \<leftarrow> buf_peek line;
        (if c = 0x20 then
           (if hs_last_header s = [] then bad_request ''Folded header sent before any others.'' s
            else do {
              h \<leftarrow> header_fold (hs_last_header s) line (hm_headers (hs_request s));
              Some (True, http_set_headers (hs_last_header s) h s) })
         else case buf_find 0x3a 0 line of
           None \<Rightarrow> bad_request ''Empty header name.'' s
         | Some pos \<Rightarrow> do {
             (key, value) \<leftarrow> header_split pos line;
             Some (True, http_set_headers key (header_push key value (hm_headers (hs_request s))) s) }) }) }"

definition http_line :: "bytes \<Rightarrow> http_server \<Rightarrow> (bool \<times> http_server) option" where
  "http_line line s = (if hs_state s = GetStart then http_start_line line s else http_header_line line s)"

lemma http_line_goes_on: "http_line line s = Some (True, s') \<Longrightarrow> hs_buffer s' = hs_buffer s"
  by (auto simp: http_line_def http_start_line_def http_header_line_def http_set_headers_def bad_request_def
      http_got_request_def bind_eq_Some_conv Let_def split: if_splits option.splits)

function http_loop :: "http_server \<Rightarrow> http_server option" where
  "http_loop s =
     (if hs_buffer s = [] then None
      else case extract_line [] (hs_buffer s) None of
        None \<Rightarrow> None
      | Some (status, line, buf, _) \<Rightarrow>
          (case status of
             ParseIncomplete \<Rightarrow> Some (s\<lparr>hs_buffer := buf\<rparr>)
           | ParseFailure \<Rightarrow> map_option snd (bad_request ''Could not parse input line.'' (s\<lparr>hs_buffer := buf\<rparr>))
           | ParseSuccess \<Rightarrow>
               (case http_line line (s\<lparr>hs_buffer := buf\<rparr>) of
                  None \<Rightarrow> None
                | Some (go, s') \<Rightarrow> (if go \<and> hs_buffer s' \<noteq> [] then http_loop s' else Some s'))))"
  by pat_completeness auto
termination
  by (relation "measure (length \<circ> hs_buffer)") (auto dest!: http_line_goes_on extract_line_shorter)

declare http_loop.simps [simp del]

definition http_consume :: "bytes \<Rightarrow> http_server \<Rightarrow> (bytes \<times> http_server) option" where
  "http_consume inp s =
     (if http_finished s then do {
        assert_that (hs_buffer s = []);
        (if inp = [] then Some (inp, s)
         else if hs_state s = GotRequest then Some ([], s\<lparr>hs_state := HTTPError\<rparr>)
         else Some ([], s)) }
      else if inp = [] then do {
        (_, s) \<leftarrow> bad_request ''Premature end of request.'' s;
        Some (inp, s) }
      else do {
        s \<leftarrow> http_loop (s\<lparr>hs_buffer := hs_buffer s @ inp\<rparr>);
        Some ([], s) })"

text \<open>A client's bytes as they arrive; an empty piece is the end of the stream.\<close>

fun http_feed :: "bytes list \<Rightarrow> http_server \<Rightarrow> http_server option" where
  "http_feed [] s = Some s"
| "http_feed (inp # inps) s = do { (_, s) \<leftarrow> pipe_input hs_pipe http_consume inp s; http_feed inps s }"

section \<open>A request in pieces\<close>

definition read_header :: "bytes \<times> bytes \<Rightarrow> http_server \<Rightarrow> http_server" where
  "read_header h s = http_set_headers (fst h) (header_push (fst h) (snd h) (hm_headers (hs_request s))) s"

abbreviation read_headers :: "(bytes \<times> bytes) list \<Rightarrow> http_server \<Rightarrow> http_server" where
  "read_headers hs s \<equiv> fold read_header hs s"

lemma read_header_fields [simp]:
  "hs_state (read_header h s) = hs_state s" "hs_action (read_header h s) = hs_action s"
  "hs_callback (read_header h s) = hs_callback s" "hs_pipe (read_header h s) = hs_pipe s"
  "hs_buffer (read_header h s) = hs_buffer s" "hm_start_line (hs_request (read_header h s)) = hm_start_line (hs_request s)"
  by (simp_all add: read_header_def http_set_headers_def)

lemma read_headers_fields [simp]:
  "hs_state (read_headers hs s) = hs_state s" "hs_action (read_headers hs s) = hs_action s"
  "hs_callback (read_headers hs s) = hs_callback s" "hs_pipe (read_headers hs s) = hs_pipe s"
  "hs_buffer (read_headers hs s) = hs_buffer s" "hm_start_line (hs_request (read_headers hs s)) = hm_start_line (hs_request s)"
  by (induction hs arbitrary: s) simp_all

lemma read_headers_buffer: "read_headers hs (s\<lparr>hs_buffer := b\<rparr>) = (read_headers hs s)\<lparr>hs_buffer := b\<rparr>"
proof (induction hs arbitrary: s)
  case (Cons h hs)
  have "read_header h (s\<lparr>hs_buffer := b\<rparr>) = (read_header h s)\<lparr>hs_buffer := b\<rparr>"
    by (simp add: read_header_def http_set_headers_def)
  then show ?case using Cons by simp
qed simp

lemma read_headers_request:
  "hs_request (read_headers hs s) =
    (hs_request s)\<lparr>hm_headers := fold (\<lambda>(k, v). header_push k v) hs (hm_headers (hs_request s))\<rparr>"
  by (induction hs arbitrary: s) (simp_all add: read_header_def http_set_headers_def split_beta)

lemma http_line_header:
  assumes "header_ok (k, v)" "hs_state s = GetHeaders" "hm_start_line (hs_request s) \<noteq> []"
  shows "http_line (k @ [0x3a, 0x20] @ v) s = Some (True, read_header (k, v) s)"
proof -
  have "hd (k @ [0x3a, 0x20] @ v) \<noteq> 0x20" using assms(1) by (simp add: header_ok_def)
  then show ?thesis using assms(2,3) header_split_line [OF assms(1)]
    by (simp add: http_line_def http_header_line_def buf_peek_def read_header_def)
qed

definition http_complete :: "http_server \<Rightarrow> http_server" where
  "http_complete s = (if hs_callback s
     then s\<lparr>hs_state := GotRequest, hs_buffer := [], hs_action := Some (event_of Done, hs_request s), hs_callback := False\<rparr>
     else s\<lparr>hs_state := GotRequest, hs_buffer := []\<rparr>)"

text \<open>All of the headers \<open>hs\<close> are read when nothing is missing; otherwise the first of them are, and the
  rest of the text is in the buffer and in what is missing.\<close>

definition headers_read :: "(bytes \<times> bytes) list \<Rightarrow> bytes \<Rightarrow> http_server \<Rightarrow> http_server \<Rightarrow> bool" where
  "headers_read hs c s s' \<longleftrightarrow>
     (if c = [] then s' = http_complete (read_headers hs s)
      else \<exists>hs1 hs2 b. hs = hs1 @ hs2 \<and> s' = (read_headers hs1 s)\<lparr>hs_buffer := b\<rparr> \<and> b @ c = header_lines hs2 @ [13, 10])"

lemma headers_read_waits:
  assumes "c \<noteq> []" "b @ c = header_lines hs2 @ [13, 10]"
  shows "headers_read (hs1 @ hs2) c s ((read_headers hs1 s)\<lparr>hs_buffer := b\<rparr>)"
  unfolding headers_read_def using assms by auto

lemma headers_read_Cons:
  assumes "headers_read hs c (read_header h (s\<lparr>hs_buffer := b\<rparr>)) s'"
  shows "headers_read (h # hs) c s s'"
proof -
  have swap: "read_headers xs (read_header h (s\<lparr>hs_buffer := b\<rparr>)) = (read_headers (h # xs) s)\<lparr>hs_buffer := b\<rparr>" for xs
    using read_headers_buffer [where hs = "h # xs" and s = s and b = b] by simp
  show ?thesis
  proof (cases "c = []")
    case True
    then show ?thesis using assms unfolding headers_read_def swap by (simp add: http_complete_def)
  next
    case False
    then obtain hs1 hs2 b' where "hs = hs1 @ hs2" "s' = (read_headers (h # hs1) s)\<lparr>hs_buffer := b'\<rparr>"
      "b' @ c = header_lines hs2 @ [13, 10]" using assms unfolding headers_read_def swap by auto
    then show ?thesis using headers_read_waits [OF False, of b' hs2 "h # hs1" s] by simp
  qed
qed

lemma http_loop_line:
  assumes "one_line l" "hs_buffer s @ c = l @ [13, 10] @ r" "hs_buffer s \<noteq> []"
  shows "(\<exists>b. hs_buffer s = l @ [13, 10] @ b \<and> b @ c = r \<and>
      http_loop s = (case http_line l (s\<lparr>hs_buffer := b\<rparr>) of None \<Rightarrow> None
        | Some (go, s') \<Rightarrow> if go \<and> hs_buffer s' \<noteq> [] then http_loop s' else Some s')) \<or>
    c \<noteq> [] \<and> http_loop s = Some s"
proof (cases "length (l @ [13, 10]) \<le> length (hs_buffer s)")
  case True
  let ?b = "drop (length (l @ [13, 10])) (hs_buffer s)"
  have "take (length (l @ [13, 10])) (hs_buffer s) = l @ [13, 10]"
    using True arg_cong [OF assms(2), of "take (length (l @ [13, 10]))"] by simp
  then have "hs_buffer s = (l @ [13, 10]) @ ?b" by (metis append_take_drop_id)
  then obtain b where b: "hs_buffer s = l @ [13, 10] @ b" by simp
  then have "b @ c = r" using assms(2) by simp
  moreover have "extract_line [] (hs_buffer s) None = Some (ParseSuccess, l, b, None)"
    using extract_line_eol [OF assms(1), of "[13, 10]" b] b by (simp add: eol_def)
  ultimately show ?thesis using b assms(3) by (subst http_loop.simps) simp
next
  case False
  then have "extract_line [] (hs_buffer s) None = Some (ParseIncomplete, [], hs_buffer s, None)"
    using extract_line_part [OF assms(1) _ assms(2)] by (simp add: eol_def)
  moreover have "c \<noteq> []" using False arg_cong [OF assms(2), of length] by auto
  ultimately show ?thesis using assms(3) by (auto simp: http_loop.simps [of s])
qed

lemma http_loop_part:
  assumes "hs_state s = GetHeaders" "hm_start_line (hs_request s) \<noteq> []" "hs_action s = None" "hs_buffer s \<noteq> []"
    and "\<forall>h\<in>set hs. header_ok h" "hs_buffer s @ c = header_lines hs @ [13, 10]"
  shows "\<exists>s'. http_loop s = Some s' \<and> headers_read hs c s s'"
  using assms
proof (induction hs arbitrary: s)
  case Nil
  have "hs_buffer s @ c = [] @ [13, 10] @ []" using Nil by (simp add: header_lines_def)
  from http_loop_line [OF _ this Nil.prems(4)] consider
      (all) "c = []" "http_loop s = (case http_line [] (s\<lparr>hs_buffer := []\<rparr>) of None \<Rightarrow> None
        | Some (go, s') \<Rightarrow> if go \<and> hs_buffer s' \<noteq> [] then http_loop s' else Some s')"
    | (part) "c \<noteq> []" "http_loop s = Some s" by (auto simp: one_line_def)
  then show ?case
  proof cases
    case all
    then show ?thesis using Nil by (auto simp: headers_read_def http_line_def http_header_line_def http_got_request_def
        http_notify_def http_schedule_callback_def http_complete_def)
  next
    case part
    then show ?thesis using headers_read_waits [of c "hs_buffer s" "[]" "[]" s] Nil by simp
  qed
next
  case (Cons h hs)
  obtain k v where h: "h = (k, v)" by (cases h)
  let ?l = "k @ [0x3a, 0x20] @ v" and ?r = "header_lines hs @ [13, 10]"
  have ok: "header_ok (k, v)" using Cons.prems(5) h by simp
  have l: "one_line ?l" using ok by (auto simp: header_ok_def one_line_def)
  have b: "hs_buffer s @ c = ?l @ [13, 10] @ ?r" using Cons.prems(6) h by (simp add: header_lines_def)
  from http_loop_line [OF l b Cons.prems(4)] consider
      (line) b where "b @ c = ?r" "http_loop s = (case http_line ?l (s\<lparr>hs_buffer := b\<rparr>) of None \<Rightarrow> None
        | Some (go, s') \<Rightarrow> if go \<and> hs_buffer s' \<noteq> [] then http_loop s' else Some s')"
    | (part) "c \<noteq> []" "http_loop s = Some s" by blast
  then show ?case
  proof cases
    case (line b)
    let ?s = "read_header h (s\<lparr>hs_buffer := b\<rparr>)"
    have "http_line ?l (s\<lparr>hs_buffer := b\<rparr>) = Some (True, ?s)"
      using http_line_header [OF ok, of "s\<lparr>hs_buffer := b\<rparr>"] Cons.prems(1,2) h by simp
    then have loop: "http_loop s = (if b \<noteq> [] then http_loop ?s else Some ?s)" using line(2) by simp
    show ?thesis
    proof (cases "b = []")
      case True
      then have "c \<noteq> []" "hs_buffer ?s @ c = ?r" using line(1) by auto
      then have "headers_read hs c ?s (?s\<lparr>hs_buffer := b\<rparr>)" using headers_read_waits [of c b hs "[]" ?s] by simp
      moreover have "?s\<lparr>hs_buffer := b\<rparr> = ?s" by (simp add: read_header_def http_set_headers_def)
      ultimately have "headers_read hs c ?s ?s" by metis
      then show ?thesis using loop True headers_read_Cons [where hs = hs and c = c and h = h and s = s and b = b and s' = ?s] by simp
    next
      case False
      then have "\<exists>s'. http_loop ?s = Some s' \<and> headers_read hs c ?s s'"
        using Cons.prems line(1) by (intro Cons.IH) auto
      then show ?thesis using loop False headers_read_Cons [where hs = hs and c = c and h = h and s = s and b = b] by auto
    qed
  next
    case part
    then show ?thesis using headers_read_waits [of c "hs_buffer s" "h # hs" "[]" s] Cons.prems(6) by simp
  qed
qed

lemma http_feed_Cons:
  assumes "\<not> http_finished s" "\<not> pp_error (hs_pipe s)" "c \<noteq> []"
  shows "http_feed (c # cs) s = Option.bind (http_loop (s\<lparr>hs_buffer := hs_buffer s @ c\<rparr>)) (http_feed cs)"
  using assms by (cases "http_loop (s\<lparr>hs_buffer := hs_buffer s @ c\<rparr>)") (auto simp: pipe_input_def http_consume_def Let_def)

lemma http_feed_headers:
  assumes "hs_state s = GetHeaders" "hm_start_line (hs_request s) \<noteq> []" "hs_action s = None" "\<not> pp_error (hs_pipe s)"
    and "\<forall>h\<in>set hs. header_ok h" "hs_buffer s @ concat cs = header_lines hs @ [13, 10]" "\<forall>c\<in>set cs. c \<noteq> []" "cs \<noteq> []"
  shows "http_feed cs s = Some (http_complete (read_headers hs s))"
  using assms
proof (induction cs arbitrary: s hs)
  case (Cons c cs)
  let ?s = "s\<lparr>hs_buffer := hs_buffer s @ c\<rparr>"
  have "\<exists>s'. http_loop ?s = Some s' \<and> headers_read hs (concat cs) ?s s'"
    using Cons.prems by (intro http_loop_part) auto
  then obtain s' where s': "http_loop ?s = Some s'" "headers_read hs (concat cs) ?s s'" by blast
  have swap: "read_headers xs ?s = (read_headers xs s)\<lparr>hs_buffer := hs_buffer s @ c\<rparr>" for xs
    by (rule read_headers_buffer)
  have feed: "http_feed (c # cs) s = http_feed cs s'"
    using http_feed_Cons [of s c cs] Cons.prems s'(1) by (simp only: http_finished_def) simp
  show ?case
  proof (cases "cs = []")
    case True
    then have "s' = http_complete (read_headers hs s)" using s'(2) unfolding headers_read_def swap by (simp add: http_complete_def)
    then show ?thesis unfolding feed using True by simp
  next
    case False
    then have "concat cs \<noteq> []" using Cons.prems(7) by (cases cs) auto
    then obtain hs1 hs2 b where b: "hs = hs1 @ hs2" "s' = (read_headers hs1 ?s)\<lparr>hs_buffer := b\<rparr>" "b @ concat cs = header_lines hs2 @ [13, 10]"
      using s'(2) unfolding headers_read_def by (simp only: if_False) blast
    have b2: "s' = (read_headers hs1 s)\<lparr>hs_buffer := b\<rparr>" using b(2) unfolding swap by simp
    have "http_feed cs s' = Some (http_complete (read_headers hs2 s'))"
      using Cons.prems b(1,3) b2 False by (intro Cons.IH) auto
    also have "read_headers hs2 s' = (read_headers hs s)\<lparr>hs_buffer := b\<rparr>"
      unfolding b2 read_headers_buffer by (simp add: b(1))
    finally show ?thesis unfolding feed by (simp add: http_complete_def)
  qed
qed simp

lemma http_feed_start:
  assumes "hs_state s = GetStart" "hm_start_line (hs_request s) = []" "hs_action s = None" "\<not> pp_error (hs_pipe s)"
    and "start_ok Request start" "\<forall>h\<in>set hs. header_ok h"
    and "hs_buffer s @ concat cs = message_text start hs []" "\<forall>c\<in>set cs. c \<noteq> []" "cs \<noteq> []"
  shows "http_feed cs s = Some (http_complete (read_headers hs (s\<lparr>hs_request := (hs_request s)\<lparr>hm_start_line := start\<rparr>,
    hs_state := GetHeaders\<rparr>)))"
  using assms
proof (induction cs arbitrary: s)
  case (Cons c cs)
  let ?s = "s\<lparr>hs_buffer := hs_buffer s @ c\<rparr>"
  let ?g = "s\<lparr>hs_request := (hs_request s)\<lparr>hm_start_line := start\<rparr>, hs_state := GetHeaders\<rparr>"
  have l: "one_line start" "start \<noteq> []" using assms(5) by (auto simp: start_ok_def)
  have parts: "hs_buffer ?s @ concat cs = start @ [13, 10] @ header_lines hs @ [13, 10]" "hs_buffer ?s \<noteq> []"
    using Cons.prems(7,8) by (auto simp: message_text_def)
  have feed: "http_feed (c # cs) s = Option.bind (http_loop ?s) (http_feed cs)"
    using Cons.prems by (intro http_feed_Cons) (auto simp: http_finished_def)
  from http_loop_line [OF l(1) parts] consider
      (line) b where "b @ concat cs = header_lines hs @ [13, 10]"
        "http_loop ?s = (case http_line start (?s\<lparr>hs_buffer := b\<rparr>) of None \<Rightarrow> None
          | Some (go, s') \<Rightarrow> if go \<and> hs_buffer s' \<noteq> [] then http_loop s' else Some s')"
    | (part) "concat cs \<noteq> []" "http_loop ?s = Some ?s" by blast
  then show ?case
  proof cases
    case (line b)
    have "http_line start (?s\<lparr>hs_buffer := b\<rparr>) = Some (True, ?g\<lparr>hs_buffer := b\<rparr>)"
      using Cons.prems(1,2,5) by (cases s) (auto simp: http_line_def http_start_line_def start_ok_def Let_def)
    then have loop: "http_loop ?s = (if b \<noteq> [] then http_loop (?g\<lparr>hs_buffer := b\<rparr>) else Some (?g\<lparr>hs_buffer := b\<rparr>))"
      using line(2) by simp
    have all: "http_feed xs (?g\<lparr>hs_buffer := []\<rparr>) = Some (http_complete (read_headers hs (?g\<lparr>hs_buffer := []\<rparr>)))"
      if "xs \<noteq> []" "\<forall>x\<in>set xs. x \<noteq> []" "concat xs = header_lines hs @ [13, 10]" for xs
      using Cons.prems l(2) that by (intro http_feed_headers) auto
    have whole: "http_feed (c # cs) s = Some (http_complete (read_headers hs (?g\<lparr>hs_buffer := []\<rparr>)))"
    proof (cases "b = []")
      case True
      then show ?thesis using all [of cs] line(1) loop Cons.prems(8) feed by (cases cs) auto
    next
      case False
      have "http_feed (b # cs) (?g\<lparr>hs_buffer := []\<rparr>) = Option.bind (http_loop (?g\<lparr>hs_buffer := b\<rparr>)) (http_feed cs)"
        using False Cons.prems(4) http_feed_Cons [of "?g\<lparr>hs_buffer := []\<rparr>" b cs] by (simp add: http_finished_def)
      then show ?thesis using all [of "b # cs"] line(1) loop Cons.prems(8) False feed by simp
    qed
    show ?thesis unfolding whole read_headers_buffer by (simp add: http_complete_def)
  next
    case part
    then have "http_feed cs ?s = Some (http_complete (read_headers hs (?s\<lparr>hs_request := (hs_request ?s)\<lparr>hm_start_line := start\<rparr>,
        hs_state := GetHeaders\<rparr>)))"
      using Cons.prems parts(1) by (intro Cons.IH) (auto simp: message_text_def)
    also have "?s\<lparr>hs_request := (hs_request ?s)\<lparr>hm_start_line := start\<rparr>, hs_state := GetHeaders\<rparr> = ?g\<lparr>hs_buffer := hs_buffer s @ c\<rparr>"
      by (cases s) simp
    finally show ?thesis unfolding feed part(2) read_headers_buffer by (simp add: http_complete_def)
  qed
qed simp

text \<open>C30: A well-formed HTTP/1 request is parsed the same in whatever pieces it arrives: no assertion
  fails, no response is produced, and when the last piece has been consumed the server has
  exactly the start line and the headers that were sent, the values of every name in their
  order, and has called back with the request if it was asked for it.\<close>

theorem http_request_in_pieces:
  assumes "start_ok Request start" "\<forall>h\<in>set hs. header_ok h"
    and "concat cs = message_text start hs []" "\<forall>c\<in>set cs. c \<noteq> []"
  shows "\<exists>s. http_feed cs ((http_server_new log)\<lparr>hs_callback := asked\<rparr>) = Some s \<and> hs_state s = GotRequest \<and>
    hs_pipe s = pipe_producer_new \<and> \<not> hs_callback s \<and>
    hs_request s = \<lparr>hm_type = Request, hm_start_line = start, hm_headers = fold (\<lambda>(k, v). header_push k v) hs Map.empty, hm_body = []\<rparr> \<and>
    hs_action s = (if asked then Some (event_of Done, hs_request s) else None)"
proof -
  let ?s = "(http_server_new log)\<lparr>hs_callback := asked\<rparr>"
  have "cs \<noteq> []" using assms(3) by (auto simp: message_text_def)
  then have "http_feed cs ?s = Some (http_complete (read_headers hs (?s\<lparr>hs_request := (hs_request ?s)\<lparr>hm_start_line := start\<rparr>,
      hs_state := GetHeaders\<rparr>)))"
    using assms by (intro http_feed_start) (auto simp: http_server_new_def http_message_new_def pipe_producer_new_def)
  then show ?thesis
    by (cases asked) (simp_all add: http_complete_def http_server_new_def http_message_new_def read_headers_request)
qed

theorem http_request_in_pieces_witness:
  "\<exists>s. http_feed (map (\<lambda>x. [x]) (message_text (ascii ''GET / HTTP/1.1'') [(ascii ''Host'', ascii ''a'')] []))
      ((http_server_new [])\<lparr>hs_callback := True\<rparr>) = Some s \<and> hs_state s = GotRequest \<and>
    hm_headers (hs_request s) = [ascii ''Host'' \<mapsto> [ascii ''a'']] \<and> hs_action s = Some (event_of Done, hs_request s)"
proof -
  let ?t = "message_text (ascii ''GET / HTTP/1.1'') [(ascii ''Host'', ascii ''a'')] []"
  have "length (buf_split 0x20 False (ascii ''GET / HTTP/1.1'')) = 3" by code_simp
  then have a: "start_ok Request (ascii ''GET / HTTP/1.1'')" by (simp add: start_ok_def one_line_def ascii_def)
  have b: "\<forall>h\<in>set [(ascii ''Host'', ascii ''a'')]. header_ok h" by (simp add: header_ok_def one_line_def ascii_def)
  have c: "concat (map (\<lambda>x. [x]) ?t) = ?t" "\<forall>c\<in>set (map (\<lambda>x. [x]) ?t). c \<noteq> []" by auto
  from http_request_in_pieces [OF a b c, of True "[]"] show ?thesis by (auto simp: header_push_def header_values_def)
qed

section \<open>A header without a name\<close>

text \<open>C31: A header line that begins with its colon fails the assertion of \<^verbatim>\<open>Buffer::moveout\<close> that there is
  something to move: the name of the header would be empty, and the check for a missing colon
  does not catch it.  Any client can stop the server this way.\<close>

theorem empty_header_name_stops:
  assumes "start_ok Request start" "one_line l"
  shows "http_feed [start @ [13, 10] @ 0x3a # l @ [13, 10] @ rest] (http_server_new log) = None"
proof -
  let ?c = "start @ [13, 10] @ 0x3a # l @ [13, 10] @ rest"
  let ?s = "(http_server_new log)\<lparr>hs_buffer := ?c\<rparr>" and ?b = "0x3a # l @ [13, 10] @ rest"
  let ?g = "(http_server_new log)\<lparr>hs_request := (hs_request (http_server_new log))\<lparr>hm_start_line := start\<rparr>,
    hs_state := GetHeaders, hs_buffer := ?b\<rparr>"
  have start: "start \<noteq> []" "one_line start" "length (buf_split 0x20 False start) = 3" using assms(1) by (auto simp: start_ok_def)
  have e: "extract_line [] ?c None = Some (ParseSuccess, start, ?b, None)"
    "extract_line [] ?b None = Some (ParseSuccess, 0x3a # l, rest, None)"
    using extract_line_eol [OF start(2), of "[13, 10]" ?b] extract_line_eol [of "0x3a # l" "[13, 10]" rest] assms(2)
    by (auto simp: eol_def one_line_def)
  have "http_line start (?s\<lparr>hs_buffer := ?b\<rparr>) = Some (True, ?g)"
    using start by (auto simp: http_line_def http_start_line_def http_server_new_def http_message_new_def Let_def)
  then have "http_loop ?s = http_loop ?g" using start(1) e(1) by (subst http_loop.simps) simp
  moreover have "http_line (0x3a # l) (?g\<lparr>hs_buffer := rest\<rparr>) = None"
    using start(1) buf_find_append_hit [of "0x3a" "[]" l]
    by (simp add: http_line_def http_header_line_def buf_peek_def header_split_def buf_moveout_buffer_def)
  then have "http_loop ?g = None" using e(2) by (subst http_loop.simps) simp
  ultimately show ?thesis
    using http_feed_Cons [of "http_server_new log" ?c "[]"] start(1)
    by (simp add: http_finished_def http_server_new_def pipe_producer_new_def)
qed

theorem empty_header_name_stops_witness:
  "http_feed [ascii ''GET / HTTP/1.1'' @ [13, 10] @ 0x3a # [13, 10]] (http_server_new []) = None"
proof -
  have "length (buf_split 0x20 False (ascii ''GET / HTTP/1.1'')) = 3" by code_simp
  then have "start_ok Request (ascii ''GET / HTTP/1.1'')" by (simp add: start_ok_def one_line_def ascii_def)
  from empty_header_name_stops [OF this, of "[]" "[]" "[]"] show ?thesis by (simp add: one_line_def)
qed

section \<open>Assertions\<close>

text \<open>While the request is being read, and once it has been read or refused.\<close>

definition http_open :: "bool \<Rightarrow> http_server \<Rightarrow> bool" where
  "http_open asked s \<longleftrightarrow> \<not> http_finished s \<and> pipe_wf (hs_pipe s) \<and> \<not> pp_error (hs_pipe s) \<and> \<not> pp_output_eos (hs_pipe s) \<and>
     hs_action s = None \<and> hs_callback s = asked"

definition http_reading :: "bool \<Rightarrow> http_server \<Rightarrow> bool" where
  "http_reading asked s \<longleftrightarrow> http_open asked s \<and> (hm_start_line (hs_request s) = [] \<longleftrightarrow> hs_state s = GetStart) \<and>
     (hs_last_header s \<noteq> [] \<longrightarrow> header_values (hm_headers (hs_request s)) (hs_last_header s) \<noteq> [])"

definition http_settled :: "bool \<Rightarrow> http_server \<Rightarrow> bool" where
  "http_settled asked s \<longleftrightarrow> http_finished s \<and> pipe_wf (hs_pipe s) \<and> \<not> pp_error (hs_pipe s) \<and> hs_buffer s = [] \<and>
     \<not> hs_callback s \<and> (hs_action s \<noteq> None \<longleftrightarrow> asked)"

lemma produce_eos_response:
  assumes "pipe_wf p" "\<not> pp_error p" "\<not> pp_output_eos p"
  shows "\<exists>p'. produce_eos (Some b) p = Some p' \<and> pipe_wf p' \<and> \<not> pp_error p'"
  using assms by (cases "pp_output_callback p"; cases "b = []") (simp_all add: produce_eos_def pipe_defs Let_def)

lemma bad_request_ok:
  assumes "http_open asked s"
  shows "\<exists>s'. bad_request msg s = Some (False, s') \<and> http_settled asked s'"
proof -
  let ?s = "s\<lparr>hs_buffer := [], hs_state := HTTPError\<rparr>"
  let ?t = "if asked then ?s\<lparr>hs_action := Some (event_of Error, http_message_new Request), hs_callback := False\<rparr> else ?s"
  have "http_abort BadRequest s = Some ?t"
    using assms by (cases s) (auto simp: http_abort_def http_notify_def http_open_def http_schedule_callback_def)
  moreover have "hs_pipe ?t = hs_pipe s" by simp
  moreover obtain p where "produce_eos (Some (http_response (hs_log ?t) BadRequest (ascii msg)
      (Some (ascii ''Content-type: '' @ ascii ''text/plain'' @ [13, 10])))) (hs_pipe s) = Some p" "pipe_wf p" "\<not> pp_error p"
    using produce_eos_response [of "hs_pipe s"] assms unfolding http_open_def by blast
  ultimately show ?thesis using assms
    by (auto simp: bad_request_def http_send_text_def http_send_response_def http_open_def http_settled_def http_finished_def)
qed

lemma http_got_request_ok:
  assumes "http_open asked s" "hs_buffer s = []"
  shows "\<exists>s'. http_got_request s = Some (False, s') \<and> http_settled asked s'"
  using assms by (auto simp: http_got_request_def http_notify_def http_schedule_callback_def http_open_def http_settled_def http_finished_def)

text \<open>What handling a line leads to.\<close>

definition http_goes_on :: "bool \<Rightarrow> http_server \<Rightarrow> bool \<times> http_server \<Rightarrow> bool" where
  "http_goes_on asked s r \<longleftrightarrow> (case r of (go, s') \<Rightarrow>
     if go then http_reading asked s' \<and> hs_state s' = GetHeaders \<and> hs_buffer s' = hs_buffer s else http_settled asked s')"

lemma settled_goes_on:
  "\<exists>s'. f = Some (False, s') \<and> http_settled asked s' \<Longrightarrow> \<exists>r. f = Some r \<and> http_goes_on asked s r"
  by (auto simp: http_goes_on_def)

lemma http_start_line_ok:
  assumes "http_reading asked s" "hs_state s = GetStart"
  shows "\<exists>r. http_start_line l s = Some r \<and> http_goes_on asked s r"
proof -
  let ?s = "s\<lparr>hs_request := (hs_request s)\<lparr>hm_start_line := l\<rparr>\<rparr>"
  have start: "hm_start_line (hs_request s) = []" and op: "http_open asked s" "http_open asked ?s"
    using assms by (auto simp: http_reading_def http_open_def http_finished_def)
  have bad: "\<exists>r. bad_request msg s = Some r \<and> http_goes_on asked s r" "\<exists>r. bad_request msg ?s = Some r \<and> http_goes_on asked s r" for msg
    by (intro settled_goes_on bad_request_ok op)+
  have got: "\<exists>r. http_got_request ?s = Some r \<and> http_goes_on asked s r" if "hs_buffer s = []"
    using that by (intro settled_goes_on http_got_request_ok op) simp
  show ?thesis
  proof (cases "l = []")
    case True
    then show ?thesis using start bad(1) by (simp add: http_start_line_def)
  next
    case False
    have on: "http_goes_on asked s (True, ?s\<lparr>hs_state := GetHeaders\<rparr>)"
      using False assms by (auto simp: http_goes_on_def http_reading_def http_open_def http_finished_def)
    show ?thesis
      by (cases "hs_buffer s = []"; cases "length (buf_split 0x20 False l) = 3"; cases "length (buf_split 0x20 False l) = 2")
        (use False start bad got on in \<open>auto simp: http_start_line_def Let_def\<close>)
  qed
qed

lemma http_header_line_ok:
  assumes "http_reading asked s" "hs_state s = GetHeaders" "l = [] \<or> hd l \<noteq> 0x3a"
  shows "\<exists>r. http_header_line l s = Some r \<and> http_goes_on asked s r"
proof -
  have op: "http_open asked s" and start: "hm_start_line (hs_request s) \<noteq> []" using assms(1,2) by (auto simp: http_reading_def)
  have bad: "\<exists>r. bad_request msg s = Some r \<and> http_goes_on asked s r" for msg
    by (intro settled_goes_on bad_request_ok op)
  have on: "http_goes_on asked s (True, http_set_headers k h s)" if "k \<noteq> [] \<Longrightarrow> header_values h k \<noteq> []" for k h
    using assms that by (auto simp: http_goes_on_def http_reading_def http_open_def http_finished_def http_set_headers_def)
  consider (empty) "l = []" | (fold) "l \<noteq> []" "hd l = 0x20" | (header) "l \<noteq> []" "hd l \<noteq> 0x20" by blast
  then show ?thesis
  proof cases
    case empty
    have "\<exists>r. http_got_request s = Some r \<and> http_goes_on asked s r" if "hs_buffer s = []"
      using that by (intro settled_goes_on http_got_request_ok op)
    then show ?thesis using empty assms(2) start bad by (simp add: http_header_line_def)
  next
    case fold
    let ?k = "hs_last_header s" and ?h = "hm_headers (hs_request s)"
    let ?v = "header_values ?h ?k"
    show ?thesis
    proof (cases "?k = []")
      case False
      then have "?v \<noteq> []" using assms(1) by (simp add: http_reading_def)
      then have "header_fold ?k l ?h = Some (?h(?k \<mapsto> butlast ?v @ [last ?v @ l]))" by (simp add: header_fold_def Let_def)
      then show ?thesis using fold False assms(2) start on [of ?k "?h(?k \<mapsto> butlast ?v @ [last ?v @ l])"]
        by (simp add: http_header_line_def buf_peek_def header_values_def)
    qed (use fold assms(2) start bad in \<open>simp add: http_header_line_def buf_peek_def\<close>)
  next
    case header
    show ?thesis
    proof (cases "buf_find 0x3a 0 l")
      case None
      then show ?thesis using header assms(2) start bad by (simp add: http_header_line_def buf_peek_def)
    next
      case (Some pos)
      have "pos \<noteq> 0" "pos < length l" using buf_find_SomeD [OF Some] assms(3) header by (auto simp: hd_conv_nth intro: ccontr)
      then obtain key val where "header_split pos l = Some (key, val)" by (simp add: header_split_def buf_simps)
      then show ?thesis using header Some assms(2) start on [of key "header_push key val (hm_headers (hs_request s))"]
        by (simp add: http_header_line_def buf_peek_def header_push_def header_values_def)
    qed
  qed
qed

lemma http_line_ok:
  assumes "http_reading asked s" "hs_state s = GetStart \<or> l = [] \<or> hd l \<noteq> 0x3a"
  shows "\<exists>r. http_line l s = Some r \<and> http_goes_on asked s r"
proof (cases "hs_state s = GetStart")
  case True
  then show ?thesis using http_start_line_ok [OF assms(1)] by (simp add: http_line_def)
next
  case False
  then have "hs_state s = GetHeaders" using assms(1) by (cases "hs_state s") (auto simp: http_reading_def http_open_def http_finished_def)
  then show ?thesis using http_header_line_ok [OF assms(1)] assms(2) by (simp add: http_line_def)
qed

text \<open>No line but the first begins with a colon.\<close>

definition names_present :: "bytes \<Rightarrow> bool" where
  "names_present t \<longleftrightarrow> (\<forall>pre post. t \<noteq> pre @ [10, 0x3a] @ post)"

lemma names_present_prefix: "names_present (t @ u) \<Longrightarrow> names_present t"
  unfolding names_present_def by (metis append.assoc)

text \<open>The buffer is the end of what has been received, and after the start line it begins a line.\<close>

definition http_at :: "bytes \<Rightarrow> http_server \<Rightarrow> bool" where
  "http_at got s \<longleftrightarrow> (\<exists>pre. got = pre @ hs_buffer s \<and> (hs_state s = GetStart \<or> pre \<noteq> [] \<and> last pre = 10))"

lemma extract_line_cases:
  "extract_line [] b None = Some (ParseIncomplete, [], b, None) \<or>
   (\<exists>l r. extract_line [] b None = Some (ParseFailure, l, r, None)) \<or>
   (\<exists>l e r. extract_line [] b None = Some (ParseSuccess, l, r, None) \<and> b = l @ e @ r \<and> eol e)"
proof (cases "first_index (\<lambda>x. x \<in> set [13, 10]) b")
  case None
  then have "one_line b" by (auto simp: first_index_None_iff one_line_def)
  then show ?thesis using extract_line_none(1) by simp
next
  case (Some i)
  let ?l = "take i b" and ?r = "drop (Suc i) b"
  have i: "i < length b" "b ! i = 13 \<or> b ! i = 10" "one_line ?l" using first_index_SomeD [OF Some] by (auto simp: one_line_def)
  have b: "b = ?l @ b ! i # ?r" using i(1) by (simp add: id_take_nth_drop)
  consider (lf) "b ! i = 10" | (cr) "b ! i = 13" "?r = []" | (crlf) x where "b ! i = 13" "?r = 10 # x" | (bad) y x where "b ! i = 13" "?r = y # x" "y \<noteq> 10"
    using i(2) by (cases ?r) auto
  then show ?thesis
  proof cases
    case lf
    then have e: "b = ?l @ [10] @ ?r" using b by simp
    then have "extract_line [] b None = Some (ParseSuccess, ?l, ?r, None)" using extract_line_eol [OF i(3), of "[10]" ?r] by (simp add: eol_def)
    then show ?thesis using e by (metis eol_def)
  next
    case cr
    then have "b = ?l @ [13]" using b by simp
    then show ?thesis using extract_line_none(2) [OF i(3)] by simp
  next
    case (crlf x)
    then have e: "b = ?l @ [13, 10] @ x" using b by simp
    then have "extract_line [] b None = Some (ParseSuccess, ?l, x, None)" using extract_line_eol [OF i(3), of "[13, 10]" x] by (simp add: eol_def)
    then show ?thesis using e by (metis eol_def)
  next
    case (bad y x)
    have "buf_find_any [13, 10] b = Some (i, 13)" using Some bad(1) by (simp add: buf_find_any_def)
    moreover have "length b \<noteq> i + 1" "drop i b = 13 # y # x" using bad i(1) by (auto simp: Cons_nth_drop_Suc [symmetric])
    ultimately have "\<exists>l r. extract_line [] b None = Some (ParseFailure, l, r, None)"
      using i(1) bad(3) by (cases "i = 0") (auto simp: extract_line_def buf_simps)
    then show ?thesis by blast
  qed
qed

lemma http_loop_ok:
  assumes "http_reading asked s" "hs_buffer s \<noteq> []" "http_at got s" "names_present got"
  shows "\<exists>s'. http_loop s = Some s' \<and> (http_settled asked s' \<or> http_reading asked s' \<and> http_at got s')"
  using assms
proof (induction "length (hs_buffer s)" arbitrary: s rule: less_induct)
  case less
  have reading: "http_reading asked (s\<lparr>hs_buffer := b\<rparr>)" for b
    using less.prems(1) by (auto simp: http_reading_def http_open_def http_finished_def)
  from extract_line_cases [of "hs_buffer s"] show ?case
  proof (elim disjE exE conjE)
    assume "extract_line [] (hs_buffer s) None = Some (ParseIncomplete, [], hs_buffer s, None)"
    then have "http_loop s = Some s" using less.prems(2) by (subst http_loop.simps) simp
    then show ?thesis using less.prems by blast
  next
    fix l b assume "extract_line [] (hs_buffer s) None = Some (ParseFailure, l, b, None)"
    then have "http_loop s = map_option snd (bad_request ''Could not parse input line.'' (s\<lparr>hs_buffer := b\<rparr>))"
      using less.prems(2) by (subst http_loop.simps) simp
    then show ?thesis using bad_request_ok [of asked "s\<lparr>hs_buffer := b\<rparr>"] reading [of b] by (fastforce simp: http_reading_def)
  next
    fix l e b assume x: "extract_line [] (hs_buffer s) None = Some (ParseSuccess, l, b, None)" "hs_buffer s = l @ e @ b" "eol e"
    let ?s = "s\<lparr>hs_buffer := b\<rparr>"
    obtain pre where pre: "got = pre @ hs_buffer s" "hs_state s = GetStart \<or> pre \<noteq> [] \<and> last pre = 10"
      using less.prems(3) by (auto simp: http_at_def)
    have "hs_state ?s = GetStart \<or> l = [] \<or> hd l \<noteq> 0x3a"
    proof (rule ccontr)
      assume "\<not> ?thesis"
      then have "pre = butlast pre @ [10]" "l = 0x3a # tl l"
        using pre(2) append_butlast_last_id [of pre] list.collapse [of l] by auto
      then have "got = butlast pre @ [10, 0x3a] @ tl l @ e @ b" using pre(1) x(2) by (metis append_Cons append_Nil append.assoc)
      then show False using less.prems(4) unfolding names_present_def by blast
    qed
    from http_line_ok [OF reading this] obtain go s' where r: "http_line l ?s = Some (go, s')" "http_goes_on asked ?s (go, s')" by auto
    have loop: "http_loop s = (if go \<and> hs_buffer s' \<noteq> [] then http_loop s' else Some s')"
      using r(1) x(1) less.prems(2) by (subst http_loop.simps) simp
    show ?thesis
    proof (cases go)
      case True
      then have s': "http_reading asked s'" "hs_state s' = GetHeaders" "hs_buffer s' = b" using r(2) by (auto simp: http_goes_on_def)
      have "got = (pre @ l @ e) @ b" "last (pre @ l @ e) = 10" "pre @ l @ e \<noteq> []" using pre(1) x(2,3) by (auto simp: eol_def)
      then have at: "http_at got s'" using s'(3) unfolding http_at_def by blast
      have len: "length (hs_buffer s') < length (hs_buffer s)" using s'(3) x(2,3) by (auto simp: eol_def)
      show ?thesis
      proof (cases "b = []")
        case False
        then show ?thesis using less.hyps [OF len s'(1) _ at less.prems(4)] loop True s'(3) by simp
      qed (use loop s' at in simp)
    next
      case False
      then show ?thesis using r(2) loop by (auto simp: http_goes_on_def)
    qed
  qed
qed

lemma http_feed_settled: "http_settled asked s \<Longrightarrow> \<exists>s'. http_feed cs s = Some s' \<and> http_settled asked s'"
proof (induction cs arbitrary: s)
  case (Cons c cs)
  then have "\<exists>e s1. pipe_input hs_pipe http_consume c s = Some (e, s1) \<and> http_settled asked s1"
    by (cases "c = []") (auto simp: pipe_input_def http_consume_def http_settled_def http_finished_def Let_def)
  then show ?case using Cons.IH by fastforce
qed simp

lemma http_feed_ok:
  assumes "http_reading asked s" "http_at got s" "names_present (got @ concat cs)"
  shows "\<exists>s'. http_feed cs s = Some s' \<and> (http_settled asked s' \<or> http_reading asked s' \<and> http_at (got @ concat cs) s')"
  using assms
proof (induction cs arbitrary: s got)
  case (Cons c cs)
  have op: "http_open asked s" using Cons.prems(1) by (simp add: http_reading_def)
  show ?case
  proof (cases "c = []")
    case True
    obtain s1 where s1: "bad_request ''Premature end of request.'' s = Some (False, s1)" "http_settled asked s1"
      using bad_request_ok [OF op] by blast
    then have "http_feed (c # cs) s = http_feed cs s1"
      using True op by (simp add: pipe_input_def http_consume_def http_open_def http_settled_def Let_def)
    then show ?thesis using http_feed_settled [OF s1(2), of cs] by auto
  next
    case False
    let ?s = "s\<lparr>hs_buffer := hs_buffer s @ c\<rparr>"
    have "http_at (got @ c) ?s" using Cons.prems(2) by (auto simp: http_at_def)
    moreover have "http_reading asked ?s" using Cons.prems(1) by (auto simp: http_reading_def http_open_def http_finished_def)
    moreover have "names_present (got @ c)" using names_present_prefix [of "got @ c" "concat cs"] Cons.prems(3) by simp
    ultimately obtain s1 where s1: "http_loop ?s = Some s1" "http_settled asked s1 \<or> http_reading asked s1 \<and> http_at (got @ c) s1"
      using http_loop_ok [of asked ?s "got @ c"] False by auto
    have "http_feed (c # cs) s = http_feed cs s1"
      using http_feed_Cons [of s c cs] op False s1(1) by (simp only: http_open_def) simp
    then show ?thesis using s1(2) Cons.IH [of s1 "got @ c"] Cons.prems(3) http_feed_settled [of asked s1 cs] by auto
  qed
qed simp

text \<open>C29: Apart from that, no client can make the server fail: whatever bytes arrive in whatever pieces,
  with or without the end of the stream, if no line after the first begins with a colon then
  every assertion holds.  As long as the request is not complete no Action is scheduled, and
  when it has been accepted or refused the callback of whoever asked for it is scheduled.\<close>

theorem http_server_never_fails:
  assumes "names_present (concat cs)"
  shows "\<exists>s. http_feed cs ((http_server_new log)\<lparr>hs_callback := asked\<rparr>) = Some s \<and>
    (http_settled asked s \<or> http_reading asked s)"
proof -
  let ?s = "(http_server_new log)\<lparr>hs_callback := asked\<rparr>"
  have "http_reading asked ?s" "http_at [] ?s"
    by (auto simp: http_reading_def http_open_def http_finished_def http_at_def http_server_new_def http_message_new_def pipe_wf_def pipe_producer_new_def)
  from http_feed_ok [OF this, of cs] assms show ?thesis by auto
qed

theorem http_server_never_fails_witness:
  "\<exists>s. http_feed [[13], [], [0x3a]] ((http_server_new [])\<lparr>hs_callback := True\<rparr>) = Some s \<and>
    (http_settled True s \<or> http_reading True s)"
proof -
  have "names_present (concat [[13], [], [0x3a]])" by (auto simp: names_present_def Cons_eq_append_conv)
  from http_server_never_fails [OF this, of True "[]"] show ?thesis by simp
qed

end
