(* ===== verification/Splice.thy ===== *)
theory Splice
  imports Pipe_Producer
begin

text \<open>
  class Splice (io/pipe/splice.cc), which passes the data of one StreamChannel to another
  through a Pipe or directly, and class SplicePair (io/pipe/splice_pair.cc), which runs two of
  them.  A pointer to an Action or callback is a flag that says whether it is set; the
  callback of the Splice itself keeps the Event it is scheduled with.  Calls to the channels
  and to the Pipe are values that the second part of the theory executes.
\<close>

section \<open>class Splice\<close>

record splice =
  sp_pipe :: bool
  sp_callback :: bool
  sp_callback_action :: "event option"
  sp_read_eos :: bool
  sp_read_action :: bool
  sp_input_action :: bool
  sp_output_eos :: bool
  sp_output_action :: bool
  sp_write_action :: bool
  sp_shutdown_action :: bool

definition splice_new :: "bool \<Rightarrow> splice" where
  "splice_new pipe = \<lparr>sp_pipe = pipe, sp_callback = False, sp_callback_action = None, sp_read_eos = False,
     sp_read_action = False, sp_input_action = False, sp_output_eos = False, sp_output_action = False,
     sp_write_action = False, sp_shutdown_action = False\<rparr>"

datatype splice_call =
  CallRead | CallInput bytes | CallOutput | CallWrite bytes | CallShutdown
| CancelRead | CancelInput | CancelOutput | CancelWrite | CancelShutdown

definition splice_start :: "splice \<Rightarrow> (splice_call list \<times> splice) option" where
  "splice_start s = do {
     assert_that (\<not> sp_callback s \<and> sp_callback_action s = None);
     let s = s\<lparr>sp_callback := True, sp_read_action := True\<rparr>;
     (if sp_pipe s then Some ([CallRead, CallOutput], s\<lparr>sp_output_action := True\<rparr>)
      else Some ([CallRead], s)) }"

text \<open>The five Actions that are cancelled when the Splice ends.\<close>

definition cancel_actions :: "splice \<Rightarrow> splice_call list \<times> splice" where
  "cancel_actions s =
     ((if sp_read_action s then [CancelRead] else []) @ (if sp_input_action s then [CancelInput] else []) @
      (if sp_output_action s then [CancelOutput] else []) @ (if sp_write_action s then [CancelWrite] else []) @
      (if sp_shutdown_action s then [CancelShutdown] else []),
      s\<lparr>sp_read_action := False, sp_input_action := False, sp_output_action := False, sp_write_action := False,
        sp_shutdown_action := False\<rparr>)"

definition splice_cancel :: "splice \<Rightarrow> (splice_call list \<times> splice) option" where
  "splice_cancel s =
     (if sp_callback s then do {
        let s = s\<lparr>sp_callback := False\<rparr>;
        assert_that (sp_callback_action s = None);
        Some (cancel_actions s) }
      else do {
        assert_that (sp_callback_action s \<noteq> None);
        Some ([], s\<lparr>sp_callback_action := None\<rparr>) })"

definition splice_complete :: "event \<Rightarrow> splice \<Rightarrow> (splice_call list \<times> splice) option" where
  "splice_complete e s = do {
     assert_that (sp_callback s);
     assert_that (sp_callback_action s = None);
     let (calls, s) = cancel_actions s;
     Some (calls, s\<lparr>sp_callback_action := Some e, sp_callback := False\<rparr>) }"

definition splice_read_complete :: "event \<Rightarrow> splice \<Rightarrow> (splice_call list \<times> splice) option" where
  "splice_read_complete e s = do {
     assert_that (sp_read_action s);
     let s = s\<lparr>sp_read_action := False\<rparr>;
     assert_that (\<not> sp_read_eos s);
     (if ev_type e \<noteq> Done \<and> ev_type e \<noteq> EOS then splice_complete e s
      else do {
        s \<leftarrow> (if ev_buffer e = [] then do { assert_that (ev_type e = EOS); Some (s\<lparr>sp_read_eos := True\<rparr>) } else Some s);
        (if sp_pipe s then do {
           assert_that (\<not> sp_input_action s);
           Some ([CallInput (ev_buffer e)], s\<lparr>sp_input_action := True\<rparr>) }
         else if ev_type e = EOS \<and> ev_buffer e = [] then
           Some ([CallShutdown], s\<lparr>sp_shutdown_action := True\<rparr>)
         else do {
           assert_that (\<not> sp_write_action s);
           Some ([CallWrite (ev_buffer e)], s\<lparr>sp_write_action := True\<rparr>) }) }) }"

definition splice_input_complete :: "event \<Rightarrow> splice \<Rightarrow> (splice_call list \<times> splice) option" where
  "splice_input_complete e s = do {
     assert_that (sp_input_action s);
     let s = s\<lparr>sp_input_action := False\<rparr>;
     (if ev_type e \<noteq> Done then splice_complete e s
      else do {
        assert_that (\<not> sp_read_action s);
        (if \<not> sp_read_eos s then Some ([CallRead], s\<lparr>sp_read_action := True\<rparr>)
         else if sp_output_eos s then splice_complete (event_of EOS) s
         else Some ([], s)) }) }"

definition splice_output_complete :: "event \<Rightarrow> splice \<Rightarrow> (splice_call list \<times> splice) option" where
  "splice_output_complete e s = do {
     assert_that (sp_output_action s);
     let s = s\<lparr>sp_output_action := False\<rparr>;
     (if ev_type e \<noteq> Done \<and> ev_type e \<noteq> EOS then splice_complete e s
      else if ev_type e = EOS \<and> ev_buffer e = [] then
        Some ([CallShutdown], s\<lparr>sp_shutdown_action := True\<rparr>)
      else do {
        assert_that (\<not> sp_write_action s);
        Some ([CallWrite (ev_buffer e)], s\<lparr>sp_write_action := True\<rparr>) }) }"

definition splice_write_complete :: "event \<Rightarrow> splice \<Rightarrow> (splice_call list \<times> splice) option" where
  "splice_write_complete e s = do {
     assert_that (sp_write_action s);
     let s = s\<lparr>sp_write_action := False\<rparr>;
     (if ev_type e \<noteq> Done then splice_complete e s
      else if sp_pipe s then do {
        assert_that (\<not> sp_output_action s);
        Some ([CallOutput], s\<lparr>sp_output_action := True\<rparr>) }
      else if sp_read_eos s then
        (if \<not> sp_shutdown_action s then Some ([CallShutdown], s\<lparr>sp_shutdown_action := True\<rparr>)
         else Some ([], s))
      else Some ([CallRead], s\<lparr>sp_read_action := True\<rparr>)) }"

definition splice_shutdown_complete :: "event \<Rightarrow> splice \<Rightarrow> (splice_call list \<times> splice) option" where
  "splice_shutdown_complete e s = do {
     assert_that (sp_shutdown_action s);
     let s = s\<lparr>sp_shutdown_action := False\<rparr>;
     assert_that (ev_type e = Done \<or> ev_type e = Error);
     (if sp_read_eos s then splice_complete (event_of EOS) s
      else Some ([], s\<lparr>sp_output_eos := True\<rparr>)) }"

section \<open>class SplicePair\<close>

datatype splice_side = LeftSplice | RightSplice

record splice_pair =
  spp_callback :: bool
  spp_callback_action :: "event option"
  spp_left_action :: bool
  spp_right_action :: bool

definition splice_pair_new :: splice_pair where
  "splice_pair_new = \<lparr>spp_callback = False, spp_callback_action = None, spp_left_action = False, spp_right_action = False\<rparr>"

definition splice_pair_start :: "splice_pair \<Rightarrow> splice_pair option" where
  "splice_pair_start p = do {
     assert_that (\<not> spp_callback p \<and> spp_callback_action p = None);
     Some (p\<lparr>spp_callback := True, spp_left_action := True, spp_right_action := True\<rparr>) }"

text \<open>Returns which of the two Splices are cancelled.\<close>

definition splice_pair_cancel_both :: "splice_pair \<Rightarrow> splice_side list \<times> splice_pair" where
  "splice_pair_cancel_both p =
     ((if spp_left_action p then [LeftSplice] else []) @ (if spp_right_action p then [RightSplice] else []),
      p\<lparr>spp_left_action := False, spp_right_action := False\<rparr>)"

definition splice_pair_cancel :: "splice_pair \<Rightarrow> (splice_side list \<times> splice_pair) option" where
  "splice_pair_cancel p =
     (if spp_callback p then do {
        assert_that (spp_callback_action p = None);
        Some (splice_pair_cancel_both (p\<lparr>spp_callback := False\<rparr>)) }
      else do {
        assert_that (spp_callback_action p \<noteq> None);
        Some ([], p\<lparr>spp_callback_action := None\<rparr>) })"

definition splice_pair_complete :: "event \<Rightarrow> splice_side \<Rightarrow> splice_pair \<Rightarrow> (splice_side list \<times> splice_pair) option" where
  "splice_pair_complete e side p = do {
     assert_that (spp_callback p \<and> spp_callback_action p = None);
     p \<leftarrow> (case side of
        LeftSplice \<Rightarrow> do { assert_that (spp_left_action p); Some (p\<lparr>spp_left_action := False\<rparr>) }
      | RightSplice \<Rightarrow> do { assert_that (spp_right_action p); Some (p\<lparr>spp_right_action := False\<rparr>) });
     let (cancelled, p) = (if ev_type e = EOS then ([], p) else splice_pair_cancel_both p);
     (if spp_left_action p \<or> spp_right_action p then Some (cancelled, p)
      else do {
        assert_that (ev_buffer e = []);
        e \<leftarrow> (if ev_type e = EOS then Some (event_of Done)
             else do { assert_that (ev_type e \<noteq> Done); Some e });
        Some (cancelled, p\<lparr>spp_callback_action := Some e, spp_callback := False\<rparr>) }) }"

section \<open>A Splice, its channels and its Pipe\<close>

text \<open>
  The operations of the Pipe: \<open>inp\<close> and \<open>outp\<close> are \<^verbatim>\<open>input\<close> and \<^verbatim>\<open>output\<close> with the Event that is scheduled at once,
  \<open>fire\<close> delivers the Event of a callback that the Pipe has kept, and \<open>stop\<close> cancels it.
  \<open>sy_read\<close> and \<open>sy_written\<close> are what the source has handed over and the sink has written, \<open>sy_given\<close> and \<open>sy_taken\<close> what
  the Pipe was given and what it has delivered, \<open>sy_closed\<close> and \<open>sy_ended\<close> the ends of both, and \<open>sy_failed\<close> that one of them
  has reported an error.
\<close>

record 'p splice_system =
  sy_splice :: splice
  sy_pipe :: "'p option"
  sy_input :: "event option"
  sy_output :: "event option"
  sy_writing :: bytes
  sy_read :: bytes
  sy_written :: bytes
  sy_shut :: bool
  sy_given :: bytes
  sy_closed :: bool
  sy_taken :: bytes
  sy_ended :: bool
  sy_failed :: bool

definition splice_system_new :: "'p option \<Rightarrow> 'p splice_system" where
  "splice_system_new p = \<lparr>sy_splice = splice_new (p \<noteq> None), sy_pipe = p, sy_input = None, sy_output = None,
     sy_writing = [], sy_read = [], sy_written = [], sy_shut = False, sy_given = [], sy_closed = False, sy_taken = [], sy_ended = False, sy_failed = False\<rparr>"

record 'p pipe_ops =
  po_inp :: "bytes \<Rightarrow> 'p \<Rightarrow> (event \<times> 'p) option"
  po_outp :: "'p \<Rightarrow> (event option \<times> 'p) option"
  po_fire :: "'p \<Rightarrow> (event \<times> 'p) option"
  po_stop :: "'p \<Rightarrow> 'p option"

fun splice_call_do :: "'p pipe_ops \<Rightarrow> splice_call \<Rightarrow> 'p splice_system \<Rightarrow> 'p splice_system option" where
  "splice_call_do ops CallRead y = Some y"
| "splice_call_do ops (CallInput b) y = do {
     p \<leftarrow> sy_pipe y;
     (e, p) \<leftarrow> po_inp ops b p;
     Some (y\<lparr>sy_pipe := Some p, sy_input := Some e, sy_given := sy_given y @ b, sy_closed := (sy_closed y \<or> b = [])\<rparr>) }"
| "splice_call_do ops CallOutput y = do {
     p \<leftarrow> sy_pipe y;
     (e, p) \<leftarrow> po_outp ops p;
     Some (y\<lparr>sy_pipe := Some p, sy_output := e\<rparr>) }"
| "splice_call_do ops (CallWrite b) y = Some (y\<lparr>sy_writing := b\<rparr>)"
| "splice_call_do ops CallShutdown y = Some y"
| "splice_call_do ops CancelRead y = Some y"
| "splice_call_do ops CancelInput y = Some (y\<lparr>sy_input := None\<rparr>)"
| "splice_call_do ops CancelOutput y =
     (if sy_output y \<noteq> None then Some (y\<lparr>sy_output := None\<rparr>)
      else do { p \<leftarrow> sy_pipe y; p \<leftarrow> po_stop ops p; Some (y\<lparr>sy_pipe := Some p\<rparr>) })"
| "splice_call_do ops CancelWrite y = Some (y\<lparr>sy_writing := []\<rparr>)"
| "splice_call_do ops CancelShutdown y = Some y"

fun splice_calls_do :: "'p pipe_ops \<Rightarrow> splice_call list \<Rightarrow> 'p splice_system \<Rightarrow> 'p splice_system option" where
  "splice_calls_do ops [] y = Some y"
| "splice_calls_do ops (c # cs) y = do { y \<leftarrow> splice_call_do ops c y; splice_calls_do ops cs y }"

definition splice_handle ::
  "'p pipe_ops \<Rightarrow> (splice \<Rightarrow> (splice_call list \<times> splice) option) \<Rightarrow> 'p splice_system \<Rightarrow> 'p splice_system option" where
  "splice_handle ops f y = do {
     (calls, s) \<leftarrow> f (sy_splice y);
     splice_calls_do ops calls (y\<lparr>sy_splice := s\<rparr>) }"

text \<open>The callbacks that may be called, with the Events a channel reports.\<close>

datatype splice_cmd = ReadDone event | InputDone | OutputDone | WriteDone event | ShutdownDone event

fun splice_enabled :: "'p pipe_ops \<Rightarrow> splice_cmd \<Rightarrow> 'p splice_system \<Rightarrow> bool" where
  "splice_enabled ops (ReadDone e) y \<longleftrightarrow> sp_read_action (sy_splice y) \<and>
     (ev_type e = Done \<and> ev_buffer e \<noteq> [] \<or> ev_type e = EOS \<or> ev_type e = Error)"
| "splice_enabled ops InputDone y \<longleftrightarrow> sp_input_action (sy_splice y) \<and> sy_input y \<noteq> None"
| "splice_enabled ops OutputDone y \<longleftrightarrow> sp_output_action (sy_splice y) \<and>
     (sy_output y \<noteq> None \<or> (case sy_pipe y of Some p \<Rightarrow> po_fire ops p \<noteq> None | None \<Rightarrow> False))"
| "splice_enabled ops (WriteDone e) y \<longleftrightarrow> sp_write_action (sy_splice y) \<and> (ev_type e = Done \<or> ev_type e = Error)"
| "splice_enabled ops (ShutdownDone e) y \<longleftrightarrow> sp_shutdown_action (sy_splice y) \<and> (ev_type e = Done \<or> ev_type e = Error)"

definition note_failure :: "event \<Rightarrow> 'p splice_system \<Rightarrow> 'p splice_system" where
  "note_failure e y = y\<lparr>sy_failed := (sy_failed y \<or> ev_type e = Error)\<rparr>"

definition note_output :: "event \<Rightarrow> 'p splice_system \<Rightarrow> 'p splice_system" where
  "note_output e y = note_failure e
     (if ev_type e = Error then y
      else y\<lparr>sy_taken := sy_taken y @ ev_buffer e, sy_ended := (sy_ended y \<or> ev_type e = EOS \<and> ev_buffer e = [])\<rparr>)"

fun splice_step :: "'p pipe_ops \<Rightarrow> splice_cmd \<Rightarrow> 'p splice_system \<Rightarrow> 'p splice_system option" where
  "splice_step ops (ReadDone e) y =
     splice_handle ops (splice_read_complete e)
       (note_failure e (if ev_type e = Error then y else y\<lparr>sy_read := sy_read y @ ev_buffer e\<rparr>))"
| "splice_step ops InputDone y = do {
     e \<leftarrow> sy_input y;
     splice_handle ops (splice_input_complete e) (note_failure e (y\<lparr>sy_input := None\<rparr>)) }"
| "splice_step ops OutputDone y =
     (case sy_output y of
        Some e \<Rightarrow> splice_handle ops (splice_output_complete e) (note_output e (y\<lparr>sy_output := None\<rparr>))
      | None \<Rightarrow> do {
          p \<leftarrow> sy_pipe y;
          (e, p) \<leftarrow> po_fire ops p;
          splice_handle ops (splice_output_complete e) (note_output e (y\<lparr>sy_pipe := Some p\<rparr>)) })"
| "splice_step ops (WriteDone e) y =
     splice_handle ops (splice_write_complete e)
       (note_failure e
         (y\<lparr>sy_written := (if ev_type e = Done then sy_written y @ sy_writing y else sy_written y), sy_writing := []\<rparr>))"
| "splice_step ops (ShutdownDone e) y = splice_handle ops (splice_shutdown_complete e) (y\<lparr>sy_shut := True\<rparr>)"

fun splice_run :: "'p pipe_ops \<Rightarrow> splice_cmd list \<Rightarrow> 'p splice_system \<Rightarrow> 'p splice_system option" where
  "splice_run ops [] y = Some y"
| "splice_run ops (c # cs) y = do { y \<leftarrow> splice_step ops c y; splice_run ops cs y }"

fun splice_runnable :: "'p pipe_ops \<Rightarrow> splice_cmd list \<Rightarrow> 'p splice_system \<Rightarrow> bool" where
  "splice_runnable ops [] y \<longleftrightarrow> True"
| "splice_runnable ops (c # cs) y \<longleftrightarrow> splice_enabled ops c y \<and>
     (case splice_step ops c y of Some y \<Rightarrow> splice_runnable ops cs y | None \<Rightarrow> True)"

section \<open>A Splice over any Pipe\<close>

text \<open>
  What every Pipe promises: the caller of \<^verbatim>\<open>input\<close> is told Done or Error, a callback given to \<^verbatim>\<open>output\<close> is called at once or
  later, with data, at the end of the stream or with an error.  What it delivers, and when it ends or fails, is up to the Pipe.
  \<open>ended\<close> says that the Pipe does not take input any more, \<open>listening\<close> that it keeps a callback.
\<close>

fun pipe_replies :: "event \<Rightarrow> bool" where
  "pipe_replies e \<longleftrightarrow> ev_type e = Done \<or> ev_type e = Error"

fun pipe_outputs :: "event \<Rightarrow> bool" where
  "pipe_outputs e \<longleftrightarrow> ev_type e = Done \<and> ev_buffer e \<noteq> [] \<or> ev_type e = EOS \<and> ev_buffer e = [] \<or> ev_type e = Error"

locale any_pipe =
  fixes ops :: "'p pipe_ops" and ok :: "'p \<Rightarrow> bool" and ended :: "'p \<Rightarrow> bool" and listening :: "'p \<Rightarrow> bool"
  assumes any_inp: "ok p \<Longrightarrow> \<not> ended p \<Longrightarrow> \<exists>e p'. po_inp ops b p = Some (e, p') \<and> ok p' \<and> pipe_replies e \<and>
      (ended p' \<longrightarrow> b = []) \<and> (listening p' \<longleftrightarrow> listening p)"
    and any_outp: "ok p \<Longrightarrow> \<not> listening p \<Longrightarrow> \<exists>e p'. po_outp ops p = Some (e, p') \<and> ok p' \<and> (ended p' \<longrightarrow> ended p) \<and>
      (case e of None \<Rightarrow> listening p' | Some e \<Rightarrow> \<not> listening p' \<and> pipe_outputs e)"
    and any_fire: "ok p \<Longrightarrow> listening p \<Longrightarrow> po_fire ops p = Some (e, p') \<Longrightarrow>
      ok p' \<and> (ended p' \<longrightarrow> ended p) \<and> \<not> listening p' \<and> pipe_outputs e"
    and any_stop: "ok p \<Longrightarrow> listening p \<Longrightarrow> po_stop ops p \<noteq> None"
begin

text \<open>The reading side waits for the source or for the Pipe until the source has ended; the writing side waits for the Pipe or
  for the sink until the sink has been shut down.\<close>

definition reading :: "'p splice_system \<Rightarrow> 'p \<Rightarrow> bool" where
  "reading y p \<longleftrightarrow> (let s = sy_splice y in
     sy_given y = sy_read y \<and> (sy_closed y \<longleftrightarrow> sp_read_eos s) \<and> (ended p \<longrightarrow> sp_read_eos s) \<and>
     (sp_read_action s \<longrightarrow> \<not> sp_read_eos s \<and> \<not> sp_input_action s) \<and>
     (sp_input_action s \<or> sp_read_action s \<or> sp_read_eos s) \<and>
     (sp_input_action s \<longrightarrow> (\<exists>e. sy_input y = Some e \<and> pipe_replies e)))"

definition writing :: "'p splice_system \<Rightarrow> 'p \<Rightarrow> bool" where
  "writing y p \<longleftrightarrow> (let s = sy_splice y in
     sy_taken y = sy_written y @ sy_writing y \<and>
     (sp_output_action s \<and> \<not> sp_write_action s \<and> \<not> sp_shutdown_action s \<and> \<not> sp_output_eos s \<and> sy_writing y = [] \<and> \<not> sy_ended y \<and>
        (case sy_output y of None \<Rightarrow> listening p | Some e \<Rightarrow> \<not> listening p \<and> pipe_outputs e) \<or>
      \<not> sp_output_action s \<and> sy_output y = None \<and> \<not> listening p \<and>
        (sp_write_action s \<and> \<not> sp_shutdown_action s \<and> \<not> sp_output_eos s \<and> \<not> sy_ended y \<or>
         \<not> sp_write_action s \<and> sy_writing y = [] \<and> sy_ended y \<and>
           (sp_shutdown_action s \<and> \<not> sp_output_eos s \<or>
            \<not> sp_shutdown_action s \<and> sp_output_eos s \<and> sy_shut y \<and> (sp_read_eos s \<longrightarrow> sp_input_action s)))))"

definition direct :: "'p splice_system \<Rightarrow> bool" where
  "direct y \<longleftrightarrow> (let s = sy_splice y in
     sy_read y = sy_written y @ sy_writing y \<and>
     \<not> sp_input_action s \<and> \<not> sp_output_action s \<and> sy_output y = None \<and> \<not> sp_output_eos s \<and> (sp_read_eos s \<longleftrightarrow> sp_shutdown_action s) \<and>
     (sp_read_action s \<and> \<not> sp_write_action s \<and> \<not> sp_shutdown_action s \<and> sy_writing y = [] \<or>
      \<not> sp_read_action s \<and> sp_write_action s \<and> \<not> sp_shutdown_action s \<or>
      \<not> sp_read_action s \<and> \<not> sp_write_action s \<and> sp_shutdown_action s \<and> sy_writing y = []))"

definition active :: "'p splice_system \<Rightarrow> bool" where
  "active y \<longleftrightarrow> sp_callback (sy_splice y) \<and> sp_callback_action (sy_splice y) = None \<and> \<not> sy_failed y \<and>
     (sp_pipe (sy_splice y) \<longleftrightarrow> sy_pipe y \<noteq> None) \<and>
     (case sy_pipe y of None \<Rightarrow> direct y | Some p \<Rightarrow> ok p \<and> reading y p \<and> writing y p)"

text \<open>What the sink has written came from the Pipe or, without one, from the source.\<close>

definition sink_source :: "'p splice_system \<Rightarrow> bytes" where
  "sink_source y = (if sp_pipe (sy_splice y) then sy_taken y else sy_read y)"

definition fed :: "'p splice_system \<Rightarrow> bool" where
  "fed y \<longleftrightarrow> (sp_pipe (sy_splice y) \<longrightarrow> sy_given y = sy_read y \<and> (sy_closed y \<longleftrightarrow> sp_read_eos (sy_splice y)))"

definition complete :: "'p splice_system \<Rightarrow> bool" where
  "complete y \<longleftrightarrow> (let s = sy_splice y in
     \<not> sp_callback s \<and> \<not> sp_read_action s \<and> \<not> sp_input_action s \<and> \<not> sp_output_action s \<and> \<not> sp_write_action s \<and> \<not> sp_shutdown_action s \<and>
     fed y \<and> (\<exists>rest. sink_source y = sy_written y @ rest) \<and>
     (\<exists>e. sp_callback_action s = Some e \<and>
       (if sy_failed y then ev_type e = Error
        else e = event_of EOS \<and> sp_read_eos s \<and> sy_shut y \<and> sink_source y = sy_written y \<and> (sp_pipe s \<longrightarrow> sy_ended y))))"

lemmas splice_state_defs = active_def reading_def writing_def direct_def Let_def

lemma active_cases:
  assumes "active y"
  obtains (unpiped) "sy_pipe y = None" "direct y" "\<not> sp_pipe (sy_splice y)"
  | (piped) p where "sy_pipe y = Some p" "ok p" "reading y p" "writing y p" "sp_pipe (sy_splice y)"
  using assms by (cases "sy_pipe y") (auto simp: active_def)

lemma active_flow:
  assumes "active y"
  shows "fed y" "\<exists>rest. sink_source y = sy_written y @ rest"
  using assms by (cases rule: active_cases; auto simp: fed_def sink_source_def reading_def writing_def direct_def Let_def)+

definition cancellable :: "splice \<Rightarrow> 'p splice_system \<Rightarrow> bool" where
  "cancellable s y \<longleftrightarrow> (sp_output_action s \<longrightarrow> sy_output y \<noteq> None \<or> (\<exists>p. sy_pipe y = Some p \<and> ok p \<and> listening p))"

lemma active_cancellable: "active y \<Longrightarrow> cancellable (sy_splice y) y"
  by (cases rule: active_cases) (auto simp: cancellable_def direct_def writing_def Let_def split: option.splits)

text \<open>Cancelling changes nothing of what has been read and written.\<close>

definition same_data :: "'p splice_system \<Rightarrow> 'p splice_system \<Rightarrow> bool" where
  "same_data y y' \<longleftrightarrow> sy_splice y' = sy_splice y \<and> sy_read y' = sy_read y \<and> sy_written y' = sy_written y \<and> sy_shut y' = sy_shut y \<and>
     sy_given y' = sy_given y \<and> sy_closed y' = sy_closed y \<and> sy_taken y' = sy_taken y \<and> sy_ended y' = sy_ended y \<and> sy_failed y' = sy_failed y"

lemma cancelled:
  assumes "cancellable s y"
  shows "\<exists>y'. splice_calls_do ops (fst (cancel_actions s)) y = Some y' \<and> same_data y y'"
proof (cases "sp_output_action s \<and> sy_output y = None")
  case True
  then obtain p where p: "sy_pipe y = Some p" "ok p" "listening p" using assms by (auto simp: cancellable_def)
  obtain p' where "po_stop ops p = Some p'" using any_stop [OF p(2,3)] by blast
  then show ?thesis using True p(1)
    by (cases "sp_read_action s"; cases "sp_input_action s"; cases "sp_write_action s"; cases "sp_shutdown_action s")
      (simp_all add: cancel_actions_def same_data_def)
next
  case False
  then show ?thesis
    by (cases "sp_read_action s"; cases "sp_input_action s"; cases "sp_output_action s"; cases "sp_write_action s";
        cases "sp_shutdown_action s") (simp_all add: cancel_actions_def same_data_def)
qed

lemma completes:
  assumes "sp_callback s" "sp_callback_action s = None" "cancellable s y"
    and "fed (y\<lparr>sy_splice := s\<rparr>)" "sink_source (y\<lparr>sy_splice := s\<rparr>) = sy_written y @ rest"
    and "if sy_failed y then ev_type e = Error
      else e = event_of EOS \<and> sp_read_eos s \<and> sy_shut y \<and> rest = [] \<and> (sp_pipe s \<longrightarrow> sy_ended y)"
  shows "\<exists>y'. Option.bind (splice_complete e s) (\<lambda>(calls, s). splice_calls_do ops calls (y\<lparr>sy_splice := s\<rparr>)) = Some y' \<and> complete y'"
proof -
  let ?s = "(snd (cancel_actions s))\<lparr>sp_callback_action := Some e, sp_callback := False\<rparr>"
  have "cancellable s (y\<lparr>sy_splice := ?s\<rparr>)" using assms(3) by (simp add: cancellable_def)
  from cancelled [OF this] obtain y' where y': "splice_calls_do ops (fst (cancel_actions s)) (y\<lparr>sy_splice := ?s\<rparr>) = Some y'"
    "same_data (y\<lparr>sy_splice := ?s\<rparr>) y'" by blast
  have "complete y'" using assms(4-6) y'(2)
    by (auto simp: complete_def same_data_def fed_def sink_source_def cancel_actions_def split: if_splits)
  then show ?thesis using y'(1) assms(1,2) by (simp add: splice_complete_def split_beta Let_def)
qed

text \<open>The callbacks.\<close>

lemma fails:
  assumes act: "active y" and e: "ev_type e = Error"
    and s: "sp_callback s = sp_callback (sy_splice y)" "sp_callback_action s = sp_callback_action (sy_splice y)"
      "sp_pipe s = sp_pipe (sy_splice y)" "sp_read_eos s = sp_read_eos (sy_splice y)"
    and y: "sy_failed y'" "sy_read y' = sy_read y" "sy_given y' = sy_given y" "sy_closed y' = sy_closed y" "sy_taken y' = sy_taken y"
      "sy_written y' = sy_written y"
    and out: "sp_output_action s \<Longrightarrow> sp_output_action (sy_splice y) \<and> sy_output y' = sy_output y \<and> sy_pipe y' = sy_pipe y"
  shows "\<exists>y''. Option.bind (splice_complete e s) (\<lambda>(calls, s). splice_calls_do ops calls (y'\<lparr>sy_splice := s\<rparr>)) = Some y'' \<and> complete y''"
proof -
  obtain rest where rest: "fed y" "sink_source y = sy_written y @ rest" using active_flow [OF act] by blast
  show ?thesis
  proof (rule completes [where rest = rest])
    show "cancellable s y'" using active_cancellable [OF act] out by (auto simp: cancellable_def)
  qed (use act rest e s y in \<open>auto simp: active_def fed_def sink_source_def\<close>)
qed

lemma read_done:
  assumes run: "active y" and en: "splice_enabled ops (ReadDone e) y"
  shows "\<exists>y'. splice_step ops (ReadDone e) y = Some y' \<and> (active y' \<or> complete y')"
proof -
  have act: "sp_read_action (sy_splice y)" using en by simp
  have eos: "\<not> sp_read_eos (sy_splice y)" using run act by (cases rule: active_cases) (auto simp: direct_def reading_def Let_def)
  show ?thesis
  proof (cases "ev_type e = Error")
    case True
    let ?s = "(sy_splice y)\<lparr>sp_read_action := False\<rparr>"
    have "\<exists>y''. Option.bind (splice_complete e ?s) (\<lambda>(calls, s). splice_calls_do ops calls (y\<lparr>sy_failed := True, sy_splice := s\<rparr>)) = Some y'' \<and> complete y''"
      by (rule fails [OF run True]) simp_all
    then show ?thesis using True act eos by (auto simp: splice_handle_def splice_read_complete_def note_failure_def)
  next
    case False
    then have ty: "ev_type e = Done \<and> ev_buffer e \<noteq> [] \<or> ev_type e = EOS" using en by auto
    from run show ?thesis
    proof (cases rule: active_cases)
      case unpiped
      then show ?thesis using run act eos False ty
        by (cases "ev_buffer e = []") (auto simp: splice_read_complete_def splice_handle_def note_failure_def splice_state_defs)
    next
      case (piped p)
      then have "\<not> ended p" "\<not> sp_input_action (sy_splice y)" using eos act by (auto simp: reading_def Let_def)
      moreover obtain v p' where p': "po_inp ops (ev_buffer e) p = Some (v, p')" "ok p'" "pipe_replies v"
        "ended p' \<longrightarrow> ev_buffer e = []" "listening p' \<longleftrightarrow> listening p"
        using any_inp [of p "ev_buffer e"] piped(2) calculation by blast
      ultimately show ?thesis using run act eos False ty piped p'
        by (cases "ev_buffer e = []")
          (auto simp: splice_read_complete_def splice_handle_def note_failure_def splice_state_defs simp del: pipe_replies.simps pipe_outputs.simps split: option.splits)
    qed
  qed
qed

lemma input_done:
  assumes run: "active y" and en: "splice_enabled ops InputDone y"
  shows "\<exists>y'. splice_step ops InputDone y = Some y' \<and> (active y' \<or> complete y')"
  using run
proof (cases rule: active_cases)
  case unpiped
  then show ?thesis using en by (auto simp: direct_def Let_def)
next
  case (piped p)
  then obtain e where e: "sy_input y = Some e" "pipe_replies e" using en by (auto simp: reading_def Let_def)
  have act: "sp_input_action (sy_splice y)" "\<not> sp_read_action (sy_splice y)" using en piped(3) by (auto simp: reading_def Let_def)
  let ?s = "(sy_splice y)\<lparr>sp_input_action := False\<rparr>"
  show ?thesis
  proof (cases "ev_type e = Error")
    case True
    have "\<exists>y''. Option.bind (splice_complete e ?s)
        (\<lambda>(calls, s). splice_calls_do ops calls (y\<lparr>sy_input := None, sy_failed := True, sy_splice := s\<rparr>)) = Some y'' \<and> complete y''"
      by (rule fails [OF run True]) simp_all
    then show ?thesis using True act e(1) by (auto simp: splice_handle_def splice_input_complete_def note_failure_def)
  next
    case False
    then have ty: "ev_type e = Done" using e(2) by simp
    show ?thesis
    proof (cases "sp_read_eos (sy_splice y) \<and> sp_output_eos (sy_splice y)")
      case True
      have "\<exists>y''. Option.bind (splice_complete (event_of EOS) ?s)
          (\<lambda>(calls, s). splice_calls_do ops calls (y\<lparr>sy_input := None, sy_splice := s\<rparr>)) = Some y'' \<and> complete y''"
        by (rule completes [where rest = "[]"])
          (use run True piped in \<open>auto simp: splice_state_defs cancellable_def fed_def sink_source_def split: option.splits\<close>)
      then show ?thesis using True ty act e(1) by (auto simp: splice_handle_def splice_input_complete_def note_failure_def)
    next
      case False
      then show ?thesis using run act ty piped e(1)
        by (cases "sp_read_eos (sy_splice y)")
          (auto simp: splice_input_complete_def splice_handle_def note_failure_def splice_state_defs split: option.splits)
    qed
  qed
qed

lemma output_taken:
  assumes run: "active y" "sy_pipe y = Some p" "sp_output_action (sy_splice y)"
    and p': "ok p'" "ended p' \<longrightarrow> ended p" "\<not> listening p'" "pipe_outputs e"
  shows "\<exists>y'. splice_handle ops (splice_output_complete e) (note_output e (y\<lparr>sy_output := None, sy_pipe := Some p'\<rparr>)) = Some y' \<and>
    (active y' \<or> complete y')"
proof (cases "ev_type e = Error")
  case True
  let ?s = "(sy_splice y)\<lparr>sp_output_action := False\<rparr>"
  have "\<exists>y''. Option.bind (splice_complete e ?s)
      (\<lambda>(calls, s). splice_calls_do ops calls (y\<lparr>sy_output := None, sy_pipe := Some p', sy_failed := True, sy_splice := s\<rparr>)) = Some y'' \<and> complete y''"
    by (rule fails [OF run(1) True]) simp_all
  then show ?thesis using True run(3) by (auto simp: splice_handle_def splice_output_complete_def note_output_def note_failure_def)
next
  case False
  then show ?thesis using assms
    by (cases "ev_type e = Done")
      (auto simp: splice_output_complete_def note_output_def note_failure_def splice_handle_def splice_state_defs)
qed

lemma output_done:
  assumes run: "active y" and en: "splice_enabled ops OutputDone y"
  shows "\<exists>y'. splice_step ops OutputDone y = Some y' \<and> (active y' \<or> complete y')"
  using run
proof (cases rule: active_cases)
  case unpiped
  then show ?thesis using en by (auto simp: direct_def Let_def)
next
  case (piped p)
  have act: "sp_output_action (sy_splice y)" using en by simp
  then have w: "case sy_output y of None \<Rightarrow> listening p | Some e \<Rightarrow> \<not> listening p \<and> pipe_outputs e"
    using piped(4) by (auto simp: writing_def Let_def simp del: pipe_outputs.simps)
  show ?thesis
  proof (cases "sy_output y")
    case None
    then obtain e p' where f: "po_fire ops p = Some (e, p')" using en piped(1) by auto
    have "ok p' \<and> (ended p' \<longrightarrow> ended p) \<and> \<not> listening p' \<and> pipe_outputs e" using any_fire [OF piped(2) _ f] w None by simp
    then have "\<exists>y'. splice_handle ops (splice_output_complete e) (note_output e (y\<lparr>sy_output := None, sy_pipe := Some p'\<rparr>)) = Some y' \<and>
        (active y' \<or> complete y')" using output_taken [OF run piped(1) act] by blast
    moreover have "y\<lparr>sy_output := None, sy_pipe := Some p'\<rparr> = y\<lparr>sy_pipe := Some p'\<rparr>" using None by (cases y) simp
    ultimately show ?thesis using None piped(1) f by simp
  next
    case (Some e)
    then have "\<exists>y'. splice_handle ops (splice_output_complete e) (note_output e (y\<lparr>sy_output := None, sy_pipe := Some p\<rparr>)) = Some y' \<and>
        (active y' \<or> complete y')" using output_taken [OF run piped(1) act piped(2)] w by simp
    moreover have "y\<lparr>sy_output := None, sy_pipe := Some p\<rparr> = y\<lparr>sy_output := None\<rparr>" using piped(1) by (cases y) simp
    ultimately show ?thesis using Some by simp
  qed
qed

lemma write_done:
  assumes run: "active y" and en: "splice_enabled ops (WriteDone e) y"
  shows "\<exists>y'. splice_step ops (WriteDone e) y = Some y' \<and> (active y' \<or> complete y')"
proof -
  have act: "sp_write_action (sy_splice y)" using en by simp
  let ?s = "(sy_splice y)\<lparr>sp_write_action := False\<rparr>"
  show ?thesis
  proof (cases "ev_type e = Error")
    case True
    have "\<exists>y''. Option.bind (splice_complete e ?s)
        (\<lambda>(calls, s). splice_calls_do ops calls (y\<lparr>sy_writing := [], sy_failed := True, sy_splice := s\<rparr>)) = Some y'' \<and> complete y''"
      by (rule fails [OF run True]) simp_all
    then show ?thesis using True act by (auto simp: splice_handle_def splice_write_complete_def note_failure_def)
  next
    case False
    then have ty: "ev_type e = Done" using en by auto
    from run show ?thesis
    proof (cases rule: active_cases)
      case unpiped
      then show ?thesis using run act ty by (auto simp: splice_write_complete_def splice_handle_def note_failure_def splice_state_defs)
    next
      case (piped p)
      then have w: "\<not> listening p" using act by (auto simp: writing_def Let_def)
      obtain v p' where p': "po_outp ops p = Some (v, p')" "ok p'" "ended p' \<longrightarrow> ended p"
        "case v of None \<Rightarrow> listening p' | Some e \<Rightarrow> \<not> listening p' \<and> pipe_outputs e"
        using any_outp [OF piped(2) w] by blast
      then show ?thesis using run act ty piped w
        by (cases v) (auto simp: splice_write_complete_def splice_handle_def note_failure_def splice_state_defs simp del: pipe_outputs.simps)
    qed
  qed
qed

lemma shutdown_done:
  assumes run: "active y" and en: "splice_enabled ops (ShutdownDone e) y"
  shows "\<exists>y'. splice_step ops (ShutdownDone e) y = Some y' \<and> (active y' \<or> complete y')"
proof -
  have act: "sp_shutdown_action (sy_splice y)" "ev_type e = Done \<or> ev_type e = Error" using en by auto
  let ?s = "(sy_splice y)\<lparr>sp_shutdown_action := False\<rparr>"
  show ?thesis
  proof (cases "sp_read_eos (sy_splice y)")
    case True
    have "\<exists>y''. Option.bind (splice_complete (event_of EOS) ?s)
        (\<lambda>(calls, s). splice_calls_do ops calls (y\<lparr>sy_shut := True, sy_splice := s\<rparr>)) = Some y'' \<and> complete y''"
      using run
      by (cases rule: active_cases; intro completes [where rest = "[]"])
        (use run act True in \<open>auto simp: splice_state_defs cancellable_def fed_def sink_source_def split: option.splits\<close>)
    then show ?thesis using True act by (auto simp: splice_handle_def splice_shutdown_complete_def)
  next
    case False
    from run show ?thesis
    proof (cases rule: active_cases)
      case unpiped
      then show ?thesis using False act by (auto simp: direct_def Let_def)
    next
      case (piped p)
      then show ?thesis using run act False
        by (auto simp: splice_shutdown_complete_def splice_handle_def splice_state_defs split: option.splits)
    qed
  qed
qed

lemma any_step:
  assumes "active y" "splice_enabled ops c y"
  shows "\<exists>y'. splice_step ops c y = Some y' \<and> (active y' \<or> complete y')"
  using assms by (cases c) (blast intro: read_done input_done output_done write_done shutdown_done)+

lemma complete_stays: "complete y \<Longrightarrow> \<not> splice_enabled ops c y"
  by (cases c) (auto simp: complete_def Let_def)

lemma any_run:
  assumes "active y \<or> complete y" "splice_runnable ops cs y"
  shows "\<exists>y'. splice_run ops cs y = Some y' \<and> (active y' \<or> complete y')"
  using assms
proof (induction cs arbitrary: y)
  case (Cons c cs)
  then have "active y" using complete_stays by auto
  then obtain y' where "splice_step ops c y = Some y'" "active y' \<or> complete y'" using any_step Cons.prems(2) by auto
  then show ?case using Cons by simp
qed simp

lemma any_started:
  assumes "case q of None \<Rightarrow> True | Some p \<Rightarrow> ok p \<and> \<not> ended p \<and> \<not> listening p"
  shows "\<exists>y. splice_handle ops splice_start (splice_system_new q) = Some y \<and> active y"
proof (cases q)
  case None
  then show ?thesis by (simp add: splice_start_def splice_new_def splice_system_new_def splice_handle_def splice_state_defs)
next
  case (Some p)
  then have p: "ok p" "\<not> ended p" "\<not> listening p" using assms by auto
  obtain v p' where p': "po_outp ops p = Some (v, p')" "ok p'" "ended p' \<longrightarrow> ended p"
    "case v of None \<Rightarrow> listening p' | Some e \<Rightarrow> \<not> listening p' \<and> pipe_outputs e"
    using any_outp [OF p(1,3)] by blast
  then show ?thesis using p Some
    by (cases v) (auto simp: splice_start_def splice_new_def splice_system_new_def splice_handle_def splice_state_defs simp del: pipe_outputs.simps)
qed

end

section \<open>A Splice over a Pipe that hands on what it is given\<close>

text \<open>
  A Pipe that hands on what it is given, in order, and then the end of the stream: \<open>held\<close> is what
  it has taken and not delivered, \<open>ended\<close> that it has been given the end, and \<open>listening\<close> that it
  keeps a callback.
\<close>

definition pipe_delivers :: "('p \<Rightarrow> bytes) \<Rightarrow> ('p \<Rightarrow> bool) \<Rightarrow> 'p \<Rightarrow> event \<Rightarrow> 'p \<Rightarrow> bool" where
  "pipe_delivers held ended p e p' \<longleftrightarrow>
     (ev_type e = Done \<and> ev_buffer e \<noteq> [] \<or> ev_type e = EOS \<and> ev_buffer e = [] \<and> held p = [] \<and> ended p) \<and>
     held p = ev_buffer e @ held p'"

locale transparent_pipe =
  fixes ops :: "'p pipe_ops" and ok :: "'p \<Rightarrow> bool" and held :: "'p \<Rightarrow> bytes"
    and ended :: "'p \<Rightarrow> bool" and listening :: "'p \<Rightarrow> bool"
  assumes inp_ok: "ok p \<Longrightarrow> \<not> ended p \<Longrightarrow> \<exists>p'. po_inp ops b p = Some (event_of Done, p') \<and> ok p' \<and>
      held p' = held p @ b \<and> (ended p' \<longleftrightarrow> b = []) \<and> (listening p' \<longleftrightarrow> listening p)"
    and outp_ok: "ok p \<Longrightarrow> \<not> listening p \<Longrightarrow> \<exists>e p'. po_outp ops p = Some (e, p') \<and> ok p' \<and> (ended p' \<longleftrightarrow> ended p) \<and>
      (case e of None \<Rightarrow> listening p' \<and> held p' = held p | Some e \<Rightarrow> \<not> listening p' \<and> pipe_delivers held ended p e p')"
    and fire_ok: "ok p \<Longrightarrow> listening p \<Longrightarrow> po_fire ops p = Some (e, p') \<Longrightarrow>
      ok p' \<and> (ended p' \<longleftrightarrow> ended p) \<and> \<not> listening p' \<and> pipe_delivers held ended p e p'"
    and fire_ready: "ok p \<Longrightarrow> listening p \<Longrightarrow> held p \<noteq> [] \<or> ended p \<Longrightarrow> po_fire ops p \<noteq> None"
    and stop_ok: "ok p \<Longrightarrow> listening p \<Longrightarrow> po_stop ops p \<noteq> None"
begin

text \<open>The three places where data can be on its way.\<close>

definition in_flight :: "'p splice_system \<Rightarrow> bytes" where
  "in_flight y = sy_writing y @ (case sy_output y of Some e \<Rightarrow> ev_buffer e | None \<Rightarrow> []) @
     (case sy_pipe y of Some p \<Rightarrow> held p | None \<Rightarrow> [])"

text \<open>Exactly one thing is pending on each side.\<close>

definition reader_ok :: "'p splice_system \<Rightarrow> 'p \<Rightarrow> bool" where
  "reader_ok y p \<longleftrightarrow> (let s = sy_splice y in
     (ended p \<longleftrightarrow> sp_read_eos s) \<and>
     (sp_read_action s \<longrightarrow> \<not> sp_read_eos s \<and> \<not> sp_input_action s) \<and>
     (sp_input_action s \<or> sp_read_action s \<or> sp_read_eos s) \<and>
     (sp_input_action s \<longrightarrow> sy_input y = Some (event_of Done)))"

definition writer_ok :: "'p splice_system \<Rightarrow> 'p \<Rightarrow> bool" where
  "writer_ok y p \<longleftrightarrow> (let s = sy_splice y in
     \<not> sp_output_eos s \<and>
     (sp_output_action s \<and> \<not> sp_write_action s \<and> \<not> sp_shutdown_action s \<and> sy_writing y = [] \<and>
        (case sy_output y of None \<Rightarrow> listening p
         | Some e \<Rightarrow> \<not> listening p \<and> (ev_type e = Done \<and> ev_buffer e \<noteq> [] \<or>
             ev_type e = EOS \<and> ev_buffer e = [] \<and> held p = [] \<and> ended p)) \<or>
      \<not> sp_output_action s \<and> sp_write_action s \<and> \<not> sp_shutdown_action s \<and> sy_output y = None \<and> \<not> listening p \<or>
      \<not> sp_output_action s \<and> \<not> sp_write_action s \<and> sp_shutdown_action s \<and> sy_output y = None \<and> \<not> listening p \<and>
        sy_writing y = [] \<and> held p = [] \<and> ended p))"

definition direct_ok :: "'p splice_system \<Rightarrow> bool" where
  "direct_ok y \<longleftrightarrow> (let s = sy_splice y in
     \<not> sp_input_action s \<and> \<not> sp_output_action s \<and> sy_output y = None \<and> (sp_read_eos s \<longleftrightarrow> sp_shutdown_action s) \<and>
     (sp_read_action s \<and> \<not> sp_write_action s \<and> \<not> sp_shutdown_action s \<and> sy_writing y = [] \<or>
      \<not> sp_read_action s \<and> sp_write_action s \<and> \<not> sp_shutdown_action s \<or>
      \<not> sp_read_action s \<and> \<not> sp_write_action s \<and> sp_shutdown_action s \<and> sy_writing y = []))"

definition running_ok :: "'p splice_system \<Rightarrow> bool" where
  "running_ok y \<longleftrightarrow> sp_callback (sy_splice y) \<and> sp_callback_action (sy_splice y) = None \<and>
     (sp_pipe (sy_splice y) \<longleftrightarrow> sy_pipe y \<noteq> None) \<and> sy_read y = sy_written y @ in_flight y \<and>
     (case sy_pipe y of None \<Rightarrow> direct_ok y | Some p \<Rightarrow> ok p \<and> reader_ok y p \<and> writer_ok y p)"

definition finished_ok :: "'p splice_system \<Rightarrow> bool" where
  "finished_ok y \<longleftrightarrow> (let s = sy_splice y in
     \<not> sp_callback s \<and> \<not> sp_read_action s \<and> \<not> sp_input_action s \<and> \<not> sp_output_action s \<and> \<not> sp_write_action s \<and> \<not> sp_shutdown_action s \<and>
     (\<exists>rest. sy_read y = sy_written y @ rest) \<and>
     (\<exists>e. sp_callback_action s = Some e \<and> (ev_type e = Error \<or>
        ev_type e = EOS \<and> ev_buffer e = [] \<and> sp_read_eos s \<and> sy_shut y \<and> sy_written y = sy_read y)))"

definition stoppable :: "splice \<Rightarrow> 'p splice_system \<Rightarrow> bool" where
  "stoppable s y \<longleftrightarrow> (sp_output_action s \<longrightarrow> sy_output y \<noteq> None \<or> (\<exists>p. sy_pipe y = Some p \<and> ok p \<and> listening p))"

lemma cancel_do:
  assumes "stoppable s y"
  shows "\<exists>y'. splice_calls_do ops (fst (cancel_actions s)) y = Some y' \<and> sy_splice y' = sy_splice y \<and>
    sy_read y' = sy_read y \<and> sy_written y' = sy_written y \<and> sy_shut y' = sy_shut y"
proof (cases "sp_output_action s \<and> sy_output y = None")
  case True
  then obtain p where "sy_pipe y = Some p" "ok p" "listening p" using assms by (auto simp: stoppable_def)
  moreover obtain p' where "po_stop ops p = Some p'" using stop_ok [OF calculation(2,3)] by blast
  ultimately have p: "sy_pipe y = Some p" "po_stop ops p = Some p'" by auto
  show ?thesis using True p
    by (cases "sp_read_action s"; cases "sp_input_action s"; cases "sp_write_action s"; cases "sp_shutdown_action s")
      (simp_all add: cancel_actions_def)
next
  case False
  then show ?thesis
    by (cases "sp_read_action s"; cases "sp_input_action s"; cases "sp_output_action s"; cases "sp_write_action s";
        cases "sp_shutdown_action s") (simp_all add: cancel_actions_def)
qed

lemma complete_ok:
  assumes "sp_callback s" "sp_callback_action s = None" "stoppable s y" "sy_read y = sy_written y @ rest"
    and "ev_type e = Error \<or> e = event_of EOS \<and> sp_read_eos s \<and> sy_shut y \<and> rest = []"
  shows "\<exists>y'. Option.bind (splice_complete e s) (\<lambda>(calls, s). splice_calls_do ops calls (y\<lparr>sy_splice := s\<rparr>)) = Some y' \<and> finished_ok y'"
proof -
  let ?s = "(snd (cancel_actions s))\<lparr>sp_callback_action := Some e, sp_callback := False\<rparr>"
  have "stoppable s (y\<lparr>sy_splice := ?s\<rparr>)" using assms(3) by (simp add: stoppable_def)
  from cancel_do [OF this] obtain y' where y': "splice_calls_do ops (fst (cancel_actions s)) (y\<lparr>sy_splice := ?s\<rparr>) = Some y'"
    "sy_splice y' = ?s" "sy_read y' = sy_read y" "sy_written y' = sy_written y" "sy_shut y' = sy_shut y" by auto
  have "finished_ok y'" using assms(4,5) y' by (auto simp: finished_ok_def cancel_actions_def)
  then show ?thesis using y'(1) assms(1,2) by (simp add: splice_complete_def split_beta Let_def)
qed

text \<open>The callbacks, one by one.\<close>

lemmas handler_defs = note_failure_def note_output_def splice_handle_def running_ok_def direct_ok_def reader_ok_def writer_ok_def in_flight_def Let_def

lemma running_cases:
  assumes "running_ok y"
  obtains (direct) "sy_pipe y = None" "direct_ok y" "\<not> sp_pipe (sy_splice y)"
  | (piped) p where "sy_pipe y = Some p" "ok p" "reader_ok y p" "writer_ok y p" "sp_pipe (sy_splice y)"
  using assms by (cases "sy_pipe y") (auto simp: running_ok_def)

lemma read_done_ok:
  assumes run: "running_ok y" and en: "splice_enabled ops (ReadDone e) y"
  shows "\<exists>y'. splice_step ops (ReadDone e) y = Some y' \<and> (running_ok y' \<or> finished_ok y')"
proof -
  let ?s = "(sy_splice y)\<lparr>sp_read_action := False\<rparr>"
  have act: "sp_read_action (sy_splice y)" using en by simp
  have eos: "\<not> sp_read_eos (sy_splice y)" using run act by (cases rule: running_cases) (auto simp: direct_ok_def reader_ok_def Let_def)
  show ?thesis
  proof (cases "ev_type e = Error")
    case True
    have "stoppable ?s (note_failure e y)" using run by (cases rule: running_cases) (auto simp: note_failure_def stoppable_def direct_ok_def writer_ok_def Let_def split: option.splits)
    from complete_ok [OF _ _ this, of "in_flight y" e] show ?thesis
      using True run act eos by (auto simp: splice_handle_def splice_read_complete_def running_ok_def note_failure_def)
  next
    case False
    then have ty: "ev_type e = Done \<and> ev_buffer e \<noteq> [] \<or> ev_type e = EOS" using en by auto
    from run show ?thesis
    proof (cases rule: running_cases)
      case direct
      then show ?thesis using run act eos False ty
        by (cases "ev_buffer e = []") (auto simp: splice_read_complete_def handler_defs)
    next
      case (piped p)
      then have "\<not> ended p" "\<not> sp_input_action (sy_splice y)" using eos act by (auto simp: reader_ok_def Let_def)
      moreover obtain p' where p': "po_inp ops (ev_buffer e) p = Some (event_of Done, p')" "ok p'" "held p' = held p @ ev_buffer e"
        "ended p' \<longleftrightarrow> ev_buffer e = []" "listening p' \<longleftrightarrow> listening p"
        using inp_ok [of p "ev_buffer e"] piped(2) calculation by blast
      ultimately show ?thesis using run act eos False ty piped p'
        by (cases "ev_buffer e = []") (auto simp: splice_read_complete_def handler_defs split: option.splits)
    qed
  qed
qed


lemma input_done_ok:
  assumes run: "running_ok y" and en: "splice_enabled ops InputDone y"
  shows "\<exists>y'. splice_step ops InputDone y = Some y' \<and> (running_ok y' \<or> finished_ok y')"
  using run
proof (cases rule: running_cases)
  case direct
  then show ?thesis using en by (auto simp: direct_ok_def Let_def)
next
  case (piped p)
  then have "sy_input y = Some (event_of Done)" "\<not> sp_read_action (sy_splice y)" "\<not> sp_output_eos (sy_splice y)"
    using en by (auto simp: reader_ok_def writer_ok_def Let_def)
  then show ?thesis using run en piped
    by (cases "sp_read_eos (sy_splice y)") (auto simp: splice_input_complete_def handler_defs split: option.splits)
qed

lemma output_complete_ok:
  assumes run: "running_ok y" "sp_output_action (sy_splice y)" "sy_pipe y = Some p" "sy_writing y = []"
    and p': "ok p'" "ended p' \<longleftrightarrow> ended p" "\<not> listening p'"
    and e: "ev_type e = Done \<and> ev_buffer e \<noteq> [] \<or> ev_type e = EOS \<and> ev_buffer e = [] \<and> held p' = [] \<and> ended p'"
    and data: "in_flight y = ev_buffer e @ held p'"
  shows "\<exists>y'. splice_handle ops (splice_output_complete e) (note_output e (y\<lparr>sy_output := None, sy_pipe := Some p'\<rparr>)) = Some y' \<and> (running_ok y' \<or> finished_ok y')"
proof -
  have "sy_read y = sy_written y @ ev_buffer e @ held p'" using run(1) data by (simp add: running_ok_def)
  then show ?thesis using assms
    by (cases "ev_type e = Done") (auto simp: splice_output_complete_def note_output_def note_failure_def splice_handle_def running_ok_def reader_ok_def writer_ok_def in_flight_def Let_def)
qed

lemma output_done_ok:
  assumes run: "running_ok y" and en: "splice_enabled ops OutputDone y"
  shows "\<exists>y'. splice_step ops OutputDone y = Some y' \<and> (running_ok y' \<or> finished_ok y')"
  using run
proof (cases rule: running_cases)
  case direct
  then show ?thesis using en by (auto simp: direct_ok_def Let_def)
next
  case (piped p)
  have w: "sy_writing y = []" "case sy_output y of None \<Rightarrow> listening p
         | Some e \<Rightarrow> \<not> listening p \<and> (ev_type e = Done \<and> ev_buffer e \<noteq> [] \<or> ev_type e = EOS \<and> ev_buffer e = [] \<and> held p = [] \<and> ended p)"
    using en piped(4) by (auto simp: writer_ok_def Let_def)
  show ?thesis
  proof (cases "sy_output y")
    case None
    then obtain e p' where f: "po_fire ops p = Some (e, p')" using en piped(1) by auto
    have "ok p' \<and> (ended p' \<longleftrightarrow> ended p) \<and> \<not> listening p' \<and> pipe_delivers held ended p e p'"
      using fire_ok [OF piped(2) _ f] w(2) None by simp
    then have "\<exists>y'. splice_handle ops (splice_output_complete e) (note_output e (y\<lparr>sy_output := None, sy_pipe := Some p'\<rparr>)) = Some y' \<and> (running_ok y' \<or> finished_ok y')"
      using run en w(1) piped(1) None by (intro output_complete_ok [of y p]) (auto simp: pipe_delivers_def in_flight_def)
    moreover have "y\<lparr>sy_output := None, sy_pipe := Some p'\<rparr> = y\<lparr>sy_pipe := Some p'\<rparr>" using None by (cases y) simp
    ultimately show ?thesis using None piped(1) f by simp
  next
    case (Some e)
    then have "\<exists>y'. splice_handle ops (splice_output_complete e) (note_output e (y\<lparr>sy_output := None, sy_pipe := Some p\<rparr>)) = Some y' \<and> (running_ok y' \<or> finished_ok y')"
      using run en w piped(1,2) by (intro output_complete_ok [of y p]) (auto simp: in_flight_def)
    moreover have "y\<lparr>sy_output := None, sy_pipe := Some p\<rparr> = y\<lparr>sy_output := None\<rparr>" using piped(1) by (cases y) simp
    ultimately show ?thesis using Some by simp
  qed
qed

lemma write_done_ok:
  assumes run: "running_ok y" and en: "splice_enabled ops (WriteDone e) y"
  shows "\<exists>y'. splice_step ops (WriteDone e) y = Some y' \<and> (running_ok y' \<or> finished_ok y')"
proof -
  let ?s = "(sy_splice y)\<lparr>sp_write_action := False\<rparr>"
  have act: "sp_write_action (sy_splice y)" using en by simp
  show ?thesis
  proof (cases "ev_type e = Error")
    case True
    have "stoppable ?s (note_failure e (y\<lparr>sy_writing := []\<rparr>))"
      using run act by (cases rule: running_cases) (auto simp: note_failure_def stoppable_def direct_ok_def writer_ok_def Let_def split: option.splits)
    from complete_ok [OF _ _ this, of "in_flight y" e] show ?thesis
      using True run act by (auto simp: splice_handle_def splice_write_complete_def running_ok_def note_failure_def)
  next
    case False
    then have ty: "ev_type e = Done" using en by auto
    from run show ?thesis
    proof (cases rule: running_cases)
      case direct
      then show ?thesis using run act ty by (auto simp: splice_write_complete_def handler_defs)
    next
      case (piped p)
      then have w: "\<not> listening p" "\<not> sp_output_action (sy_splice y)" "sy_output y = None" "\<not> sp_shutdown_action (sy_splice y)" "\<not> sp_output_eos (sy_splice y)"
        using act by (auto simp: writer_ok_def Let_def)
      obtain v p' where p': "po_outp ops p = Some (v, p')" "ok p'" "ended p' \<longleftrightarrow> ended p"
        "case v of None \<Rightarrow> listening p' \<and> held p' = held p | Some e \<Rightarrow> \<not> listening p' \<and> pipe_delivers held ended p e p'"
        using outp_ok [OF piped(2) w(1)] by blast
      then show ?thesis using run act ty piped w
        by (cases v) (auto simp: splice_write_complete_def handler_defs pipe_delivers_def)
    qed
  qed
qed

lemma shutdown_done_ok:
  assumes run: "running_ok y" and en: "splice_enabled ops (ShutdownDone e) y"
  shows "\<exists>y'. splice_step ops (ShutdownDone e) y = Some y' \<and> (running_ok y' \<or> finished_ok y')"
proof -
  let ?s = "(sy_splice y)\<lparr>sp_shutdown_action := False\<rparr>"
  have act: "sp_shutdown_action (sy_splice y)" "ev_type e = Done \<or> ev_type e = Error" using en by auto
  have d: "sp_read_eos (sy_splice y)" "in_flight y = []" "\<not> sp_output_action (sy_splice y)" using run act
    by (cases rule: running_cases; auto simp: direct_ok_def writer_ok_def reader_ok_def in_flight_def Let_def)+
  have "stoppable ?s (y\<lparr>sy_shut := True\<rparr>)" using d(3) by (simp add: stoppable_def)
  from complete_ok [OF _ _ this, of "[]" "event_of EOS"] show ?thesis
    using run act d(1,2) by (auto simp: splice_handle_def splice_shutdown_complete_def running_ok_def)
qed

lemma step_ok:
  assumes "running_ok y" "splice_enabled ops c y"
  shows "\<exists>y'. splice_step ops c y = Some y' \<and> (running_ok y' \<or> finished_ok y')"
  using assms by (cases c) (blast intro: read_done_ok input_done_ok output_done_ok write_done_ok shutdown_done_ok)+

lemma finished_stays: "finished_ok y \<Longrightarrow> \<not> splice_enabled ops c y"
  by (cases c) (auto simp: finished_ok_def Let_def)

lemma run_ok:
  assumes "running_ok y \<or> finished_ok y" "splice_runnable ops cs y"
  shows "\<exists>y'. splice_run ops cs y = Some y' \<and> (running_ok y' \<or> finished_ok y')"
  using assms
proof (induction cs arbitrary: y)
  case (Cons c cs)
  then have "running_ok y" using finished_stays by auto
  then obtain y' where "splice_step ops c y = Some y'" "running_ok y' \<or> finished_ok y'" using step_ok Cons.prems(2) by auto
  then show ?case using Cons by simp
qed simp

text \<open>Starting the Splice, and that something can always happen.\<close>

lemma started_ok:
  assumes "case q of None \<Rightarrow> True | Some p \<Rightarrow> ok p \<and> held p = [] \<and> \<not> ended p \<and> \<not> listening p"
  shows "\<exists>y. splice_handle ops splice_start (splice_system_new q) = Some y \<and> running_ok y"
proof (cases q)
  case None
  then show ?thesis by (simp add: splice_start_def splice_new_def splice_system_new_def handler_defs)
next
  case (Some p)
  then have p: "ok p" "held p = []" "\<not> ended p" "\<not> listening p" using assms by auto
  obtain v p' where p': "po_outp ops p = Some (v, p')" "ok p'" "ended p' \<longleftrightarrow> ended p"
    "case v of None \<Rightarrow> listening p' \<and> held p' = held p | Some e \<Rightarrow> \<not> listening p' \<and> pipe_delivers held ended p e p'"
    using outp_ok [OF p(1,4)] by blast
  then show ?thesis using p Some
    by (cases v) (auto simp: splice_start_def splice_new_def splice_system_new_def handler_defs pipe_delivers_def)
qed

lemma not_stuck:
  assumes "running_ok y"
  shows "\<exists>c. splice_enabled ops c y"
  using assms
proof (cases rule: running_cases)
  case direct
  have "splice_enabled ops (ReadDone (event_of EOS)) y \<or> splice_enabled ops (WriteDone (event_of Done)) y \<or>
      splice_enabled ops (ShutdownDone (event_of Done)) y" using direct by (auto simp: direct_ok_def Let_def)
  then show ?thesis by blast
next
  case (piped p)
  then have "splice_enabled ops (ReadDone (event_of EOS)) y \<or> splice_enabled ops (WriteDone (event_of Done)) y \<or>
      splice_enabled ops (ShutdownDone (event_of Done)) y \<or> splice_enabled ops InputDone y \<or> splice_enabled ops OutputDone y"
    using fire_ready [OF piped(2)] by (auto simp: reader_ok_def writer_ok_def Let_def split: option.splits)
  then show ?thesis by blast
qed

end

sublocale transparent_pipe \<subseteq> weak: any_pipe ops ok ended listening
proof unfold_locales
  show "\<exists>e p'. po_inp ops b p = Some (e, p') \<and> ok p' \<and> pipe_replies e \<and> (ended p' \<longrightarrow> b = []) \<and> (listening p' \<longleftrightarrow> listening p)"
    if "ok p" "\<not> ended p" for p b
    using inp_ok [OF that, of b] by (auto intro!: exI [of _ "event_of Done"])
  show "\<exists>e p'. po_outp ops p = Some (e, p') \<and> ok p' \<and> (ended p' \<longrightarrow> ended p) \<and>
      (case e of None \<Rightarrow> listening p' | Some e \<Rightarrow> \<not> listening p' \<and> pipe_outputs e)" if p: "ok p" "\<not> listening p" for p
  proof -
    obtain e p' where "po_outp ops p = Some (e, p')" "ok p'" "ended p' \<longleftrightarrow> ended p"
      "case e of None \<Rightarrow> listening p' \<and> held p' = held p | Some e \<Rightarrow> \<not> listening p' \<and> pipe_delivers held ended p e p'"
      using outp_ok [OF p] by blast
    then show ?thesis by (intro exI [of _ e] exI [of _ p']) (auto simp: pipe_delivers_def split: option.splits)
  qed
  show "ok p' \<and> (ended p' \<longrightarrow> ended p) \<and> \<not> listening p' \<and> pipe_outputs e"
    if "ok p" "listening p" "po_fire ops p = Some (e, p')" for p e p'
    using fire_ok [OF that] by (auto simp: pipe_delivers_def)
  show "po_stop ops p \<noteq> None" if "ok p" "listening p" for p using stop_ok [OF that] .
qed

section \<open>PipeNull and PipeSink keep their promises\<close>

definition pipe_fire :: "pipe_producer \<Rightarrow> (event \<times> pipe_producer) option" where
  "pipe_fire p = do { e \<leftarrow> pp_output_action p; p \<leftarrow> output_cancel p; Some (e, p) }"

definition pipe_null_ops :: "pipe_producer pipe_ops" where
  "pipe_null_ops = \<lparr>po_inp = pipe_input id pipe_null_consume, po_outp = pipe_output, po_fire = pipe_fire, po_stop = output_cancel\<rparr>"

definition pipe_null_ok :: "pipe_producer \<Rightarrow> bool" where
  "pipe_null_ok p \<longleftrightarrow> pipe_wf p \<and> \<not> pp_error p \<and>
     (case pp_output_action p of None \<Rightarrow> True
      | Some e \<Rightarrow> ev_type e = Done \<and> ev_buffer e \<noteq> [] \<or>
          ev_type e = EOS \<and> ev_buffer e = [] \<and> pp_output_eos p \<and> pp_output_buffer p = [])"

definition pipe_listening :: "pipe_producer \<Rightarrow> bool" where
  "pipe_listening p \<longleftrightarrow> pp_output_callback p \<or> pp_output_action p \<noteq> None"

lemma pipe_null_inp:
  assumes "pipe_null_ok p" "\<not> pp_output_eos p"
  shows "\<exists>p'. pipe_input id pipe_null_consume b p = Some (event_of Done, p') \<and> pipe_null_ok p' \<and>
    undelivered p' = undelivered p @ b \<and> (pp_output_eos p' \<longleftrightarrow> b = []) \<and> (pipe_listening p' \<longleftrightarrow> pipe_listening p)"
proof -
  have wf: "pipe_wf p" "\<not> pp_error p" using assms(1) by (auto simp: pipe_null_ok_def)
  obtain p' where p': "produce b p = Some p'" "pipe_wf p'" "\<not> pp_error p'" "pp_output_eos p' \<longleftrightarrow> b = []" "undelivered p' = undelivered p @ b"
    by (rule produce_ok [OF wf(1,2) assms(2)])
  have p: "p' = (if b = [] then (if pp_output_callback p
       then p\<lparr>pp_output_eos := True, pp_output_action := Some (event_of EOS), pp_output_callback := False\<rparr>
       else p\<lparr>pp_output_eos := True\<rparr>)
     else if pp_output_callback p then p\<lparr>pp_output_action := Some (event_with Done b), pp_output_callback := False\<rparr>
     else p\<lparr>pp_output_buffer := pp_output_buffer p @ b\<rparr>)" using produce_eq [OF wf(1) p'(1)] by blast
  have "pipe_null_ok p' \<and> (pipe_listening p' \<longleftrightarrow> pipe_listening p)" unfolding p using assms
    by (cases "pp_output_callback p"; cases "b = []"; cases "pp_output_action p")
      (auto simp: pipe_null_ok_def pipe_listening_def pipe_wf_def)
  then show ?thesis using p' wf(2) by (simp add: pipe_input_def pipe_null_consume_def)
qed

interpretation null: transparent_pipe pipe_null_ops pipe_null_ok undelivered pp_output_eos pipe_listening
proof unfold_locales
  show "\<exists>p'. po_inp pipe_null_ops b p = Some (event_of Done, p') \<and> pipe_null_ok p' \<and> undelivered p' = undelivered p @ b \<and>
      (pp_output_eos p' \<longleftrightarrow> b = []) \<and> (pipe_listening p' \<longleftrightarrow> pipe_listening p)"
    if "pipe_null_ok p" "\<not> pp_output_eos p" for p b
    using pipe_null_inp [OF that] by (simp add: pipe_null_ops_def)
  show "\<exists>e p'. po_outp pipe_null_ops p = Some (e, p') \<and> pipe_null_ok p' \<and> (pp_output_eos p' \<longleftrightarrow> pp_output_eos p) \<and>
      (case e of None \<Rightarrow> pipe_listening p' \<and> undelivered p' = undelivered p
       | Some e \<Rightarrow> \<not> pipe_listening p' \<and> pipe_delivers undelivered pp_output_eos p e p')"
    if "pipe_null_ok p" "\<not> pipe_listening p" for p
    using that by (cases "pp_output_buffer p = []"; cases "pp_output_eos p")
      (simp_all add: pipe_null_ops_def pipe_output_def output_do_def pipe_null_ok_def pipe_listening_def pipe_wf_def
        pipe_delivers_def undelivered_def)
  show "pipe_null_ok p' \<and> (pp_output_eos p' \<longleftrightarrow> pp_output_eos p) \<and> \<not> pipe_listening p' \<and> pipe_delivers undelivered pp_output_eos p e p'"
    if "pipe_null_ok p" "pipe_listening p" "po_fire pipe_null_ops p = Some (e, p')" for p e p'
    using that by (auto simp: pipe_null_ops_def pipe_fire_def output_cancel_def bind_eq_Some_conv pipe_null_ok_def pipe_wf_def
        pipe_listening_def pipe_delivers_def undelivered_def split: option.splits if_splits)
  show "po_fire pipe_null_ops p \<noteq> None" if "pipe_null_ok p" "pipe_listening p" "undelivered p \<noteq> [] \<or> pp_output_eos p" for p
    using that by (auto simp: pipe_null_ops_def pipe_fire_def output_cancel_def pipe_null_ok_def pipe_wf_def
        pipe_listening_def undelivered_def split: option.splits)
  show "po_stop pipe_null_ops p \<noteq> None" if "pipe_null_ok p" "pipe_listening p" for p
    using that by (auto simp: pipe_null_ops_def output_cancel_def pipe_null_ok_def pipe_wf_def)
qed

definition pipe_sink_ops :: "pipe_producer pipe_ops" where
  "pipe_sink_ops = \<lparr>po_inp = pipe_input id pipe_sink_consume, po_outp = pipe_output, po_fire = pipe_fire, po_stop = output_cancel\<rparr>"

definition pipe_sink_ok :: "pipe_producer \<Rightarrow> bool" where
  "pipe_sink_ok p \<longleftrightarrow> pipe_wf p \<and> \<not> pp_error p \<and> pp_output_buffer p = [] \<and>
     (pp_output_action p = None \<or> pp_output_action p = Some (event_of EOS))"

lemma pipe_sink_inp:
  assumes "pipe_sink_ok p" "\<not> pp_output_eos p"
  shows "\<exists>p'. pipe_input id pipe_sink_consume b p = Some (event_of Done, p') \<and> pipe_sink_ok p' \<and>
    (pp_output_eos p' \<longrightarrow> b = []) \<and> (pipe_listening p' \<longleftrightarrow> pipe_listening p)"
  using assms by (cases "b = []"; cases "pp_output_callback p"; cases "pp_output_action p")
    (auto simp: pipe_input_def pipe_sink_consume_def produce_eos_def output_notify_def output_do_def pipe_sink_ok_def pipe_wf_def
      pipe_listening_def)

interpretation sink: any_pipe pipe_sink_ops pipe_sink_ok pp_output_eos pipe_listening
proof unfold_locales
  show "\<exists>e p'. po_inp pipe_sink_ops b p = Some (e, p') \<and> pipe_sink_ok p' \<and> pipe_replies e \<and> (pp_output_eos p' \<longrightarrow> b = []) \<and>
      (pipe_listening p' \<longleftrightarrow> pipe_listening p)"
    if "pipe_sink_ok p" "\<not> pp_output_eos p" for p b
    using pipe_sink_inp [OF that, of b] by (auto simp: pipe_sink_ops_def intro!: exI [of _ "event_of Done"])
  show "\<exists>e p'. po_outp pipe_sink_ops p = Some (e, p') \<and> pipe_sink_ok p' \<and> (pp_output_eos p' \<longrightarrow> pp_output_eos p) \<and>
      (case e of None \<Rightarrow> pipe_listening p' | Some e \<Rightarrow> \<not> pipe_listening p' \<and> pipe_outputs e)"
    if "pipe_sink_ok p" "\<not> pipe_listening p" for p
    using that by (cases "pp_output_eos p")
      (simp_all add: pipe_sink_ops_def pipe_output_def output_do_def pipe_sink_ok_def pipe_listening_def pipe_wf_def)
  show "pipe_sink_ok p' \<and> (pp_output_eos p' \<longrightarrow> pp_output_eos p) \<and> \<not> pipe_listening p' \<and> pipe_outputs e"
    if "pipe_sink_ok p" "pipe_listening p" "po_fire pipe_sink_ops p = Some (e, p')" for p e p'
    using that by (auto simp: pipe_sink_ops_def pipe_fire_def output_cancel_def bind_eq_Some_conv pipe_sink_ok_def pipe_wf_def
        pipe_listening_def split: option.splits if_splits)
  show "po_stop pipe_sink_ops p \<noteq> None" if "pipe_sink_ok p" "pipe_listening p" for p
    using that by (auto simp: pipe_sink_ops_def output_cancel_def pipe_sink_ok_def pipe_wf_def)
qed

section \<open>The properties of a Splice\<close>

text \<open>Through a PipeNull the sink gets what the source has read.\<close>

lemma splice_through_null:
  assumes "splice_handle pipe_null_ops splice_start (splice_system_new (Some pipe_producer_new)) = Some y" "splice_runnable pipe_null_ops cs y"
  shows "\<exists>y' rest. splice_run pipe_null_ops cs y = Some y' \<and> sy_read y' = sy_written y' @ rest \<and>
    (case sp_callback_action (sy_splice y') of
       Some e \<Rightarrow> ev_type e = Error \<or> ev_type e = EOS \<and> sp_read_eos (sy_splice y') \<and> sy_shut y' \<and> rest = []
     | None \<Rightarrow> \<exists>c. splice_enabled pipe_null_ops c y')"
proof -
  have "\<exists>y. splice_handle pipe_null_ops splice_start (splice_system_new (Some pipe_producer_new)) = Some y \<and> null.running_ok y"
    by (rule null.started_ok) (simp add: pipe_null_ok_def pipe_listening_def undelivered_def pipe_producer_new_def pipe_wf_def)
  then have "null.running_ok y" using assms(1) by auto
  then obtain y' where y': "splice_run pipe_null_ops cs y = Some y'" "null.running_ok y' \<or> null.finished_ok y'"
    using null.run_ok assms(2) by blast
  have r: ?thesis if "null.running_ok y'"
    using that y'(1) null.not_stuck [OF that] by (auto simp: null.running_ok_def)
  have f: ?thesis if "null.finished_ok y'"
    using that y'(1) unfolding null.finished_ok_def by (auto simp: Let_def)
  show ?thesis using y'(2) r f by blast
qed






lemma note_keeps_splice [simp]:
  "sy_splice (note_failure e y) = sy_splice y" "sy_splice (note_output e y) = sy_splice y"
  by (simp_all add: note_failure_def note_output_def)






text \<open>C35: A SplicePair reports success exactly when both of its Splices have reached the end of the
  stream, in either order.  When one of them fails the other is cancelled and the pair reports
  the failure, also when the other one had ended before; no assertion fails.\<close>

theorem splice_pair_reports:
  assumes "splice_pair_start splice_pair_new = Some p" "ev_type e1 = EOS \<or> ev_type e1 = Error" "ev_type e2 = EOS \<or> ev_type e2 = Error"
    "ev_buffer e1 = []" "ev_buffer e2 = []" "other = (if first = LeftSplice then RightSplice else LeftSplice)"
  shows "\<exists>cancelled p1. splice_pair_complete e1 first p = Some (cancelled, p1) \<and>
    (if ev_type e1 = Error then cancelled = [other] \<and> spp_callback_action p1 = Some e1 \<and> \<not> spp_callback p1
     else cancelled = [] \<and> spp_callback p1 \<and> (\<exists>p2. splice_pair_complete e2 other p1 = Some ([], p2) \<and> \<not> spp_callback p2 \<and>
       spp_callback_action p2 = Some (if ev_type e2 = EOS then event_of Done else e2)))"
  using assms by (cases first)
    (auto simp: splice_pair_start_def splice_pair_new_def splice_pair_complete_def splice_pair_cancel_both_def)

theorem splice_pair_reports_witness:
  "\<exists>p p1 p2. splice_pair_start splice_pair_new = Some p \<and> splice_pair_complete (event_of EOS) RightSplice p = Some ([], p1) \<and>
    splice_pair_complete (event_of EOS) LeftSplice p1 = Some ([], p2) \<and> spp_callback_action p2 = Some (event_of Done)"
proof -
  obtain p where p: "splice_pair_start splice_pair_new = Some p" by (simp add: splice_pair_start_def splice_pair_new_def)
  from splice_pair_reports [OF p, of "event_of EOS" "event_of EOS" LeftSplice RightSplice] show ?thesis using p by auto
qed

end
