(* ===== verification/Pipe_Link.thy ===== *)
theory Pipe_Link
  imports Splice
begin

text \<open>
  class PipeSplice (io/pipe/pipe_splice.cc), which feeds the output of one Pipe to the input of
  another, and class PipeLink (io/pipe/pipe_link.cc), which makes one Pipe of two with a
  PipeSplice between them.  \<^verbatim>\<open>action_\<close> of a PipeSplice is in turn the Action of an output, of an
  input and of its own callback.
\<close>

section \<open>class PipeSplice\<close>

datatype pipe_splice_action = OutputAction | InputAction | CallbackAction event

record pipe_splice =
  ps_source_eos :: bool
  ps_action :: "pipe_splice_action option"
  ps_callback :: bool

definition pipe_splice_new :: pipe_splice where
  "pipe_splice_new = \<lparr>ps_source_eos = False, ps_action = None, ps_callback = False\<rparr>"

text \<open>The call to a Pipe that a handler ends with.\<close>

datatype pipe_splice_call = SourceOutput | SinkInput bytes

definition pipe_splice_start :: "pipe_splice \<Rightarrow> (pipe_splice_call \<times> pipe_splice) option" where
  "pipe_splice_start s = do {
     assert_that (ps_action s = None);
     assert_that (\<not> ps_callback s);
     Some (SourceOutput, s\<lparr>ps_action := Some OutputAction, ps_callback := True\<rparr>) }"

definition pipe_splice_cancel :: "pipe_splice \<Rightarrow> pipe_splice" where
  "pipe_splice_cancel s = s\<lparr>ps_action := None, ps_callback := False\<rparr>"

definition pipe_splice_report :: "event \<Rightarrow> pipe_splice \<Rightarrow> pipe_splice option" where
  "pipe_splice_report e s = do {
     assert_that (ps_callback s);
     Some (s\<lparr>ps_action := Some (CallbackAction e), ps_callback := False\<rparr>) }"

definition pipe_splice_output_complete :: "event \<Rightarrow> pipe_splice \<Rightarrow> (pipe_splice_call option \<times> pipe_splice) option" where
  "pipe_splice_output_complete e s = do {
     assert_that (ps_action s \<noteq> None);
     let s = s\<lparr>ps_action := None\<rparr>;
     (if ev_type e \<noteq> Done \<and> ev_type e \<noteq> EOS \<and> ev_type e \<noteq> Error then Some (None, s)
      else do {
        assert_that (\<not> ps_source_eos s);
        (if ev_type e = Error then do { s \<leftarrow> pipe_splice_report e s; Some (None, s) }
         else do {
           s \<leftarrow> (if ev_type e = EOS then do { assert_that (ev_buffer e = []); Some (s\<lparr>ps_source_eos := True\<rparr>) }
                else do { assert_that (ev_buffer e \<noteq> []); Some s });
           Some (Some (SinkInput (ev_buffer e)), s\<lparr>ps_action := Some InputAction\<rparr>) }) }) }"

definition pipe_splice_input_complete :: "event \<Rightarrow> pipe_splice \<Rightarrow> (pipe_splice_call option \<times> pipe_splice) option" where
  "pipe_splice_input_complete e s = do {
     assert_that (ps_action s \<noteq> None);
     let s = s\<lparr>ps_action := None\<rparr>;
     (if ev_type e \<noteq> Done \<and> ev_type e \<noteq> Error then Some (None, s)
      else if ev_type e = Error then do { s \<leftarrow> pipe_splice_report e s; Some (None, s) }
      else if ps_source_eos s then do { s \<leftarrow> pipe_splice_report (event_of EOS) s; Some (None, s) }
      else Some (Some SourceOutput, s\<lparr>ps_action := Some OutputAction\<rparr>)) }"

section \<open>class PipeLink\<close>

text \<open>\<open>lk_source\<close> and \<open>lk_sink\<close> are the incoming and the outgoing Pipe; \<open>lk_pending\<close> is the Event that is scheduled
  for the PipeSplice, \<open>lk_out\<close> the one scheduled for whoever called \<^verbatim>\<open>output\<close>.  \<open>lk_put\<close> and \<open>lk_got\<close> are the data
  put in and delivered, \<open>lk_passed\<close> and \<open>lk_given\<close> what the PipeSplice took from the incoming and gave to the outgoing Pipe, with
  the end of both, and \<open>lk_failed\<close> that one of the two Pipes has told the PipeSplice of an error.\<close>

record ('a, 'b) pipe_chain =
  lk_source :: 'a
  lk_sink :: 'b
  lk_splice :: "pipe_splice option"
  lk_splice_action :: bool
  lk_splice_error :: bool
  lk_pending :: "event option"
  lk_out :: "event option"
  lk_put :: bytes
  lk_got :: bytes
  lk_eos :: bool
  lk_passed :: bytes
  lk_passed_eos :: bool
  lk_given :: bytes
  lk_given_eos :: bool
  lk_failed :: bool

definition link_call :: "'a pipe_ops \<Rightarrow> 'b pipe_ops \<Rightarrow> pipe_splice_call option \<Rightarrow> ('a, 'b) pipe_chain \<Rightarrow> ('a, 'b) pipe_chain option" where
  "link_call A B c l =
     (case c of
        None \<Rightarrow> Some l
      | Some SourceOutput \<Rightarrow> do { (e, p) \<leftarrow> po_outp A (lk_source l); Some (l\<lparr>lk_source := p, lk_pending := e\<rparr>) }
      | Some (SinkInput b) \<Rightarrow> do { (e, p) \<leftarrow> po_inp B b (lk_sink l); Some (l\<lparr>lk_sink := p, lk_pending := Some e, lk_given := lk_given l @ b, lk_given_eos := (lk_given_eos l \<or> b = [])\<rparr>) })"

definition link_new :: "'a pipe_ops \<Rightarrow> 'b pipe_ops \<Rightarrow> 'a \<Rightarrow> 'b \<Rightarrow> ('a, 'b) pipe_chain option" where
  "link_new A B a b = do {
     (c, s) \<leftarrow> pipe_splice_start pipe_splice_new;
     link_call A B (Some c)
       \<lparr>lk_source = a, lk_sink = b, lk_splice = Some s, lk_splice_action = True, lk_splice_error = False,
        lk_pending = None, lk_out = None, lk_put = [], lk_got = [], lk_eos = False,
        lk_passed = [], lk_passed_eos = False, lk_given = [], lk_given_eos = False, lk_failed = False\<rparr> }"

definition link_input :: "'a pipe_ops \<Rightarrow> bytes \<Rightarrow> ('a, 'b) pipe_chain \<Rightarrow> (event \<times> ('a, 'b) pipe_chain) option" where
  "link_input A b l =
     (if lk_splice_error l then Some (event_of Error, l)
      else do { (e, p) \<leftarrow> po_inp A b (lk_source l); Some (e, l\<lparr>lk_source := p\<rparr>) })"

definition link_output :: "'b pipe_ops \<Rightarrow> ('a, 'b) pipe_chain \<Rightarrow> (event option \<times> ('a, 'b) pipe_chain) option" where
  "link_output B l =
     (if lk_splice_error l then Some (Some (event_of Error), l)
      else do { (e, p) \<leftarrow> po_outp B (lk_sink l); Some (e, l\<lparr>lk_sink := p\<rparr>) })"

text \<open>\<^verbatim>\<open>cancel\<close> of the Action that \<^verbatim>\<open>start\<close> returned is \<open>pipe_splice_cancel\<close>; the destructor checks that nothing is left.\<close>

definition link_splice_complete :: "event \<Rightarrow> ('a, 'b) pipe_chain \<Rightarrow> ('a, 'b) pipe_chain option" where
  "link_splice_complete e l = do {
     assert_that (lk_splice_action l);
     s \<leftarrow> map_option pipe_splice_cancel (lk_splice l);
     let l = l\<lparr>lk_splice_action := False, lk_splice := Some s\<rparr>;
     (if ev_type e \<noteq> EOS \<and> ev_type e \<noteq> Error then Some l
      else do {
        let l = (if ev_type e = Error then l\<lparr>lk_splice_error := True\<rparr> else l);
        assert_that (ps_action s = None);
        assert_that (\<not> ps_callback s);
        Some (l\<lparr>lk_splice := None\<rparr>) }) }"

section \<open>Events\<close>

datatype link_cmd = LinkPut bytes | LinkListen | LinkDeliver | SpliceOutputDone | SpliceInputDone | SpliceDone

definition link_action :: "('a, 'b) pipe_chain \<Rightarrow> pipe_splice_action option" where
  "link_action l = Option.bind (lk_splice l) ps_action"

text \<open>An Event scheduled at once, or else the one a Pipe has kept the callback for.\<close>

definition take_event :: "event option \<Rightarrow> ('p \<Rightarrow> (event \<times> 'p) option) \<Rightarrow> 'p \<Rightarrow> (event \<times> 'p) option" where
  "take_event scheduled fire p = (case scheduled of Some e \<Rightarrow> Some (e, p) | None \<Rightarrow> fire p)"

fun link_enabled :: "'a pipe_ops \<Rightarrow> 'b pipe_ops \<Rightarrow> ('a \<Rightarrow> bool) \<Rightarrow> ('b \<Rightarrow> bool) \<Rightarrow> link_cmd \<Rightarrow> ('a, 'b) pipe_chain \<Rightarrow> bool" where
  "link_enabled A B ended listening (LinkPut b) l \<longleftrightarrow> \<not> ended (lk_source l)"
| "link_enabled A B ended listening LinkListen l \<longleftrightarrow> lk_out l = None \<and> \<not> listening (lk_sink l) \<and> \<not> lk_eos l"
| "link_enabled A B ended listening LinkDeliver l \<longleftrightarrow>
     (lk_out l \<noteq> None \<or> listening (lk_sink l)) \<and> take_event (lk_out l) (po_fire B) (lk_sink l) \<noteq> None"
| "link_enabled A B ended listening SpliceOutputDone l \<longleftrightarrow>
     link_action l = Some OutputAction \<and> take_event (lk_pending l) (po_fire A) (lk_source l) \<noteq> None"
| "link_enabled A B ended listening SpliceInputDone l \<longleftrightarrow> link_action l = Some InputAction \<and> lk_pending l \<noteq> None"
| "link_enabled A B ended listening SpliceDone l \<longleftrightarrow>
     (case link_action l of Some (CallbackAction e) \<Rightarrow> True | _ \<Rightarrow> False)"

definition note_passed :: "event \<Rightarrow> ('a, 'b) pipe_chain \<Rightarrow> ('a, 'b) pipe_chain" where
  "note_passed e l =
     (if ev_type e = Error then l\<lparr>lk_failed := True\<rparr>
      else l\<lparr>lk_passed := lk_passed l @ ev_buffer e, lk_passed_eos := (lk_passed_eos l \<or> ev_type e = EOS)\<rparr>)"

fun link_step :: "'a pipe_ops \<Rightarrow> 'b pipe_ops \<Rightarrow> link_cmd \<Rightarrow> ('a, 'b) pipe_chain \<Rightarrow> ('a, 'b) pipe_chain option" where
  "link_step A B (LinkPut b) l = do {
     (e, l) \<leftarrow> link_input A b l;
     Some (l\<lparr>lk_put := lk_put l @ b\<rparr>) }"
| "link_step A B LinkListen l = do { (e, l) \<leftarrow> link_output B l; Some (l\<lparr>lk_out := e\<rparr>) }"
| "link_step A B LinkDeliver l = do {
     (e, p) \<leftarrow> take_event (lk_out l) (po_fire B) (lk_sink l);
     Some (l\<lparr>lk_out := None, lk_sink := p, lk_got := lk_got l @ ev_buffer e, lk_eos := (lk_eos l \<or> ev_type e = EOS)\<rparr>) }"
| "link_step A B SpliceOutputDone l = do {
     (e, p) \<leftarrow> take_event (lk_pending l) (po_fire A) (lk_source l);
     s \<leftarrow> lk_splice l;
     (c, s) \<leftarrow> pipe_splice_output_complete e s;
     link_call A B c (note_passed e (l\<lparr>lk_source := p, lk_pending := None, lk_splice := Some s\<rparr>)) }"
| "link_step A B SpliceInputDone l = do {
     e \<leftarrow> lk_pending l;
     s \<leftarrow> lk_splice l;
     (c, s) \<leftarrow> pipe_splice_input_complete e s;
     link_call A B c (l\<lparr>lk_pending := None, lk_splice := Some s, lk_failed := (lk_failed l \<or> ev_type e = Error)\<rparr>) }"
| "link_step A B SpliceDone l = do {
     a \<leftarrow> link_action l;
     (case a of CallbackAction e \<Rightarrow> link_splice_complete e l | _ \<Rightarrow> None) }"

fun link_run :: "'a pipe_ops \<Rightarrow> 'b pipe_ops \<Rightarrow> link_cmd list \<Rightarrow> ('a, 'b) pipe_chain \<Rightarrow> ('a, 'b) pipe_chain option" where
  "link_run A B [] l = Some l"
| "link_run A B (c # cs) l = do { l \<leftarrow> link_step A B c l; link_run A B cs l }"

fun link_runnable :: "'a pipe_ops \<Rightarrow> 'b pipe_ops \<Rightarrow> ('a \<Rightarrow> bool) \<Rightarrow> ('b \<Rightarrow> bool) \<Rightarrow> link_cmd list \<Rightarrow> ('a, 'b) pipe_chain \<Rightarrow> bool" where
  "link_runnable A B ended listening [] l \<longleftrightarrow> True"
| "link_runnable A B ended listening (c # cs) l \<longleftrightarrow> link_enabled A B ended listening c l \<and>
     (case link_step A B c l of Some l \<Rightarrow> link_runnable A B ended listening cs l | None \<Rightarrow> True)"

section \<open>Any two Pipes\<close>

locale joined_pipes = src: any_pipe A okA endedA listeningA + snk: any_pipe B okB endedB listeningB
  for A :: "'a pipe_ops" and okA endedA listeningA and B :: "'b pipe_ops" and okB endedB listeningB
begin

text \<open>What the PipeSplice waits for: the incoming Pipe, the outgoing one, or that its end or failure is reported.\<close>

fun splice_action_ok :: "pipe_splice_action option \<Rightarrow> pipe_splice \<Rightarrow> ('a, 'b) pipe_chain \<Rightarrow> bool" where
  "splice_action_ok None s l \<longleftrightarrow> False"
| "splice_action_ok (Some OutputAction) s l \<longleftrightarrow> \<not> lk_failed l \<and> ps_callback s \<and> \<not> ps_source_eos s \<and> \<not> lk_passed_eos l \<and>
     (case lk_pending l of None \<Rightarrow> listeningA (lk_source l) | Some e \<Rightarrow> \<not> listeningA (lk_source l) \<and> pipe_outputs e)"
| "splice_action_ok (Some InputAction) s l \<longleftrightarrow> \<not> lk_failed l \<and> ps_callback s \<and> (lk_passed_eos l \<longleftrightarrow> ps_source_eos s) \<and>
     \<not> listeningA (lk_source l) \<and> (case lk_pending l of None \<Rightarrow> False | Some e \<Rightarrow> pipe_replies e)"
| "splice_action_ok (Some (CallbackAction e)) s l \<longleftrightarrow> lk_pending l = None \<and>
     (if lk_failed l then ev_type e = Error else e = event_of EOS \<and> lk_passed_eos l)"

fun splice_state_ok :: "pipe_splice option \<Rightarrow> ('a, 'b) pipe_chain \<Rightarrow> bool" where
  "splice_state_ok None l \<longleftrightarrow> (if lk_failed l then lk_splice_error l else \<not> lk_splice_error l \<and> lk_passed_eos l)"
| "splice_state_ok (Some s) l \<longleftrightarrow> lk_splice_action l \<and> \<not> lk_splice_error l \<and> splice_action_ok (ps_action s) s l"

definition joined_ok :: "('a, 'b) pipe_chain \<Rightarrow> bool" where
  "joined_ok l \<longleftrightarrow> okA (lk_source l) \<and> okB (lk_sink l) \<and> lk_given l = lk_passed l \<and> (lk_given_eos l \<longleftrightarrow> lk_passed_eos l) \<and>
     (endedB (lk_sink l) \<longrightarrow> lk_given_eos l) \<and> splice_state_ok (lk_splice l) l \<and> (lk_out l \<noteq> None \<longrightarrow> \<not> listeningB (lk_sink l))"

lemma joined_okD:
  assumes "joined_ok l"
  shows "okA (lk_source l)" "okB (lk_sink l)" "lk_given l = lk_passed l" "lk_given_eos l \<longleftrightarrow> lk_passed_eos l"
    "endedB (lk_sink l) \<Longrightarrow> lk_given_eos l" "splice_state_ok (lk_splice l) l" "lk_out l \<noteq> None \<Longrightarrow> \<not> listeningB (lk_sink l)"
  using assms unfolding joined_ok_def by blast+

lemma splice_action_cong:
  assumes "lk_failed l' = lk_failed l" "lk_passed_eos l' = lk_passed_eos l" "lk_pending l' = lk_pending l"
    "listeningA (lk_source l') = listeningA (lk_source l)"
  shows "splice_action_ok a s l' = splice_action_ok a s l"
proof (cases a)
  case (Some x)
  then show ?thesis using assms by (cases x; cases "lk_pending l") (simp_all del: pipe_outputs.simps pipe_replies.simps)
qed simp

lemma splice_state_cong:
  assumes "lk_failed l' = lk_failed l" "lk_passed_eos l' = lk_passed_eos l" "lk_pending l' = lk_pending l"
    "listeningA (lk_source l') = listeningA (lk_source l)" "lk_splice_action l' = lk_splice_action l" "lk_splice_error l' = lk_splice_error l"
  shows "splice_state_ok sp l' = splice_state_ok sp l"
  using assms splice_action_cong [OF assms(1-4)] by (cases sp) simp_all

lemma join_put:
  assumes "joined_ok l" "\<not> endedA (lk_source l)"
  shows "\<exists>l'. link_step A B (LinkPut b) l = Some l' \<and> joined_ok l'"
proof (cases "lk_splice_error l")
  case True
  have "splice_state_ok (lk_splice l) (l\<lparr>lk_put := lk_put l @ b\<rparr>)"
    using joined_okD(6) [OF assms(1)] splice_state_cong [of "l\<lparr>lk_put := lk_put l @ b\<rparr>" l] by simp
  then show ?thesis using True assms(1) by (auto simp: link_input_def joined_ok_def)
next
  case False
  note j = joined_okD [OF assms(1)]
  obtain e p where p: "po_inp A b (lk_source l) = Some (e, p)" "okA p" "listeningA p \<longleftrightarrow> listeningA (lk_source l)"
    using src.any_inp [OF j(1) assms(2), of b] by blast
  let ?l = "l\<lparr>lk_source := p, lk_put := lk_put l @ b\<rparr>"
  have "splice_state_ok (lk_splice l) ?l" using j(6) splice_state_cong [of ?l l] p(3) by simp
  then show ?thesis using False assms(1) p(1,2) by (auto simp: link_input_def joined_ok_def)
qed

lemma join_listen:
  assumes "joined_ok l" "lk_out l = None" "\<not> listeningB (lk_sink l)"
  shows "\<exists>l'. link_step A B LinkListen l = Some l' \<and> joined_ok l'"
proof (cases "lk_splice_error l")
  case True
  let ?l = "l\<lparr>lk_out := Some (event_of Error)\<rparr>"
  have "splice_state_ok (lk_splice l) ?l" using joined_okD(6) [OF assms(1)] splice_state_cong [of ?l l] by simp
  then show ?thesis using True assms by (auto simp: link_output_def joined_ok_def)
next
  case False
  note j = joined_okD [OF assms(1)]
  obtain e p where p: "po_outp B (lk_sink l) = Some (e, p)" "okB p" "endedB p \<longrightarrow> endedB (lk_sink l)"
    "case e of None \<Rightarrow> listeningB p | Some e \<Rightarrow> \<not> listeningB p \<and> pipe_outputs e"
    using snk.any_outp [OF j(2) assms(3)] by blast
  let ?l = "l\<lparr>lk_sink := p, lk_out := e\<rparr>"
  have "splice_state_ok (lk_splice l) ?l" using j(6) splice_state_cong [of ?l l] by simp
  then show ?thesis using False assms(1) p by (auto simp: link_output_def joined_ok_def split: option.splits)
qed

lemma join_deliver:
  assumes "joined_ok l" "lk_out l \<noteq> None \<or> listeningB (lk_sink l)" "take_event (lk_out l) (po_fire B) (lk_sink l) \<noteq> None"
  shows "\<exists>l'. link_step A B LinkDeliver l = Some l' \<and> joined_ok l'"
proof -
  note j = joined_okD [OF assms(1)]
  obtain e p where e: "take_event (lk_out l) (po_fire B) (lk_sink l) = Some (e, p)" using assms(3) by auto
  have p: "okB p" "endedB p \<longrightarrow> endedB (lk_sink l)"
    using e assms(2) j(2) snk.any_fire [OF j(2), of e p] by (cases "lk_out l"; auto simp: take_event_def)+
  let ?l = "l\<lparr>lk_out := None, lk_sink := p, lk_got := lk_got l @ ev_buffer e, lk_eos := (lk_eos l \<or> ev_type e = EOS)\<rparr>"
  have "splice_state_ok (lk_splice l) ?l" using j(6) splice_state_cong [of ?l l] by simp
  then show ?thesis using e assms(1) p by (auto simp: joined_ok_def)
qed

lemma join_output:
  assumes "joined_ok l" "link_action l = Some OutputAction" "take_event (lk_pending l) (po_fire A) (lk_source l) \<noteq> None"
  shows "\<exists>l'. link_step A B SpliceOutputDone l = Some l' \<and> joined_ok l'"
proof -
  note j = joined_okD [OF assms(1)]
  obtain e p where e: "take_event (lk_pending l) (po_fire A) (lk_source l) = Some (e, p)" using assms(3) by auto
  obtain s where s: "lk_splice l = Some s" "ps_action s = Some OutputAction" using assms(2) by (auto simp: link_action_def bind_eq_Some_conv)
  have st: "\<not> lk_failed l" "ps_callback s" "\<not> ps_source_eos s" "\<not> lk_passed_eos l" "lk_splice_action l" "\<not> lk_splice_error l"
    "case lk_pending l of None \<Rightarrow> listeningA (lk_source l) | Some e \<Rightarrow> \<not> listeningA (lk_source l) \<and> pipe_outputs e"
    using j(6) unfolding s(1) splice_state_ok.simps s(2) splice_action_ok.simps by blast+
  have p: "okA p" "\<not> listeningA p" "pipe_outputs e"
    using e j(1) st(7) src.any_fire [OF j(1), of e p] by (cases "lk_pending l"; auto simp: take_event_def simp del: pipe_outputs.simps)+
  show ?thesis
  proof (cases "ev_type e = Error")
    case True
    then have "pipe_splice_output_complete e s = Some (None, s\<lparr>ps_action := Some (CallbackAction e), ps_callback := False\<rparr>)"
      using s(2) st by (simp add: pipe_splice_output_complete_def pipe_splice_report_def)
    then show ?thesis using True e s(1) st p(1) j by (auto simp: link_call_def note_passed_def joined_ok_def)
  next
    case False
    have "\<not> endedB (lk_sink l)" using j(4,5) st(4) by blast
    then obtain r q where q: "po_inp B (ev_buffer e) (lk_sink l) = Some (r, q)" "okB q" "pipe_replies r"
      "endedB q \<longrightarrow> ev_buffer e = []" "listeningB q \<longleftrightarrow> listeningB (lk_sink l)"
      using snk.any_inp [OF j(2), of "ev_buffer e"] by blast
    have "pipe_splice_output_complete e s =
        Some (Some (SinkInput (ev_buffer e)), s\<lparr>ps_source_eos := (ev_type e = EOS), ps_action := Some InputAction\<rparr>)"
      using s(2) st False p(3) by (cases s) (auto simp: pipe_splice_output_complete_def)
    moreover have "ev_buffer e = [] \<longleftrightarrow> ev_type e = EOS" using p(3) False by auto
    ultimately show ?thesis using False e s(1) st p(1,2) j q
      by (simp add: link_call_def note_passed_def joined_ok_def del: pipe_replies.simps)
  qed
qed

lemma join_input:
  assumes "joined_ok l" "link_action l = Some InputAction"
  shows "\<exists>l'. link_step A B SpliceInputDone l = Some l' \<and> joined_ok l'"
proof -
  note j = joined_okD [OF assms(1)]
  obtain s where s: "lk_splice l = Some s" "ps_action s = Some InputAction" using assms(2) by (auto simp: link_action_def bind_eq_Some_conv)
  have st: "\<not> lk_failed l" "ps_callback s" "lk_passed_eos l \<longleftrightarrow> ps_source_eos s" "\<not> listeningA (lk_source l)"
    "lk_splice_action l" "\<not> lk_splice_error l" "case lk_pending l of None \<Rightarrow> False | Some e \<Rightarrow> pipe_replies e"
    using j(6) unfolding s(1) splice_state_ok.simps s(2) splice_action_ok.simps by blast+
  obtain e where e: "lk_pending l = Some e" "pipe_replies e" using st(7) by (cases "lk_pending l") auto
  show ?thesis
  proof (cases "ev_type e = Error \<or> ps_source_eos s")
    case True
    then show ?thesis using e s st j
      by (auto simp: link_call_def pipe_splice_input_complete_def pipe_splice_report_def joined_ok_def)
  next
    case False
    obtain v p where p: "po_outp A (lk_source l) = Some (v, p)" "okA p"
      "case v of None \<Rightarrow> listeningA p | Some e \<Rightarrow> \<not> listeningA p \<and> pipe_outputs e"
      using src.any_outp [OF j(1) st(4)] by blast
    have "pipe_splice_input_complete e s = Some (Some SourceOutput, s\<lparr>ps_action := Some OutputAction\<rparr>)"
      using False e(2) s(2) by (cases s) (auto simp: pipe_splice_input_complete_def)
    then show ?thesis using False e s(1) st j p by (cases v) (auto simp: link_call_def joined_ok_def simp del: pipe_outputs.simps)
  qed
qed

lemma join_done:
  assumes "joined_ok l" "link_action l = Some (CallbackAction e)"
  shows "\<exists>l'. link_step A B SpliceDone l = Some l' \<and> joined_ok l'"
proof -
  note j = joined_okD [OF assms(1)]
  obtain s where s: "lk_splice l = Some s" "ps_action s = Some (CallbackAction e)"
    using assms(2) by (auto simp: link_action_def bind_eq_Some_conv)
  have st: "lk_splice_action l" "\<not> lk_splice_error l" "if lk_failed l then ev_type e = Error else e = event_of EOS \<and> lk_passed_eos l"
    using j(6) unfolding s(1) splice_state_ok.simps s(2) splice_action_ok.simps by blast+
  show ?thesis using assms(2) s(1) st j
    by (auto simp: link_splice_complete_def pipe_splice_cancel_def joined_ok_def split: if_splits)
qed

lemma join_step:
  assumes "joined_ok l" "link_enabled A B endedA listeningB c l"
  shows "\<exists>l'. link_step A B c l = Some l' \<and> joined_ok l'"
proof (cases c)
  case (LinkPut b) then show ?thesis using assms join_put by simp
next
  case LinkListen then show ?thesis using assms join_listen by simp
next
  case LinkDeliver then show ?thesis using assms join_deliver by simp
next
  case SpliceOutputDone then show ?thesis using assms join_output by simp
next
  case SpliceInputDone then show ?thesis using assms join_input by simp
next
  case SpliceDone then show ?thesis using assms join_done by (auto split: option.splits pipe_splice_action.splits)
qed

lemma join_run:
  assumes "joined_ok l" "link_runnable A B endedA listeningB cs l"
  shows "\<exists>l'. link_run A B cs l = Some l' \<and> joined_ok l'"
  using assms
proof (induction cs arbitrary: l)
  case (Cons c cs)
  then have "link_enabled A B endedA listeningB c l" by simp
  from join_step [OF Cons.prems(1) this] obtain l' where "link_step A B c l = Some l'" "joined_ok l'" by blast
  then show ?case using Cons by simp
qed simp

lemma join_new:
  assumes "okA a" "\<not> listeningA a" "okB b" "\<not> endedB b"
  shows "\<exists>l. link_new A B a b = Some l \<and> joined_ok l"
proof -
  obtain e p where "po_outp A a = Some (e, p)" "okA p" "case e of None \<Rightarrow> listeningA p | Some e \<Rightarrow> \<not> listeningA p \<and> pipe_outputs e"
    using src.any_outp [OF assms(1,2)] by blast
  then show ?thesis using assms
    by (cases e) (simp_all add: link_new_def pipe_splice_start_def pipe_splice_new_def link_call_def joined_ok_def del: pipe_outputs.simps)
qed

text \<open>As long as there is a PipeSplice it waits for something, and after a failure for its report.\<close>

lemma join_waits:
  assumes "joined_ok l" "lk_splice l \<noteq> None"
  shows "if lk_failed l then link_enabled A B endedA listeningB SpliceDone l
    else (\<exists>c\<in>{SpliceOutputDone, SpliceInputDone, SpliceDone}. link_enabled A B endedA listeningB c l) \<or>
      link_action l = Some OutputAction \<and> listeningA (lk_source l)"
proof -
  obtain s where s: "lk_splice l = Some s" using assms(2) by auto
  have st: "splice_action_ok (ps_action s) s l" using joined_okD(6) [OF assms(1)] s by simp
  then obtain a where a: "ps_action s = Some a" by (cases "ps_action s") simp_all
  then show ?thesis using st s by (cases a) (auto simp: link_action_def take_event_def split: option.splits)
qed

end

section \<open>Two Pipes that hand on what they are given\<close>

locale linked_pipes = src: transparent_pipe A okA heldA endedA listeningA + snk: transparent_pipe B okB heldB endedB listeningB
  for A :: "'a pipe_ops" and okA heldA endedA listeningA and B :: "'b pipe_ops" and okB heldB endedB listeningB
begin

abbreviation event_data :: "event option \<Rightarrow> bytes" where
  "event_data e \<equiv> (case e of Some e \<Rightarrow> ev_buffer e | None \<Rightarrow> [])"

abbreviation deliverable :: "event \<Rightarrow> bytes \<Rightarrow> bool \<Rightarrow> bool" where
  "deliverable e left ended \<equiv> ev_type e = Done \<and> ev_buffer e \<noteq> [] \<or> ev_type e = EOS \<and> ev_buffer e = [] \<and> left = [] \<and> ended"

text \<open>What holds of the PipeSplice between the two, and of an Event scheduled for the consumer.\<close>

fun action_ok :: "pipe_splice_action option \<Rightarrow> pipe_splice \<Rightarrow> event option \<Rightarrow> 'a \<Rightarrow> 'b \<Rightarrow> bool" where
  "action_ok None s pending p q \<longleftrightarrow> False"
| "action_ok (Some OutputAction) s pending p q \<longleftrightarrow> ps_callback s \<and> \<not> ps_source_eos s \<and> \<not> endedB q \<and>
     (case pending of None \<Rightarrow> listeningA p | Some e \<Rightarrow> \<not> listeningA p \<and> deliverable e (heldA p) (endedA p))"
| "action_ok (Some InputAction) s pending p q \<longleftrightarrow> ps_callback s \<and> pending = Some (event_of Done) \<and> \<not> listeningA p \<and>
     (endedB q \<longleftrightarrow> ps_source_eos s) \<and> (ps_source_eos s \<longrightarrow> endedA p \<and> heldA p = [])"
| "action_ok (Some (CallbackAction e)) s pending p q \<longleftrightarrow>
     e = event_of EOS \<and> pending = None \<and> endedB q \<and> endedA p \<and> heldA p = []"

fun between_ok :: "pipe_splice option \<Rightarrow> bool \<Rightarrow> event option \<Rightarrow> 'a \<Rightarrow> 'b \<Rightarrow> bool" where
  "between_ok None act pending p q \<longleftrightarrow> pending = None \<and> endedA p \<and> heldA p = [] \<and> endedB q"
| "between_ok (Some s) act pending p q \<longleftrightarrow> act \<and> action_ok (ps_action s) s pending p q"

fun out_ok :: "event option \<Rightarrow> 'b \<Rightarrow> bool" where
  "out_ok None q \<longleftrightarrow> True"
| "out_ok (Some e) q \<longleftrightarrow> \<not> listeningB q \<and> deliverable e (heldB q) (endedB q)"

abbreviation chain_between :: "('a, 'b) pipe_chain \<Rightarrow> bool" where
  "chain_between l \<equiv> between_ok (lk_splice l) (lk_splice_action l) (lk_pending l) (lk_source l) (lk_sink l)"

definition chain_ok :: "('a, 'b) pipe_chain \<Rightarrow> bool" where
  "chain_ok l \<longleftrightarrow> okA (lk_source l) \<and> okB (lk_sink l) \<and> \<not> lk_splice_error l \<and> chain_between l \<and> out_ok (lk_out l) (lk_sink l) \<and>
     lk_put l = lk_got l @ event_data (lk_out l) @ heldB (lk_sink l) @ event_data (lk_pending l) @ heldA (lk_source l) \<and>
     (lk_eos l \<longrightarrow> lk_put l = lk_got l \<and> endedA (lk_source l) \<and> endedB (lk_sink l))"

lemma chain_okD:
  assumes "chain_ok l"
  shows "okA (lk_source l)" "okB (lk_sink l)" "\<not> lk_splice_error l" "chain_between l" "out_ok (lk_out l) (lk_sink l)"
    "lk_put l = lk_got l @ event_data (lk_out l) @ heldB (lk_sink l) @ event_data (lk_pending l) @ heldA (lk_source l)"
    "lk_eos l \<Longrightarrow> lk_put l = lk_got l \<and> endedA (lk_source l) \<and> endedB (lk_sink l)"
  using assms unfolding chain_ok_def by blast+

lemma chain_okI:
  assumes "okA (lk_source l)" "okB (lk_sink l)" "\<not> lk_splice_error l" "chain_between l" "out_ok (lk_out l) (lk_sink l)"
    "lk_put l = lk_got l @ event_data (lk_out l) @ heldB (lk_sink l) @ event_data (lk_pending l) @ heldA (lk_source l)"
    "lk_eos l \<Longrightarrow> lk_put l = lk_got l \<and> endedA (lk_source l) \<and> endedB (lk_sink l)"
  shows "chain_ok l"
  using assms unfolding chain_ok_def by blast

lemma action_ok_sink: "endedB q \<longleftrightarrow> endedB q' \<Longrightarrow> action_ok a s pending p q = action_ok a s pending p q'"
proof (cases a)
  case (Some x)
  assume "endedB q \<longleftrightarrow> endedB q'"
  then show ?thesis using Some by (cases x) simp_all
qed simp

lemma between_ok_sink: "endedB q \<longleftrightarrow> endedB q' \<Longrightarrow> between_ok sp act pending p q = between_ok sp act pending p q'"
  using action_ok_sink [of q q'] by (cases sp) simp_all

lemma between_ended:
  assumes "between_ok sp act pending p q" "endedB q"
  shows "event_data pending = [] \<and> heldA p = [] \<and> endedA p"
proof (cases sp)
  case (Some s)
  then obtain a where "ps_action s = Some a" using assms(1) by (cases "ps_action s") simp_all
  then show ?thesis using assms Some by (cases a) simp_all
qed (use assms in simp)

lemma between_put:
  assumes "between_ok sp act pending p q" "\<not> endedA p" "heldA p' = heldA p @ b" "listeningA p' \<longleftrightarrow> listeningA p"
  shows "between_ok sp act pending p' q"
proof (cases sp)
  case (Some s)
  then obtain a where "ps_action s = Some a" using assms(1) by (cases "ps_action s") simp_all
  then show ?thesis using assms Some by (cases a; cases pending) auto
qed (use assms in simp)

lemma between_output:
  assumes "between_ok (Some s) act pending p q" "ps_action s = Some OutputAction"
  shows "ps_callback s" "\<not> ps_source_eos s" "\<not> endedB q" act
    "case pending of None \<Rightarrow> listeningA p | Some e \<Rightarrow> \<not> listeningA p \<and> deliverable e (heldA p) (endedA p)"
  using assms by simp_all

lemma put_ok:
  assumes "chain_ok l" "\<not> endedA (lk_source l)"
  shows "\<exists>l'. link_step A B (LinkPut b) l = Some l' \<and> chain_ok l'"
proof -
  note c = chain_okD [OF assms(1)]
  obtain p where p: "po_inp A b (lk_source l) = Some (event_of Done, p)" "okA p" "heldA p = heldA (lk_source l) @ b"
    "endedA p \<longleftrightarrow> b = []" "listeningA p \<longleftrightarrow> listeningA (lk_source l)"
    using src.inp_ok [OF c(1) assms(2), of b] by blast
  have b: "between_ok (lk_splice l) (lk_splice_action l) (lk_pending l) p (lk_sink l)"
    by (rule between_put [OF c(4) assms(2) p(3,5)])
  have "chain_ok (l\<lparr>lk_source := p, lk_put := lk_put l @ b\<rparr>)"
    by (rule chain_okI) (use c p b assms(2) in \<open>simp_all\<close>)
  then show ?thesis using c(3) p(1) by (simp add: link_input_def)
qed

lemma listen_ok:
  assumes "chain_ok l" "lk_out l = None" "\<not> listeningB (lk_sink l)" "\<not> lk_eos l"
  shows "\<exists>l'. link_step A B LinkListen l = Some l' \<and> chain_ok l'"
proof -
  note c = chain_okD [OF assms(1)]
  obtain e p where p: "po_outp B (lk_sink l) = Some (e, p)" "okB p" "endedB p \<longleftrightarrow> endedB (lk_sink l)"
    "case e of None \<Rightarrow> listeningB p \<and> heldB p = heldB (lk_sink l) | Some e \<Rightarrow> \<not> listeningB p \<and> pipe_delivers heldB endedB (lk_sink l) e p"
    using snk.outp_ok [OF c(2) assms(3)] by blast
  have "event_data e @ heldB p = heldB (lk_sink l)" "out_ok e p"
    using p(3,4) by (cases e; auto simp: pipe_delivers_def)+
  moreover have "between_ok (lk_splice l) (lk_splice_action l) (lk_pending l) (lk_source l) p"
    using c(4) between_ok_sink [OF p(3)] by simp
  ultimately have "chain_ok (l\<lparr>lk_sink := p, lk_out := e\<rparr>)"
    by (intro chain_okI) (use c p(2) assms(2,4) in \<open>simp_all\<close>)
  then show ?thesis using c(3) p(1) by (simp add: link_output_def)
qed

lemma deliver_ok:
  assumes "chain_ok l" "lk_out l \<noteq> None \<or> listeningB (lk_sink l)" "take_event (lk_out l) (po_fire B) (lk_sink l) \<noteq> None"
  shows "\<exists>l'. link_step A B LinkDeliver l = Some l' \<and> chain_ok l'"
proof -
  note c = chain_okD [OF assms(1)]
  obtain e p where e: "take_event (lk_out l) (po_fire B) (lk_sink l) = Some (e, p)" using assms(3) by auto
  have p: "okB p \<and> (endedB p \<longleftrightarrow> endedB (lk_sink l)) \<and> \<not> listeningB p \<and> deliverable e (heldB p) (endedB p) \<and>
    event_data (lk_out l) @ heldB (lk_sink l) = ev_buffer e @ heldB p"
  proof (cases "lk_out l")
    case None
    then show ?thesis using e assms(2) snk.fire_ok [OF c(2), of e p] by (auto simp: take_event_def pipe_delivers_def)
  next
    case (Some e')
    then show ?thesis using e c(2,5) by (auto simp: take_event_def)
  qed
  let ?l = "l\<lparr>lk_out := None, lk_sink := p, lk_got := lk_got l @ ev_buffer e, lk_eos := (lk_eos l \<or> ev_type e = EOS)\<rparr>"
  have put: "lk_put l = lk_got l @ ev_buffer e @ heldB p @ event_data (lk_pending l) @ heldA (lk_source l)"
    using c(6) p by (metis append.assoc)
  have b: "between_ok (lk_splice l) (lk_splice_action l) (lk_pending l) (lk_source l) p"
    using c(4) between_ok_sink [of p "lk_sink l"] p by simp
  have "chain_ok ?l"
  proof (rule chain_okI)
    show "lk_put ?l = lk_got ?l \<and> endedA (lk_source ?l) \<and> endedB (lk_sink ?l)" if "lk_eos ?l"
    proof (cases "ev_type e = EOS")
      case True
      then show ?thesis using p put between_ended [OF c(4)] by auto
    next
      case False
      then have "lk_eos l" using that by simp
      then show ?thesis using c(7) p put False by simp
    qed
  qed (use c p put b in \<open>simp_all\<close>)
  then show ?thesis using e by simp
qed

lemma splice_output_ok:
  assumes "chain_ok l" "link_action l = Some OutputAction" "take_event (lk_pending l) (po_fire A) (lk_source l) \<noteq> None"
  shows "\<exists>l'. link_step A B SpliceOutputDone l = Some l' \<and> chain_ok l'"
proof -
  note c = chain_okD [OF assms(1)]
  obtain e p where e: "take_event (lk_pending l) (po_fire A) (lk_source l) = Some (e, p)" using assms(3) by auto
  obtain s where s: "lk_splice l = Some s" "ps_action s = Some OutputAction" using assms(2) by (auto simp: link_action_def bind_eq_Some_conv)
  have b: "ps_callback s" "\<not> ps_source_eos s" "\<not> endedB (lk_sink l)" "lk_splice_action l" "case lk_pending l of None \<Rightarrow> listeningA (lk_source l)
      | Some e \<Rightarrow> \<not> listeningA (lk_source l) \<and> deliverable e (heldA (lk_source l)) (endedA (lk_source l))"
    using between_output [OF c(4) [unfolded s(1)] s(2)] .
  have p: "okA p \<and> (endedA p \<longleftrightarrow> endedA (lk_source l)) \<and> \<not> listeningA p \<and> deliverable e (heldA p) (endedA p) \<and>
    event_data (lk_pending l) @ heldA (lk_source l) = ev_buffer e @ heldA p"
  proof (cases "lk_pending l")
    case None
    then show ?thesis using e b(5) src.fire_ok [OF c(1), of e p] by (auto simp: take_event_def pipe_delivers_def)
  next
    case (Some e')
    then show ?thesis using e c(1) b(5) by (auto simp: take_event_def)
  qed
  obtain q where q: "po_inp B (ev_buffer e) (lk_sink l) = Some (event_of Done, q)" "okB q" "heldB q = heldB (lk_sink l) @ ev_buffer e"
    "endedB q \<longleftrightarrow> ev_buffer e = []" "listeningB q \<longleftrightarrow> listeningB (lk_sink l)"
    using snk.inp_ok [OF c(2) b(3), of "ev_buffer e"] by blast
  let ?s = "s\<lparr>ps_source_eos := (ev_type e = EOS), ps_action := Some InputAction\<rparr>"
  let ?l = "l\<lparr>lk_source := p, lk_pending := Some (event_of Done), lk_splice := Some ?s, lk_sink := q,
    lk_passed := lk_passed l @ ev_buffer e, lk_passed_eos := (lk_passed_eos l \<or> ev_type e = EOS),
    lk_given := lk_given l @ ev_buffer e, lk_given_eos := (lk_given_eos l \<or> ev_buffer e = [])\<rparr>"
  have "pipe_splice_output_complete e s = Some (Some (SinkInput (ev_buffer e)), ?s)"
    using s(2) b(2) p by (cases s) (auto simp: pipe_splice_output_complete_def)
  then have step: "link_step A B SpliceOutputDone l = Some ?l" using e s(1) q(1) p by (cases l) (auto simp: link_call_def note_passed_def)
  have between: "chain_between ?l" using b p q(4) by auto
  have out: "out_ok (lk_out l) q" using c(5) b(3) q(5) by (cases "lk_out l") auto
  have "chain_ok ?l"
    by (rule chain_okI) (use c p q(2,3) between out b(3) in \<open>simp_all\<close>)
  then show ?thesis using step by blast
qed

lemma splice_input_ok:
  assumes "chain_ok l" "link_action l = Some InputAction"
  shows "\<exists>l'. link_step A B SpliceInputDone l = Some l' \<and> chain_ok l'"
proof -
  note c = chain_okD [OF assms(1)]
  obtain s where s: "lk_splice l = Some s" "ps_action s = Some InputAction" using assms(2) by (auto simp: link_action_def bind_eq_Some_conv)
  have b: "ps_callback s" "lk_pending l = Some (event_of Done)" "\<not> listeningA (lk_source l)" "endedB (lk_sink l) \<longleftrightarrow> ps_source_eos s"
    "ps_source_eos s \<longrightarrow> endedA (lk_source l) \<and> heldA (lk_source l) = []" "lk_splice_action l"
    using c(4) s by simp_all
  show ?thesis
  proof (cases "ps_source_eos s")
    case True
    let ?l = "l\<lparr>lk_pending := None, lk_splice := Some (s\<lparr>ps_action := Some (CallbackAction (event_of EOS)), ps_callback := False\<rparr>)\<rparr>"
    have "link_step A B SpliceInputDone l = Some ?l" using True s b
      by (simp add: pipe_splice_input_complete_def pipe_splice_report_def link_call_def)
    moreover have "chain_ok ?l"
      by (rule chain_okI) (use c b True in \<open>simp_all\<close>)
    ultimately show ?thesis by blast
  next
    case False
    obtain e p where p: "po_outp A (lk_source l) = Some (e, p)" "okA p" "endedA p \<longleftrightarrow> endedA (lk_source l)"
      "case e of None \<Rightarrow> listeningA p \<and> heldA p = heldA (lk_source l)
        | Some e \<Rightarrow> \<not> listeningA p \<and> pipe_delivers heldA endedA (lk_source l) e p"
      using src.outp_ok [OF c(1) b(3)] by blast
    let ?l = "l\<lparr>lk_splice := Some (s\<lparr>ps_action := Some OutputAction\<rparr>), lk_source := p, lk_pending := e\<rparr>"
    have step: "link_step A B SpliceInputDone l = Some ?l" using False s b p(1)
      by (cases l) (simp add: pipe_splice_input_complete_def link_call_def)
    have data: "event_data e @ heldA p = heldA (lk_source l)" using p(4) by (cases e) (auto simp: pipe_delivers_def)
    have between: "chain_between ?l" using b False p(3,4) by (cases e) (auto simp: pipe_delivers_def)
    have "chain_ok ?l"
      by (rule chain_okI) (use c b(2) p(2,3) data between in \<open>simp_all\<close>)
    then show ?thesis using step by blast
  qed
qed

lemma splice_done_ok:
  assumes "chain_ok l" "link_action l = Some (CallbackAction e)"
  shows "\<exists>l'. link_step A B SpliceDone l = Some l' \<and> chain_ok l'"
proof -
  note c = chain_okD [OF assms(1)]
  obtain s where s: "lk_splice l = Some s" "ps_action s = Some (CallbackAction e)"
    using assms(2) by (auto simp: link_action_def bind_eq_Some_conv)
  have b: "e = event_of EOS" "lk_pending l = None" "lk_splice_action l" "endedB (lk_sink l)" "endedA (lk_source l)" "heldA (lk_source l) = []"
    using c(4) s by simp_all
  let ?l = "l\<lparr>lk_splice_action := False, lk_splice := None\<rparr>"
  have "link_step A B SpliceDone l = Some ?l" using assms(2) b s(1) by (simp add: link_splice_complete_def pipe_splice_cancel_def)
  moreover have "chain_ok ?l" by (rule chain_okI) (use c b in \<open>simp_all\<close>)
  ultimately show ?thesis by blast
qed

lemma chain_step_ok:
  assumes "chain_ok l" "link_enabled A B endedA listeningB c l"
  shows "\<exists>l'. link_step A B c l = Some l' \<and> chain_ok l'"
proof (cases c)
  case (LinkPut b) then show ?thesis using assms put_ok by simp
next
  case LinkListen then show ?thesis using assms listen_ok by simp
next
  case LinkDeliver then show ?thesis using assms deliver_ok by simp
next
  case SpliceOutputDone then show ?thesis using assms splice_output_ok by simp
next
  case SpliceInputDone then show ?thesis using assms splice_input_ok by simp
next
  case SpliceDone then show ?thesis using assms splice_done_ok by (auto split: option.splits pipe_splice_action.splits)
qed

lemma chain_run_ok:
  assumes "chain_ok l" "link_runnable A B endedA listeningB cs l"
  shows "\<exists>l'. link_run A B cs l = Some l' \<and> chain_ok l'"
  using assms
proof (induction cs arbitrary: l)
  case (Cons c cs)
  then have "link_enabled A B endedA listeningB c l" by simp
  from chain_step_ok [OF Cons.prems(1) this] obtain l' where "link_step A B c l = Some l'" "chain_ok l'" by blast
  then show ?case using Cons by simp
qed simp

lemma chain_new_ok:
  assumes "okA a" "heldA a = []" "\<not> endedA a" "\<not> listeningA a" "okB b" "heldB b = []" "\<not> endedB b"
  shows "\<exists>l. link_new A B a b = Some l \<and> chain_ok l"
proof -
  obtain e p where p: "po_outp A a = Some (e, p)" "okA p" "endedA p \<longleftrightarrow> endedA a"
    "case e of None \<Rightarrow> listeningA p \<and> heldA p = heldA a | Some e \<Rightarrow> \<not> listeningA p \<and> pipe_delivers heldA endedA a e p"
    using src.outp_ok [OF assms(1,4)] by blast
  let ?l = "\<lparr>lk_source = p, lk_sink = b, lk_splice = Some (pipe_splice_new\<lparr>ps_action := Some OutputAction, ps_callback := True\<rparr>),
    lk_splice_action = True, lk_splice_error = False, lk_pending = e, lk_out = None, lk_put = [], lk_got = [], lk_eos = False,
    lk_passed = [], lk_passed_eos = False, lk_given = [], lk_given_eos = False, lk_failed = False\<rparr>"
  have "link_new A B a b = Some ?l" using p(1) by (simp add: link_new_def pipe_splice_start_def pipe_splice_new_def link_call_def)
  moreover have "event_data e = []" "heldA p = []" using p(4) assms(2) by (cases e; simp add: pipe_delivers_def)+
  moreover have "chain_between ?l" using p(3,4) assms by (cases e) (auto simp: pipe_splice_new_def pipe_delivers_def)
  ultimately show ?thesis using p(2) assms by (intro exI [of _ ?l] conjI chain_okI) simp_all
qed

text \<open>As long as the consumer waits for something that has been put in, something can happen.\<close>

lemma chain_not_stuck:
  assumes "chain_ok l" "lk_out l \<noteq> None \<or> listeningB (lk_sink l)" "lk_put l \<noteq> lk_got l \<or> endedA (lk_source l)"
  shows "\<exists>c. (\<forall>b. c \<noteq> LinkPut b) \<and> link_enabled A B endedA listeningB c l"
proof (cases "take_event (lk_out l) (po_fire B) (lk_sink l) = None")
  case False
  then show ?thesis using assms(2) by (intro exI [of _ LinkDeliver]) simp
next
  case True
  note c = chain_okD [OF assms(1)]
  from True have out: "lk_out l = None" "po_fire B (lk_sink l) = None" by (auto simp: take_event_def split: option.splits)
  then have sink: "heldB (lk_sink l) = []" "\<not> endedB (lk_sink l)" using snk.fire_ready [OF c(2)] assms(2) by auto
  then obtain s where s: "lk_splice l = Some s" using c(4) by (cases "lk_splice l") auto
  have "ps_action s \<noteq> None" using c(4) s by (cases "ps_action s") auto
  then consider (o) "ps_action s = Some OutputAction" | (i) "ps_action s = Some InputAction" | (c) e where "ps_action s = Some (CallbackAction e)"
    by (metis option.exhaust pipe_splice_action.exhaust)
  then show ?thesis
  proof cases
    case o
    have "take_event (lk_pending l) (po_fire A) (lk_source l) \<noteq> None"
    proof (cases "lk_pending l")
      case None
      then have "listeningA (lk_source l)" using o s c(4) by simp
      moreover have "heldA (lk_source l) \<noteq> [] \<or> endedA (lk_source l)" using None sink out(1) c(6) assms(3) by auto
      ultimately show ?thesis using None src.fire_ready [OF c(1)] by (simp add: take_event_def)
    qed (simp add: take_event_def)
    then show ?thesis using o s by (intro exI [of _ SpliceOutputDone]) (simp add: link_action_def)
  next
    case i
    then have "lk_pending l \<noteq> None" using s c(4) by simp
    then show ?thesis using i s by (intro exI [of _ SpliceInputDone]) (simp add: link_action_def)
  next
    case c
    then show ?thesis using s by (intro exI [of _ SpliceDone]) (simp add: link_action_def)
  qed
qed

end

interpretation nulls: linked_pipes pipe_null_ops pipe_null_ok undelivered pp_output_eos pipe_listening
  pipe_null_ops pipe_null_ok undelivered pp_output_eos pipe_listening
  by unfold_locales

interpretation swallow: joined_pipes pipe_null_ops pipe_null_ok pp_output_eos pipe_listening
  pipe_sink_ops pipe_sink_ok pp_output_eos pipe_listening
  by unfold_locales

section \<open>The property of a PipeLink\<close>

text \<open>Two PipeNulls linked hand on what they are given.\<close>

lemma pipe_link_through_nulls:
  assumes "link_new pipe_null_ops pipe_null_ops pipe_producer_new pipe_producer_new = Some l"
    and "link_runnable pipe_null_ops pipe_null_ops pp_output_eos pipe_listening cs l"
  shows "\<exists>l' rest. link_run pipe_null_ops pipe_null_ops cs l = Some l' \<and> lk_put l' = lk_got l' @ rest \<and>
    (lk_eos l' \<longrightarrow> rest = [] \<and> pp_output_eos (lk_source l')) \<and>
    ((lk_out l' \<noteq> None \<or> pipe_listening (lk_sink l')) \<and> (rest \<noteq> [] \<or> pp_output_eos (lk_source l')) \<longrightarrow>
      (\<exists>c. (\<forall>b. c \<noteq> LinkPut b) \<and> link_enabled pipe_null_ops pipe_null_ops pp_output_eos pipe_listening c l'))"
proof -
  have "\<exists>l. link_new pipe_null_ops pipe_null_ops pipe_producer_new pipe_producer_new = Some l \<and> nulls.chain_ok l"
    by (rule nulls.chain_new_ok) (simp_all add: pipe_null_ok_def pipe_wf_def undelivered_def pipe_listening_def pipe_producer_new_def)
  then have "nulls.chain_ok l" using assms(1) by auto
  then obtain l' where l': "link_run pipe_null_ops pipe_null_ops cs l = Some l'" "nulls.chain_ok l'"
    using nulls.chain_run_ok assms(2) by blast
  then obtain rest where rest: "lk_put l' = lk_got l' @ rest" by (auto simp: nulls.chain_ok_def)
  then have "lk_eos l' \<longrightarrow> rest = [] \<and> pp_output_eos (lk_source l')" using l'(2) by (auto simp: nulls.chain_ok_def)
  then show ?thesis using l' rest nulls.chain_not_stuck [OF l'(2)] by (intro exI [of _ l'] exI [of _ rest]) auto
qed




end
