(* ===== verification/IO_Handle.thy ===== *)
theory IO_Handle
  imports Pipe_Producer
begin

text \<open>
  class IOSystem and its Handle (io/io_system.h, io_system.cc, io_system_handle.cc): reads and
  writes on a file descriptor that complete later.  What a system call returns is an
  argument of the operation that makes it.  An Action of the handle is either the poll for
  readiness or the Event that its callback is scheduled with.
\<close>

section \<open>State\<close>

datatype read_result = ReadData bytes | ReadEOF | ReadAgain | ReadError int
datatype write_result = WriteCount nat | WriteAgain | WriteError int

datatype io_action = Polling | Scheduled event

record io_handle =
  ih_fd :: int
  ih_owner :: nat
  ih_read_offset :: int
  ih_read_amount :: nat
  ih_read_buffer :: bytes
  ih_read_callback :: bool
  ih_read_action :: "io_action option"
  ih_write_offset :: int
  ih_write_buffer :: bytes
  ih_write_callback :: bool
  ih_write_action :: "io_action option"

definition io_handle_new :: "int \<Rightarrow> nat \<Rightarrow> io_handle" where
  "io_handle_new fd owner = \<lparr>ih_fd = fd, ih_owner = owner, ih_read_offset = -1, ih_read_amount = 0, ih_read_buffer = [],
     ih_read_callback = False, ih_read_action = None, ih_write_offset = -1, ih_write_buffer = [],
     ih_write_callback = False, ih_write_action = None\<rparr>"

definition event_full :: "event_type \<Rightarrow> int \<Rightarrow> bytes \<Rightarrow> event" where
  "event_full t err buf = \<lparr>ev_type = t, ev_error = err, ev_buffer = buf\<rparr>"

section \<open>Closing\<close>

text \<open>A failed \<^verbatim>\<open>close\<close> is only logged.\<close>

definition handle_close_do :: "io_handle \<Rightarrow> io_handle option" where
  "handle_close_do h = do { assert_that (ih_fd h \<noteq> -1); Some (h\<lparr>ih_fd := -1\<rparr>) }"

section \<open>Reading\<close>

text \<open>Returns the Event the callback is scheduled with, if any.\<close>

definition handle_read_deliver :: "io_handle \<Rightarrow> (event option \<times> io_handle) option" where
  "handle_read_deliver h = do {
     let amount = (if ih_read_amount h = 0 then length (ih_read_buffer h) else ih_read_amount h);
     data \<leftarrow> buf_append_len [] (ih_read_buffer h) amount;
     assert_that (ih_read_callback h);
     buffer \<leftarrow> buf_skip amount (ih_read_buffer h);
     Some (Some (event_with Done data), h\<lparr>ih_read_callback := False, ih_read_buffer := buffer, ih_read_amount := 0\<rparr>) }"

definition handle_read_stop :: "event_type \<Rightarrow> int \<Rightarrow> io_handle \<Rightarrow> (event option \<times> io_handle) option" where
  "handle_read_stop t err h = do {
     assert_that (ih_read_callback h);
     Some (Some (event_full t err (ih_read_buffer h)),
           h\<lparr>ih_read_callback := False, ih_read_buffer := [], ih_read_amount := 0\<rparr>) }"

definition handle_read_do :: "read_result \<Rightarrow> io_handle \<Rightarrow> (event option \<times> io_handle) option" where
  "handle_read_do r h = do {
     assert_that (ih_read_action h = None);
     (if ih_read_buffer h \<noteq> [] \<and> ih_read_amount h \<le> length (ih_read_buffer h) then handle_read_deliver h
      else case r of
        ReadAgain \<Rightarrow> Some (None, h)
      | ReadError err \<Rightarrow> handle_read_stop Error err h
      | ReadEOF \<Rightarrow> handle_read_stop EOS 0 h
      | ReadData d \<Rightarrow> do {
          let h = (if ih_read_offset h = -1 then h else h\<lparr>ih_read_offset := ih_read_offset h + int (length d)\<rparr>);
          buffer \<leftarrow> buf_append_bytes (ih_read_buffer h) d;
          let h = h\<lparr>ih_read_buffer := buffer\<rparr>;
          (if ih_read_buffer h \<noteq> [] \<and> ih_read_amount h \<le> length (ih_read_buffer h) then handle_read_deliver h
           else Some (None, h)) }) }"

definition handle_read_schedule :: "io_handle \<Rightarrow> io_handle option" where
  "handle_read_schedule h = do { assert_that (ih_read_action h = None); Some (h\<lparr>ih_read_action := Some Polling\<rparr>) }"

definition handle_read_callback :: "event \<Rightarrow> read_result \<Rightarrow> io_handle \<Rightarrow> io_handle option" where
  "handle_read_callback e r h = do {
     assert_that (ih_read_action h \<noteq> None);
     let h = h\<lparr>ih_read_action := None\<rparr>;
     (case ev_type e of
        Error \<Rightarrow> do {
          assert_that (ih_read_callback h);
          Some (h\<lparr>ih_read_action := Some (Scheduled e), ih_read_callback := False\<rparr>) }
      | Invalid \<Rightarrow> None
      | _ \<Rightarrow> do {
          (a, h) \<leftarrow> handle_read_do r h;
          (case a of Some e \<Rightarrow> Some (h\<lparr>ih_read_action := Some (Scheduled e)\<rparr>) | None \<Rightarrow> handle_read_schedule h) }) }"

definition handle_read_cancel :: "io_handle \<Rightarrow> io_handle option" where
  "handle_read_cancel h = do {
     assert_that (ih_read_action h \<noteq> None);
     Some (h\<lparr>ih_read_action := None, ih_read_callback := False\<rparr>) }"

section \<open>Writing\<close>

text \<open>\<^verbatim>\<open>fill_iovec\<close> gives at least one segment of a Buffer that is not empty.\<close>

definition handle_write_do :: "write_result \<Rightarrow> io_handle \<Rightarrow> (event option \<times> io_handle) option" where
  "handle_write_do r h = do {
     assert_that (ih_write_buffer h \<noteq> []);
     (case r of
        WriteAgain \<Rightarrow> Some (None, h)
      | WriteError err \<Rightarrow> do {
          assert_that (ih_write_callback h);
          Some (Some (event_error Error err), h\<lparr>ih_write_callback := False\<rparr>) }
      | WriteCount n \<Rightarrow> do {
          let h = (if ih_write_offset h = -1 \<or> n = 0 then h else h\<lparr>ih_write_offset := ih_write_offset h + int n\<rparr>);
          buffer \<leftarrow> buf_skip n (ih_write_buffer h);
          let h = h\<lparr>ih_write_buffer := buffer\<rparr>;
          (if buffer = [] then do {
             assert_that (ih_write_callback h);
             Some (Some (event_of Done), h\<lparr>ih_write_callback := False\<rparr>) }
           else Some (None, h)) }) }"

definition handle_write_schedule :: "io_handle \<Rightarrow> io_handle option" where
  "handle_write_schedule h = do { assert_that (ih_write_action h = None); Some (h\<lparr>ih_write_action := Some Polling\<rparr>) }"

definition handle_write_callback :: "event \<Rightarrow> write_result \<Rightarrow> io_handle \<Rightarrow> io_handle option" where
  "handle_write_callback e r h = do {
     assert_that (ih_write_action h \<noteq> None);
     let h = h\<lparr>ih_write_action := None\<rparr>;
     (case ev_type e of
        Done \<Rightarrow> do {
          (a, h) \<leftarrow> handle_write_do r h;
          (case a of Some e \<Rightarrow> Some (h\<lparr>ih_write_action := Some (Scheduled e)\<rparr>) | None \<Rightarrow> handle_write_schedule h) }
      | Error \<Rightarrow> do {
          assert_that (ih_write_callback h);
          Some (h\<lparr>ih_write_action := Some (Scheduled e), ih_write_callback := False\<rparr>) }
      | _ \<Rightarrow> None) }"

definition handle_write_cancel :: "io_handle \<Rightarrow> io_handle option" where
  "handle_write_cancel h = do {
     assert_that (ih_write_action h \<noteq> None);
     Some (h\<lparr>ih_write_action := None, ih_write_callback := False\<rparr>) }"

section \<open>class IOSystem\<close>

type_synonym io_system = "int \<times> nat \<rightharpoonup> io_handle"

definition io_attach :: "int \<Rightarrow> nat \<Rightarrow> io_system \<Rightarrow> io_system option" where
  "io_attach fd owner m = do {
     assert_that (m (fd, owner) = None);
     Some (m((fd, owner) \<mapsto> io_handle_new fd owner)) }"

text \<open>The assertions of the destructor of the handle are part of \<^verbatim>\<open>detach\<close>.\<close>

definition io_detach :: "int \<Rightarrow> nat \<Rightarrow> io_system \<Rightarrow> io_system option" where
  "io_detach fd owner m = do {
     h \<leftarrow> m (fd, owner);
     assert_that (ih_owner h = owner);
     assert_that (ih_fd h = -1);
     assert_that (ih_read_action h = None);
     assert_that (\<not> ih_read_callback h);
     assert_that (ih_write_action h = None);
     assert_that (\<not> ih_write_callback h);
     Some (m((fd, owner) := None)) }"

definition io_close :: "int \<Rightarrow> nat \<Rightarrow> io_system \<Rightarrow> io_system option" where
  "io_close fd owner m = do {
     h \<leftarrow> m (fd, owner);
     assert_that (\<not> ih_read_callback h);
     assert_that (ih_read_action h = None);
     assert_that (\<not> ih_write_callback h);
     assert_that (ih_write_action h = None);
     assert_that (ih_fd h \<noteq> -1);
     h \<leftarrow> handle_close_do h;
     Some (m((fd, owner) \<mapsto> h)) }"

text \<open>Return the Event that is scheduled at once, if any; otherwise the descriptor is polled.\<close>

definition handle_read :: "int \<Rightarrow> nat \<Rightarrow> read_result \<Rightarrow> io_handle \<Rightarrow> (event option \<times> io_handle) option" where
  "handle_read offset amount r h = do {
     assert_that (\<not> ih_read_callback h);
     assert_that (ih_read_action h = None);
     assert_that (offset = -1 \<or> amount \<noteq> 0);
     let h = (if offset \<noteq> -1 then h\<lparr>ih_read_buffer := []\<rparr> else h);
     (a, h) \<leftarrow> handle_read_do r (h\<lparr>ih_read_offset := offset, ih_read_amount := amount, ih_read_callback := True\<rparr>);
     assert_that (ih_read_action h = None);
     (case a of
        None \<Rightarrow> do { assert_that (ih_read_callback h); h \<leftarrow> handle_read_schedule h; Some (None, h) }
      | Some e \<Rightarrow> do { assert_that (\<not> ih_read_callback h); Some (Some e, h) }) }"

definition io_read :: "int \<Rightarrow> nat \<Rightarrow> int \<Rightarrow> nat \<Rightarrow> read_result \<Rightarrow> io_system \<Rightarrow> (event option \<times> io_system) option" where
  "io_read fd owner offset amount r m = do {
     h \<leftarrow> m (fd, owner);
     (e, h) \<leftarrow> handle_read offset amount r h;
     Some (e, m((fd, owner) \<mapsto> h)) }"

definition handle_write :: "int \<Rightarrow> bytes \<Rightarrow> write_result \<Rightarrow> io_handle \<Rightarrow> (event option \<times> io_handle) option" where
  "handle_write offset buffer r h = do {
     assert_that (\<not> ih_write_callback h);
     assert_that (ih_write_action h = None);
     assert_that (ih_write_buffer h = []);
     assert_that (buffer \<noteq> []);
     (a, h) \<leftarrow> handle_write_do r (h\<lparr>ih_write_buffer := buffer, ih_write_offset := offset, ih_write_callback := True\<rparr>);
     assert_that (ih_write_action h = None);
     (case a of
        None \<Rightarrow> do { assert_that (ih_write_callback h); h \<leftarrow> handle_write_schedule h; Some (None, h) }
      | Some e \<Rightarrow> do { assert_that (\<not> ih_write_callback h); Some (Some e, h) }) }"

definition io_write :: "int \<Rightarrow> nat \<Rightarrow> int \<Rightarrow> bytes \<Rightarrow> write_result \<Rightarrow> io_system \<Rightarrow> (event option \<times> io_system) option" where
  "io_write fd owner offset buffer r m = do {
     h \<leftarrow> m (fd, owner);
     (e, h) \<leftarrow> handle_write offset buffer r h;
     Some (e, m((fd, owner) \<mapsto> h)) }"

section \<open>A handle and the one who uses it\<close>

text \<open>
  The user calls \<^verbatim>\<open>read\<close> and \<^verbatim>\<open>write\<close> on a stream, the descriptor becomes ready, and scheduled Events are
  delivered; whoever gets an Event cancels its Action.  \<open>ic_from_os\<close> and \<open>ic_to_os\<close> are the bytes
  that the system calls have returned and taken, \<open>ic_read\<close> the Events delivered with the amount that
  was asked for, and \<open>ic_sent\<close> the bytes handed to \<^verbatim>\<open>write\<close>.
\<close>

record io_client =
  ic_handle :: io_handle
  ic_want :: nat
  ic_read_event :: "event option"
  ic_read :: "(nat \<times> event) list"
  ic_from_os :: bytes
  ic_write_event :: "event option"
  ic_written :: "event list"
  ic_sent :: bytes
  ic_to_os :: bytes

definition io_client_new :: "int \<Rightarrow> nat \<Rightarrow> io_client" where
  "io_client_new fd owner = \<lparr>ic_handle = io_handle_new fd owner, ic_want = 0, ic_read_event = None, ic_read = [], ic_from_os = [],
     ic_write_event = None, ic_written = [], ic_sent = [], ic_to_os = []\<rparr>"

datatype io_cmd = UserRead nat read_result | Readable event read_result | ReadDelivered
  | UserWrite bytes write_result | Writable event write_result | WriteDelivered

text \<open>The system call is made when the buffer does not hold enough.\<close>

definition read_enough :: "nat \<Rightarrow> bytes \<Rightarrow> bool" where
  "read_enough amount buffer \<longleftrightarrow> buffer \<noteq> [] \<and> amount \<le> length buffer"

definition read_taken :: "nat \<Rightarrow> bytes \<Rightarrow> read_result \<Rightarrow> bytes" where
  "read_taken amount buffer r = (if read_enough amount buffer then [] else case r of ReadData d \<Rightarrow> d | _ \<Rightarrow> [])"

definition write_taken :: "bytes \<Rightarrow> write_result \<Rightarrow> bytes" where
  "write_taken buffer r = (case r of WriteCount n \<Rightarrow> take n buffer | _ \<Rightarrow> [])"

definition read_result_ok :: "read_result \<Rightarrow> bool" where
  "read_result_ok r \<longleftrightarrow> (case r of ReadData d \<Rightarrow> d \<noteq> [] | _ \<Rightarrow> True)"

definition write_result_ok :: "bytes \<Rightarrow> write_result \<Rightarrow> bool" where
  "write_result_ok buffer r \<longleftrightarrow> (case r of WriteCount n \<Rightarrow> 0 < n \<and> n \<le> length buffer | _ \<Rightarrow> True)"

definition scheduled :: "event option \<Rightarrow> io_action option \<Rightarrow> event option" where
  "scheduled direct a = (case direct of Some e \<Rightarrow> Some e | None \<Rightarrow> (case a of Some (Scheduled e) \<Rightarrow> Some e | _ \<Rightarrow> None))"

fun io_enabled :: "io_cmd \<Rightarrow> io_client \<Rightarrow> bool" where
  "io_enabled (UserRead n r) c \<longleftrightarrow> ic_read_event c = None \<and> ih_read_action (ic_handle c) = None \<and> read_result_ok r"
| "io_enabled (Readable e r) c \<longleftrightarrow> ih_read_action (ic_handle c) = Some Polling \<and> ev_type e \<noteq> Invalid \<and> ev_buffer e = [] \<and> read_result_ok r"
| "io_enabled ReadDelivered c \<longleftrightarrow> scheduled (ic_read_event c) (ih_read_action (ic_handle c)) \<noteq> None"
| "io_enabled (UserWrite b r) c \<longleftrightarrow> ic_write_event c = None \<and> ih_write_action (ic_handle c) = None \<and>
     ih_write_buffer (ic_handle c) = [] \<and> b \<noteq> [] \<and> write_result_ok b r"
| "io_enabled (Writable e r) c \<longleftrightarrow> ih_write_action (ic_handle c) = Some Polling \<and> (ev_type e = Done \<or> ev_type e = Error) \<and>
     write_result_ok (ih_write_buffer (ic_handle c)) r"
| "io_enabled WriteDelivered c \<longleftrightarrow> scheduled (ic_write_event c) (ih_write_action (ic_handle c)) \<noteq> None"

fun io_step :: "io_cmd \<Rightarrow> io_client \<Rightarrow> io_client option" where
  "io_step (UserRead n r) c = do {
     (e, h) \<leftarrow> handle_read (-1) n r (ic_handle c);
     Some (c\<lparr>ic_handle := h, ic_want := n, ic_read_event := e,
             ic_from_os := ic_from_os c @ read_taken n (ih_read_buffer (ic_handle c)) r\<rparr>) }"
| "io_step (Readable e r) c = do {
     h \<leftarrow> handle_read_callback e r (ic_handle c);
     Some (c\<lparr>ic_handle := h, ic_from_os := ic_from_os c @
       (if ev_type e = Error then [] else read_taken (ih_read_amount (ic_handle c)) (ih_read_buffer (ic_handle c)) r)\<rparr>) }"
| "io_step ReadDelivered c =
     (case ic_read_event c of
        Some e \<Rightarrow> Some (c\<lparr>ic_read_event := None, ic_read := ic_read c @ [(ic_want c, e)]\<rparr>)
      | None \<Rightarrow> do {
          e \<leftarrow> scheduled None (ih_read_action (ic_handle c));
          h \<leftarrow> handle_read_cancel (ic_handle c);
          Some (c\<lparr>ic_handle := h, ic_read := ic_read c @ [(ic_want c, e)]\<rparr>) })"
| "io_step (UserWrite b r) c = do {
     (e, h) \<leftarrow> handle_write (-1) b r (ic_handle c);
     Some (c\<lparr>ic_handle := h, ic_write_event := e, ic_sent := ic_sent c @ b, ic_to_os := ic_to_os c @ write_taken b r\<rparr>) }"
| "io_step (Writable e r) c = do {
     h \<leftarrow> handle_write_callback e r (ic_handle c);
     Some (c\<lparr>ic_handle := h, ic_to_os := ic_to_os c @
       (if ev_type e = Error then [] else write_taken (ih_write_buffer (ic_handle c)) r)\<rparr>) }"
| "io_step WriteDelivered c =
     (case ic_write_event c of
        Some e \<Rightarrow> Some (c\<lparr>ic_write_event := None, ic_written := ic_written c @ [e]\<rparr>)
      | None \<Rightarrow> do {
          e \<leftarrow> scheduled None (ih_write_action (ic_handle c));
          h \<leftarrow> handle_write_cancel (ic_handle c);
          Some (c\<lparr>ic_handle := h, ic_written := ic_written c @ [e]\<rparr>) })"

fun io_run :: "io_cmd list \<Rightarrow> io_client \<Rightarrow> io_client option" where
  "io_run [] c = Some c"
| "io_run (x # xs) c = do { c \<leftarrow> io_step x c; io_run xs c }"

fun io_runnable :: "io_cmd list \<Rightarrow> io_client \<Rightarrow> bool" where
  "io_runnable [] c \<longleftrightarrow> True"
| "io_runnable (x # xs) c \<longleftrightarrow> io_enabled x c \<and> (case io_step x c of Some c \<Rightarrow> io_runnable xs c | None \<Rightarrow> True)"

section \<open>Invariants\<close>

text \<open>A read of \<open>want\<close> bytes gives exactly as many, or any number but none if \<open>want\<close> is 0; the end of the
  stream and errors come with fewer.\<close>

definition read_event_ok :: "nat \<Rightarrow> event \<Rightarrow> bool" where
  "read_event_ok want e \<longleftrightarrow>
     (if ev_type e = Done then (if want = 0 then ev_buffer e \<noteq> [] else length (ev_buffer e) = want)
      else (ev_type e = EOS \<or> ev_type e = Error) \<and> (if want = 0 then ev_buffer e = [] else length (ev_buffer e) < want))"

definition reading_ok :: "nat \<Rightarrow> event option \<Rightarrow> io_handle \<Rightarrow> bool" where
  "reading_ok want direct h \<longleftrightarrow>
     (case direct of
        Some e \<Rightarrow> \<not> ih_read_callback h \<and> ih_read_action h = None \<and> read_event_ok want e
      | None \<Rightarrow>
          (case ih_read_action h of
             None \<Rightarrow> \<not> ih_read_callback h
           | Some Polling \<Rightarrow> ih_read_callback h \<and> ih_read_amount h = want \<and> ih_read_offset h = -1 \<and>
               \<not> read_enough want (ih_read_buffer h)
           | Some (Scheduled e) \<Rightarrow> \<not> ih_read_callback h \<and> read_event_ok want e))"

definition event_bytes :: "event option \<Rightarrow> bytes" where
  "event_bytes e = (case e of Some e \<Rightarrow> ev_buffer e | None \<Rightarrow> [])"

definition writing_ok :: "event option \<Rightarrow> io_handle \<Rightarrow> bool" where
  "writing_ok direct h \<longleftrightarrow>
     (case direct of
        Some e \<Rightarrow> \<not> ih_write_callback h \<and> ih_write_action h = None \<and> (ev_type e = Done \<and> ih_write_buffer h = [] \<or> ev_type e = Error)
      | None \<Rightarrow>
          (case ih_write_action h of
             None \<Rightarrow> \<not> ih_write_callback h
           | Some Polling \<Rightarrow> ih_write_callback h \<and> ih_write_buffer h \<noteq> [] \<and> ih_write_offset h = -1
           | Some (Scheduled e) \<Rightarrow> \<not> ih_write_callback h \<and> (ev_type e = Done \<and> ih_write_buffer h = [] \<or> ev_type e = Error)))"

definition io_ok :: "io_client \<Rightarrow> bool" where
  "io_ok c \<longleftrightarrow> reading_ok (ic_want c) (ic_read_event c) (ic_handle c) \<and> writing_ok (ic_write_event c) (ic_handle c) \<and>
     ic_from_os c = concat (map (ev_buffer \<circ> snd) (ic_read c)) @
       event_bytes (scheduled (ic_read_event c) (ih_read_action (ic_handle c))) @ ih_read_buffer (ic_handle c) \<and>
     (\<forall>(want, e)\<in>set (ic_read c). read_event_ok want e) \<and>
     ic_sent c = ic_to_os c @ ih_write_buffer (ic_handle c)"

text \<open>The work of a read: an Event with what was asked for, or not enough yet.\<close>

definition read_done :: "nat \<Rightarrow> bytes \<Rightarrow> io_handle \<Rightarrow> event option \<Rightarrow> io_handle \<Rightarrow> bool" where
  "read_done want input h e h' \<longleftrightarrow> ih_read_action h' = None \<and> input = event_bytes e @ ih_read_buffer h' \<and>
     ih_write_action h' = ih_write_action h \<and> ih_write_callback h' = ih_write_callback h \<and>
     ih_write_buffer h' = ih_write_buffer h \<and> ih_write_offset h' = ih_write_offset h \<and>
     (case e of None \<Rightarrow> ih_read_callback h' \<and> ih_read_amount h' = want \<and> ih_read_offset h' = -1 \<and> \<not> read_enough want (ih_read_buffer h')
      | Some e \<Rightarrow> \<not> ih_read_callback h' \<and> read_event_ok want e)"

lemma read_deliver_ok:
  assumes "ih_read_callback h" "ih_read_action h = None" "ih_read_amount h = want" "read_enough want (ih_read_buffer h)"
  shows "\<exists>e h'. handle_read_deliver h = Some (e, h') \<and> read_done want (ih_read_buffer h) h e h'"
  using assms by (cases "want = 0")
    (auto simp: handle_read_deliver_def read_done_def read_enough_def buf_simps event_bytes_def read_event_ok_def Let_def)

lemma read_do_ok:
  assumes "ih_read_action h = None" "ih_read_callback h" "ih_read_amount h = want" "ih_read_offset h = -1" "read_result_ok r"
  shows "\<exists>e h'. handle_read_do r h = Some (e, h') \<and>
    read_done want (ih_read_buffer h @ read_taken want (ih_read_buffer h) r) h e h'"
proof (cases "read_enough want (ih_read_buffer h)")
  case True
  then have "handle_read_do r h = handle_read_deliver h" using assms by (simp add: handle_read_do_def read_enough_def)
  then show ?thesis using True read_deliver_ok [OF assms(2,1,3)] by (simp add: read_taken_def)
next
  case False
  then have work: "handle_read_do r h = (case r of ReadAgain \<Rightarrow> Some (None, h) | ReadError err \<Rightarrow> handle_read_stop Error err h
      | ReadEOF \<Rightarrow> handle_read_stop EOS 0 h
      | ReadData d \<Rightarrow> do {
          buffer \<leftarrow> buf_append_bytes (ih_read_buffer h) d;
          (if read_enough want buffer then handle_read_deliver (h\<lparr>ih_read_buffer := buffer\<rparr>)
           else Some (None, h\<lparr>ih_read_buffer := buffer\<rparr>)) })"
    using assms by (cases r) (auto simp: handle_read_do_def read_enough_def Let_def)
  have stop: "\<exists>e h'. handle_read_stop t err h = Some (e, h') \<and> read_done want (ih_read_buffer h) h e h'" if "t = EOS \<or> t = Error" for t err
    using that False assms
    by (cases "want = 0") (auto simp: handle_read_stop_def read_done_def read_enough_def event_bytes_def event_full_def read_event_ok_def)
  show ?thesis
  proof (cases r)
    case (ReadData d)
    let ?h = "h\<lparr>ih_read_buffer := ih_read_buffer h @ d\<rparr>"
    have d: "d \<noteq> []" using assms(5) ReadData by (simp add: read_result_ok_def)
    show ?thesis
    proof (cases "read_enough want (ih_read_buffer h @ d)")
      case True
      have "\<exists>e h'. handle_read_deliver ?h = Some (e, h') \<and> read_done want (ih_read_buffer ?h) ?h e h'"
        using True assms by (intro read_deliver_ok) simp_all
      then show ?thesis unfolding work using True False ReadData d by (simp add: read_taken_def buf_simps read_done_def)
    next
      case no: False
      then show ?thesis unfolding work using False ReadData d assms
        by (simp add: read_taken_def buf_simps read_done_def event_bytes_def)
    qed
  next
    case ReadAgain
    then show ?thesis unfolding work using False assms by (simp add: read_taken_def read_done_def event_bytes_def)
  next
    case ReadEOF
    then show ?thesis unfolding work using False stop [of EOS 0] by (simp add: read_taken_def)
  next
    case (ReadError err)
    then show ?thesis unfolding work using False stop [of Error err] by (simp add: read_taken_def)
  qed
qed

lemma write_do_ok:
  assumes "ih_write_buffer h \<noteq> []" "ih_write_callback h" "ih_write_offset h = -1" "write_result_ok (ih_write_buffer h) r"
  shows "\<exists>e h'. handle_write_do r h = Some (e, h') \<and> ih_write_action h' = ih_write_action h \<and>
    ih_write_buffer h = write_taken (ih_write_buffer h) r @ ih_write_buffer h' \<and>
    ih_read_action h' = ih_read_action h \<and> ih_read_callback h' = ih_read_callback h \<and> ih_read_buffer h' = ih_read_buffer h \<and>
    ih_read_amount h' = ih_read_amount h \<and> ih_read_offset h' = ih_read_offset h \<and>
    (case e of None \<Rightarrow> ih_write_callback h' \<and> ih_write_buffer h' \<noteq> [] \<and> ih_write_offset h' = -1
     | Some e \<Rightarrow> \<not> ih_write_callback h' \<and> (ev_type e = Done \<and> ih_write_buffer h' = [] \<or> ev_type e = Error))"
proof (cases r)
  case (WriteCount n)
  then show ?thesis using assms by (cases "n = length (ih_write_buffer h)")
    (auto simp: handle_write_do_def write_taken_def write_result_ok_def buf_simps Let_def)
next
  case WriteAgain
  then show ?thesis using assms by (simp add: handle_write_do_def write_taken_def)
next
  case (WriteError err)
  then show ?thesis using assms by (simp add: handle_write_do_def write_taken_def event_error_def)
qed


text \<open>The steps.\<close>

lemma io_okD:
  assumes "io_ok c"
  shows "reading_ok (ic_want c) (ic_read_event c) (ic_handle c)" "writing_ok (ic_write_event c) (ic_handle c)"
    "ic_from_os c = concat (map (ev_buffer \<circ> snd) (ic_read c)) @
       event_bytes (scheduled (ic_read_event c) (ih_read_action (ic_handle c))) @ ih_read_buffer (ic_handle c)"
    "\<forall>(want, e)\<in>set (ic_read c). read_event_ok want e" "ic_sent c = ic_to_os c @ ih_write_buffer (ic_handle c)"
  using assms unfolding io_ok_def by blast+

lemma io_okI:
  assumes "reading_ok (ic_want c) (ic_read_event c) (ic_handle c)" "writing_ok (ic_write_event c) (ic_handle c)"
    "ic_from_os c = concat (map (ev_buffer \<circ> snd) (ic_read c)) @
       event_bytes (scheduled (ic_read_event c) (ih_read_action (ic_handle c))) @ ih_read_buffer (ic_handle c)"
    "\<forall>(want, e)\<in>set (ic_read c). read_event_ok want e" "ic_sent c = ic_to_os c @ ih_write_buffer (ic_handle c)"
  shows "io_ok c"
  using assms unfolding io_ok_def by blast

lemma writing_ok_cong:
  "ih_write_action h' = ih_write_action h \<Longrightarrow> ih_write_callback h' = ih_write_callback h \<Longrightarrow>
   ih_write_buffer h' = ih_write_buffer h \<Longrightarrow> ih_write_offset h' = ih_write_offset h \<Longrightarrow> writing_ok d h' = writing_ok d h"
  by (simp add: writing_ok_def split: option.split io_action.split)

lemma reading_ok_cong:
  "ih_read_action h' = ih_read_action h \<Longrightarrow> ih_read_callback h' = ih_read_callback h \<Longrightarrow> ih_read_buffer h' = ih_read_buffer h \<Longrightarrow>
   ih_read_amount h' = ih_read_amount h \<Longrightarrow> ih_read_offset h' = ih_read_offset h \<Longrightarrow> reading_ok want d h' = reading_ok want d h"
  by (simp add: reading_ok_def split: option.split io_action.split)

lemma user_read_ok:
  assumes "io_ok c" "io_enabled (UserRead n r) c"
  shows "\<exists>c'. io_step (UserRead n r) c = Some c' \<and> io_ok c'"
proof -
  note k = io_okD [OF assms(1)]
  let ?h = "(ic_handle c)\<lparr>ih_read_offset := -1, ih_read_amount := n, ih_read_callback := True\<rparr>"
  have en: "ic_read_event c = None" "ih_read_action (ic_handle c) = None" "\<not> ih_read_callback (ic_handle c)" "read_result_ok r"
    using assms(2) k(1) by (auto simp: reading_ok_def)
  obtain e h where h: "handle_read_do r ?h = Some (e, h)"
      "read_done n (ih_read_buffer (ic_handle c) @ read_taken n (ih_read_buffer (ic_handle c)) r) ?h e h"
    using read_do_ok [of ?h n r] en by auto
  let ?g = "if e = None then h\<lparr>ih_read_action := Some Polling\<rparr> else h"
  have step: "io_step (UserRead n r) c = Some (c\<lparr>ic_handle := ?g, ic_want := n, ic_read_event := e,
      ic_from_os := ic_from_os c @ read_taken n (ih_read_buffer (ic_handle c)) r\<rparr>)" (is "_ = Some ?c")
    using h en by (cases e) (auto simp: handle_read_def handle_read_schedule_def read_done_def)
  have "reading_ok n e ?g" using h(2) by (cases e) (auto simp: read_done_def reading_ok_def)
  moreover have "writing_ok (ic_write_event c) ?g"
    using k(2) writing_ok_cong [of ?g "ic_handle c"] h(2) by (auto simp: read_done_def)
  moreover have "ic_from_os ?c = concat (map (ev_buffer \<circ> snd) (ic_read c)) @ event_bytes (scheduled e (ih_read_action ?g)) @ ih_read_buffer ?g"
    using k(3) en h(2) by (cases e) (auto simp: read_done_def scheduled_def event_bytes_def)
  moreover have "ih_write_buffer ?g = ih_write_buffer (ic_handle c)" using h(2) by (simp add: read_done_def)
  ultimately have "io_ok ?c" using k(4,5) by (intro io_okI) simp_all
  then show ?thesis using step by blast
qed

lemma readable_ok:
  assumes "io_ok c" "io_enabled (Readable e r) c"
  shows "\<exists>c'. io_step (Readable e r) c = Some c' \<and> io_ok c'"
proof -
  note k = io_okD [OF assms(1)]
  let ?h = "(ic_handle c)\<lparr>ih_read_action := None\<rparr>"
  have en: "ih_read_action (ic_handle c) = Some Polling" "ev_type e \<noteq> Invalid" "ev_buffer e = []" "read_result_ok r" "ic_read_event c = None"
      "ih_read_callback (ic_handle c)" "ih_read_amount (ic_handle c) = ic_want c" "ih_read_offset (ic_handle c) = -1"
      "\<not> read_enough (ic_want c) (ih_read_buffer (ic_handle c))"
    using assms(2) k(1) by (auto simp: reading_ok_def split: option.splits)
  show ?thesis
  proof (cases "ev_type e = Error")
    case True
    let ?g = "?h\<lparr>ih_read_action := Some (Scheduled e), ih_read_callback := False\<rparr>"
    have "io_step (Readable e r) c = Some (c\<lparr>ic_handle := ?g, ic_from_os := ic_from_os c\<rparr>)" (is "_ = Some ?c")
      using True en by (simp add: handle_read_callback_def)
    moreover have "reading_ok (ic_want c) None ?g" using True en by (simp add: reading_ok_def read_event_ok_def)
    moreover have "writing_ok (ic_write_event c) ?g" using k(2) writing_ok_cong [of ?g "ic_handle c"] by simp
    ultimately show ?thesis using k(3-5) en by (intro exI [of _ ?c] conjI io_okI) (simp_all add: scheduled_def event_bytes_def)
  next
    case False
    obtain v h where h: "handle_read_do r ?h = Some (v, h)"
        "read_done (ic_want c) (ih_read_buffer (ic_handle c) @ read_taken (ic_want c) (ih_read_buffer (ic_handle c)) r) ?h v h"
      using read_do_ok [of ?h "ic_want c" r] en by auto
    let ?g = "h\<lparr>ih_read_action := (case v of Some v \<Rightarrow> Some (Scheduled v) | None \<Rightarrow> Some Polling)\<rparr>"
    have "handle_read_callback e r (ic_handle c) = Some ?g"
      using h False en(1,2) by (cases "ev_type e"; cases v) (auto simp: handle_read_callback_def handle_read_schedule_def read_done_def)
    then have step: "io_step (Readable e r) c = Some (c\<lparr>ic_handle := ?g,
        ic_from_os := ic_from_os c @ read_taken (ic_want c) (ih_read_buffer (ic_handle c)) r\<rparr>)" (is "_ = Some ?c")
      using False en(7) by simp
    have "reading_ok (ic_want c) None ?g" using h(2) by (cases v) (auto simp: read_done_def reading_ok_def)
    moreover have "writing_ok (ic_write_event c) ?g"
      using k(2) writing_ok_cong [of ?g "ic_handle c"] h(2) by (auto simp: read_done_def)
    moreover have "ic_from_os ?c = concat (map (ev_buffer \<circ> snd) (ic_read c)) @ event_bytes (scheduled None (ih_read_action ?g)) @ ih_read_buffer ?g"
      using k(3) en h(2) by (cases v) (auto simp: read_done_def scheduled_def event_bytes_def)
    moreover have "ih_write_buffer ?g = ih_write_buffer (ic_handle c)" using h(2) by (simp add: read_done_def)
    ultimately have "io_ok ?c" using k(4,5) en(5) by (intro io_okI) simp_all
    then show ?thesis using step by blast
  qed
qed

lemma read_delivered_ok:
  assumes "io_ok c" "io_enabled ReadDelivered c"
  shows "\<exists>c'. io_step ReadDelivered c = Some c' \<and> io_ok c'"
proof (cases "ic_read_event c")
  case (Some e)
  note k = io_okD [OF assms(1)]
  let ?c = "c\<lparr>ic_read_event := None, ic_read := ic_read c @ [(ic_want c, e)]\<rparr>"
  have "reading_ok (ic_want c) None (ic_handle c)" "read_event_ok (ic_want c) e" "ih_read_action (ic_handle c) = None"
    using k(1) Some by (auto simp: reading_ok_def)
  then have "io_ok ?c" using k(2-5) Some by (intro io_okI) (auto simp: scheduled_def event_bytes_def)
  then show ?thesis using Some by simp
next
  case None
  note k = io_okD [OF assms(1)]
  obtain e where e: "ih_read_action (ic_handle c) = Some (Scheduled e)" using assms(2) None by (auto simp: scheduled_def split: option.splits io_action.splits)
  let ?g = "(ic_handle c)\<lparr>ih_read_action := None, ih_read_callback := False\<rparr>"
  let ?c = "c\<lparr>ic_handle := ?g, ic_read := ic_read c @ [(ic_want c, e)]\<rparr>"
  have "io_step ReadDelivered c = Some ?c" using None e by (simp add: scheduled_def handle_read_cancel_def)
  moreover have "reading_ok (ic_want c) None ?g" "read_event_ok (ic_want c) e" using k(1) None e by (auto simp: reading_ok_def)
  moreover have "writing_ok (ic_write_event c) ?g" using k(2) writing_ok_cong [of ?g "ic_handle c"] by simp
  ultimately show ?thesis using k(3-5) None e by (intro exI [of _ ?c] conjI io_okI) (auto simp: scheduled_def event_bytes_def)
qed

lemma user_write_ok:
  assumes "io_ok c" "io_enabled (UserWrite b r) c"
  shows "\<exists>c'. io_step (UserWrite b r) c = Some c' \<and> io_ok c'"
proof -
  note k = io_okD [OF assms(1)]
  let ?h = "(ic_handle c)\<lparr>ih_write_buffer := b, ih_write_offset := -1, ih_write_callback := True\<rparr>"
  have en: "ic_write_event c = None" "ih_write_action (ic_handle c) = None" "\<not> ih_write_callback (ic_handle c)"
      "ih_write_buffer (ic_handle c) = []" "b \<noteq> []" "write_result_ok b r"
    using assms(2) k(2) by (auto simp: writing_ok_def)
  obtain e h where h: "handle_write_do r ?h = Some (e, h)" "ih_write_action h = None" "b = write_taken b r @ ih_write_buffer h"
    "ih_read_action h = ih_read_action (ic_handle c)" "ih_read_callback h = ih_read_callback (ic_handle c)"
    "ih_read_buffer h = ih_read_buffer (ic_handle c)" "ih_read_amount h = ih_read_amount (ic_handle c)" "ih_read_offset h = ih_read_offset (ic_handle c)"
    "case e of None \<Rightarrow> ih_write_callback h \<and> ih_write_buffer h \<noteq> [] \<and> ih_write_offset h = -1
     | Some e \<Rightarrow> \<not> ih_write_callback h \<and> (ev_type e = Done \<and> ih_write_buffer h = [] \<or> ev_type e = Error)"
    using write_do_ok [of ?h r] en by auto
  let ?g = "if e = None then h\<lparr>ih_write_action := Some Polling\<rparr> else h"
  have step: "io_step (UserWrite b r) c = Some (c\<lparr>ic_handle := ?g, ic_write_event := e, ic_sent := ic_sent c @ b,
      ic_to_os := ic_to_os c @ write_taken b r\<rparr>)" (is "_ = Some ?c")
    using h(1,2,9) en by (cases e) (auto simp: handle_write_def handle_write_schedule_def)
  have "writing_ok e ?g" using h(2,9) by (cases e) (auto simp: writing_ok_def)
  moreover have "reading_ok (ic_want c) (ic_read_event c) ?g" using k(1) reading_ok_cong [of ?g "ic_handle c"] h(4-8) by simp
  moreover have "ic_sent c @ b = (ic_to_os c @ write_taken b r) @ ih_write_buffer ?g" using k(5) en(4) h(3) by simp
  ultimately have "io_ok ?c" using k(3,4) h(4,6) by (intro io_okI) simp_all
  then show ?thesis using step by blast
qed

lemma writable_ok:
  assumes "io_ok c" "io_enabled (Writable e r) c"
  shows "\<exists>c'. io_step (Writable e r) c = Some c' \<and> io_ok c'"
proof -
  note k = io_okD [OF assms(1)]
  let ?h = "(ic_handle c)\<lparr>ih_write_action := None\<rparr>"
  have en: "ih_write_action (ic_handle c) = Some Polling" "ev_type e = Done \<or> ev_type e = Error" "write_result_ok (ih_write_buffer (ic_handle c)) r"
      "ic_write_event c = None" "ih_write_callback (ic_handle c)" "ih_write_buffer (ic_handle c) \<noteq> []" "ih_write_offset (ic_handle c) = -1"
    using assms(2) k(2) by (auto simp: writing_ok_def split: option.splits)
  show ?thesis
  proof (cases "ev_type e = Error")
    case True
    let ?g = "?h\<lparr>ih_write_action := Some (Scheduled e), ih_write_callback := False\<rparr>"
    have "io_step (Writable e r) c = Some (c\<lparr>ic_handle := ?g, ic_to_os := ic_to_os c\<rparr>)" (is "_ = Some ?c")
      using True en by (simp add: handle_write_callback_def)
    moreover have "writing_ok None ?g" using True by (simp add: writing_ok_def)
    moreover have "reading_ok (ic_want c) (ic_read_event c) ?g" using k(1) reading_ok_cong [of ?g "ic_handle c"] by simp
    ultimately show ?thesis using k(3-5) en by (intro exI [of _ ?c] conjI io_okI) simp_all
  next
    case False
    obtain v h where h: "handle_write_do r ?h = Some (v, h)" "ih_write_action h = None" "ih_write_buffer (ic_handle c) = write_taken (ih_write_buffer (ic_handle c)) r @ ih_write_buffer h"
      "ih_read_action h = ih_read_action (ic_handle c)" "ih_read_callback h = ih_read_callback (ic_handle c)"
      "ih_read_buffer h = ih_read_buffer (ic_handle c)" "ih_read_amount h = ih_read_amount (ic_handle c)" "ih_read_offset h = ih_read_offset (ic_handle c)"
      "case v of None \<Rightarrow> ih_write_callback h \<and> ih_write_buffer h \<noteq> [] \<and> ih_write_offset h = -1
       | Some e \<Rightarrow> \<not> ih_write_callback h \<and> (ev_type e = Done \<and> ih_write_buffer h = [] \<or> ev_type e = Error)"
      using write_do_ok [of ?h r] en by auto
    let ?g = "h\<lparr>ih_write_action := (case v of Some v \<Rightarrow> Some (Scheduled v) | None \<Rightarrow> Some Polling)\<rparr>"
    have "handle_write_callback e r (ic_handle c) = Some ?g"
      using h(1,2) False en(1,2) by (cases v) (auto simp: handle_write_callback_def handle_write_schedule_def)
    then have step: "io_step (Writable e r) c = Some (c\<lparr>ic_handle := ?g,
        ic_to_os := ic_to_os c @ write_taken (ih_write_buffer (ic_handle c)) r\<rparr>)" (is "_ = Some ?c")
      using False by simp
    have "writing_ok None ?g" using h(9) by (cases v) (auto simp: writing_ok_def)
    moreover have "reading_ok (ic_want c) (ic_read_event c) ?g" using k(1) reading_ok_cong [of ?g "ic_handle c"] h(4-8) by simp
    moreover have "ic_sent c = (ic_to_os c @ write_taken (ih_write_buffer (ic_handle c)) r) @ ih_write_buffer ?g" using k(5) h(3) by simp
    ultimately have "io_ok ?c" using k(3,4) h(4,6) en(4) by (intro io_okI) simp_all
    then show ?thesis using step by blast
  qed
qed

lemma write_delivered_ok:
  assumes "io_ok c" "io_enabled WriteDelivered c"
  shows "\<exists>c'. io_step WriteDelivered c = Some c' \<and> io_ok c'"
proof (cases "ic_write_event c")
  case (Some e)
  note k = io_okD [OF assms(1)]
  let ?c = "c\<lparr>ic_write_event := None, ic_written := ic_written c @ [e]\<rparr>"
  have "writing_ok None (ic_handle c)" using k(2) Some by (auto simp: writing_ok_def)
  then have "io_ok ?c" using k by (intro io_okI) simp_all
  then show ?thesis using Some by simp
next
  case None
  note k = io_okD [OF assms(1)]
  obtain e where e: "ih_write_action (ic_handle c) = Some (Scheduled e)" using assms(2) None by (auto simp: scheduled_def split: option.splits io_action.splits)
  let ?g = "(ic_handle c)\<lparr>ih_write_action := None, ih_write_callback := False\<rparr>"
  let ?c = "c\<lparr>ic_handle := ?g, ic_written := ic_written c @ [e]\<rparr>"
  have "io_step WriteDelivered c = Some ?c" using None e by (simp add: scheduled_def handle_write_cancel_def)
  moreover have "writing_ok None ?g" by (simp add: writing_ok_def)
  moreover have "reading_ok (ic_want c) (ic_read_event c) ?g" using k(1) reading_ok_cong [of ?g "ic_handle c"] by simp
  ultimately show ?thesis using k(3-5) None by (intro exI [of _ ?c] conjI io_okI) simp_all
qed

lemma io_run_ok:
  assumes "io_ok c" "io_runnable xs c"
  shows "\<exists>c'. io_run xs c = Some c' \<and> io_ok c'"
  using assms
proof (induction xs arbitrary: c)
  case (Cons x xs)
  then have "io_enabled x c" by simp
  then have "\<exists>c'. io_step x c = Some c' \<and> io_ok c'" using Cons.prems(1)
    by (cases x) (blast intro: user_read_ok readable_ok read_delivered_ok user_write_ok writable_ok write_delivered_ok)+
  then obtain c' where "io_step x c = Some c'" "io_ok c'" by blast
  then show ?case using Cons by simp
qed simp

text \<open>C37: Reads and writes on a stream neither lose nor reorder data, however the calls, the readiness of
  the descriptor and short reads and writes interleave.  No assertion fails; the data of the
  Events delivered or scheduled, followed by the buffer, are exactly what the system has
  returned; a read of \<open>n\<close> bytes reports success with exactly \<open>n\<close>, a read of 0 with at least one, and
  the end of the stream or an error with fewer.  What was handed to \<^verbatim>\<open>write\<close> is what the system has
  taken followed by what is still buffered, and success is only reported when nothing is.\<close>

theorem io_handle_is_faithful:
  assumes "io_runnable xs (io_client_new fd owner)"
  shows "\<exists>c. io_run xs (io_client_new fd owner) = Some c \<and>
    ic_from_os c = concat (map (ev_buffer \<circ> snd) (ic_read c)) @
      event_bytes (scheduled (ic_read_event c) (ih_read_action (ic_handle c))) @ ih_read_buffer (ic_handle c) \<and>
    (\<forall>(want, e)\<in>set (ic_read c). read_event_ok want e) \<and>
    ic_sent c = ic_to_os c @ ih_write_buffer (ic_handle c) \<and>
    (\<forall>e. scheduled (ic_write_event c) (ih_write_action (ic_handle c)) = Some e \<and> ev_type e = Done \<longrightarrow> ic_sent c = ic_to_os c)"
proof -
  have "io_ok (io_client_new fd owner)"
    by (simp add: io_ok_def io_client_new_def io_handle_new_def reading_ok_def writing_ok_def scheduled_def event_bytes_def)
  from io_run_ok [OF this assms] obtain c where c: "io_run xs (io_client_new fd owner) = Some c" "io_ok c" by blast
  note k = io_okD [OF c(2)]
  have "ih_write_buffer (ic_handle c) = []" if "scheduled (ic_write_event c) (ih_write_action (ic_handle c)) = Some e" "ev_type e = Done" for e
    using that k(2) by (auto simp: scheduled_def writing_ok_def split: option.splits io_action.splits)
  then show ?thesis using c(1) k(3-5) by auto
qed

theorem io_handle_is_faithful_witness:
  "\<exists>c. io_run [UserRead 2 (ReadData [1]), Readable (event_of Done) (ReadData [2, 3]), ReadDelivered, UserRead 0 ReadAgain, ReadDelivered,
      UserWrite [7, 8] (WriteCount 1), Writable (event_of Done) (WriteCount 1), WriteDelivered] (io_client_new 3 0) = Some c \<and>
    map (ev_buffer \<circ> snd) (ic_read c) = [[1, 2], [3]] \<and> ic_from_os c = [1, 2, 3] \<and> ic_sent c = ic_to_os c \<and> ic_written c = [event_of Done] \<and>
    (\<forall>(want, e)\<in>set (ic_read c). read_event_ok want e)"
proof -
  let ?xs = "[UserRead 2 (ReadData [1]), Readable (event_of Done) (ReadData [2, 3]), ReadDelivered, UserRead 0 ReadAgain, ReadDelivered,
      UserWrite [7, 8] (WriteCount 1), Writable (event_of Done) (WriteCount 1), WriteDelivered]"
  have "io_runnable ?xs (io_client_new 3 0)" by code_simp
  from io_handle_is_faithful [OF this] obtain c where c: "io_run ?xs (io_client_new 3 0) = Some c" "\<forall>(want, e)\<in>set (ic_read c). read_event_ok want e" by blast
  have "map_option (\<lambda>c. (map (ev_buffer \<circ> snd) (ic_read c), ic_from_os c, ic_sent c = ic_to_os c, ic_written c)) (io_run ?xs (io_client_new 3 0)) =
      Some ([[1, 2], [3]], [1, 2, 3], True, [event_of Done])" by code_simp
  then show ?thesis using c by auto
qed

text \<open>C38: A write that fails, or that is cancelled before it is complete, leaves its data in the handle, and
  the next write on the same descriptor fails an assertion.\<close>

theorem write_after_failure_stops:
  assumes "ih_write_action h = Some Polling" "ih_write_buffer h \<noteq> []" "ih_write_callback h"
  shows "(\<exists>h1. handle_write_callback (event_of Done) (WriteError err) h = Some h1 \<and>
      (\<exists>h2. handle_write_cancel h1 = Some h2 \<and> handle_write offset b r h2 = None)) \<and>
    (\<exists>h3. handle_write_cancel h = Some h3 \<and> handle_write offset b r h3 = None)"
  using assms by (simp add: handle_write_callback_def handle_write_do_def handle_write_cancel_def handle_write_def)

theorem write_after_failure_stops_witness:
  "\<exists>e h h3. handle_write (-1) [1, 2] (WriteCount 1) (io_handle_new 3 0) = Some (e, h) \<and>
    handle_write_cancel h = Some h3 \<and> handle_write (-1) [3] (WriteCount 1) h3 = None"
proof -
  let ?h = "(io_handle_new 3 0)\<lparr>ih_write_buffer := [2], ih_write_callback := True, ih_write_action := Some Polling\<rparr>"
  have "handle_write (-1) [1, 2] (WriteCount 1) (io_handle_new 3 0) = Some (None, ?h)"
    by (simp add: handle_write_def handle_write_do_def handle_write_schedule_def io_handle_new_def buf_simps)
  moreover from write_after_failure_stops [of ?h 5 "-1" "[3]" "WriteCount 1"]
  have "\<exists>h3. handle_write_cancel ?h = Some h3 \<and> handle_write (-1) [3] (WriteCount 1) h3 = None" by simp
  ultimately show ?thesis by blast
qed

end
