(* ===== verification/Spec2Isabelle.thy ===== *)
theory Spec2Isabelle
  imports Buffer_Session XCodec XCodec_Transfer Socks SSH_Transport HTTP_Server Pipe_Link IO_Handle
begin

text \<open>
  \<^bold>\<open>WANProxy\<close> is a proxy that removes repeated data from TCP connections.  This development
  models the data path from the descriptor to the wire, and the protocols spoken at both ends
  of it.

  \<^bold>\<open>The parts of the program.\<close>  An IOSystem::Handle (src/io) reads and writes a descriptor.  A
  Splice moves what was read through a Pipe to another descriptor, a SplicePair does so in both
  directions, and a PipeLink makes one Pipe of two (src/io/pipe).  The Pipe of a proxy is one
  half of an XCodecPipePair (src/xcodec): it frames the output of an XCodecEncoder, and its
  other half feeds an XCodecDecoder, asks the peer for segments it does not know and learns
  them.  Encoder and decoder keep a dictionary of 2048-byte segments (XCodecCache) and a window
  of the last ones named.  All of them pass Buffers (src/common/buffer.h), lists of
  reference-counted segments that are copied when they are written.  Clients reach the proxy
  directly or through SOCKS (src/programs/wanproxy/proxy_socks_connection.cc); SSH (src/ssh) can
  carry the connection, and an HTTP server pipe (src/http) answers requests.

  \<^bold>\<open>How the sources are read.\<close>  A class is a record, an enum a datatype, a method a function that
  returns the changed record.  A failed \<^verbatim>\<open>ASSERT\<close> or \<^verbatim>\<open>HALT\<close> and the use of freed memory
  is the value \<open>None\<close>; a theorem that says that a call is \<open>Some\<close> of something says that
  none of these happens.  A pointer that may be \<^verbatim>\<open>NULL\<close> is an option of its own.  Integers are
  words where they can wrap.  A callback is the Event it will be called with; the order in which
  pending callbacks run is an argument of the theorems about sequences of events.  System
  calls, OpenSSL and the classes behind a virtual function that come from elsewhere are
  arguments.

  \<^bold>\<open>The theories.\<close>

  \<^item> \<open>Prelude\<close>, \<open>Simulation\<close>: types, the option monad of failed assertions, lemmas on lists and
    words; the locale \<open>simulation\<close>, the contract between a component and its specification.
  \<^item> \<open>Endian\<close> (src/common/endian.h): byte orders; the locale \<open>field_codec\<close> of fixed-width fields,
    interpreted for 16, 32 and 64 bits in network order.
  \<^item> \<open>Buffer_Spec\<close>, \<open>Buffer_Heap\<close>, \<open>Buffer\<close>, \<open>Buffer_Refine\<close>, \<open>Buffer_Ops\<close>, \<open>Buffer_Session\<close>
    (src/common/buffer.h, refcount.h): the operations on contents, and the code on a store of
    segments with reference counts, copy-on-write and cached lengths.  Every operation on the
    store does what the one on contents does; a program over any number of Buffers that share
    segments fails no assertion, agrees with the program over byte strings and leaks nothing.
    What the code does with the iterator of \<^verbatim>\<open>cut\<close> after an insertion is not defined by C++: it is a
    parameter, and \<open>cut_removes_range\<close> says when the range is cut; that \<^verbatim>\<open>trim\<close> clips backwards is a
    theorem.  The later theories use the operations on contents.
  \<^item> \<open>XCodec_Hash\<close>, \<open>XCodec_Window\<close>, \<open>XCodec_Cache\<close> (xcodec_hash.h, xcodec_window.h,
    xcodec_cache.h, tack.cc): rolling is hashing and none of the four 32-bit sums wraps; the window stays
    well formed; the caches satisfy the locale \<open>segment_store\<close>.
  \<^item> \<open>XCodec_Stream\<close>, \<open>XCodec_Encoder\<close>, \<open>XCodec_Decoder\<close>, \<open>XCodec\<close> and this theory
    (xcodec_encoder.cc, xcodec_decoder.cc): the grammar of the encoded stream; what the encoder
    writes is a stream for its input, the decoder computes what a token-by-token reader does,
    and a session of both is the identity, however the bytes are cut.
  \<^item> \<open>Pipe_Producer\<close>, \<open>XCodec_Pipe\<close>, \<open>XCodec_Resume\<close>, \<open>XCodec_Peer\<close>, \<open>XCodec_Transfer\<close>
    (pipe_producer.cc, xcodec_pipe_pair.cc): the producer of a pipe keeps all data in order; two
    connected XCodecPipePairs deliver exactly the data they are given, with dictionaries that
    agree, and also when the receiver has to ask for every segment.  Two defects at the end of a
    stream are theorems.
  \<^item> \<open>Splice\<close>, \<open>Pipe_Link\<close>, \<open>IO_Handle\<close> (splice.cc, splice_pair.cc, pipe_splice.cc, pipe_link.cc,
    io_system.cc, io_system_handle.cc): data are neither lost nor reordered in any order of
    callbacks, errors are reported, and the end is reported after the data.  The contract of any
    Pipe, which may transform data, end or fail, is the locale \<open>any_pipe\<close>, interpreted on PipeSink,
    and of two of them \<open>joined_pipes\<close>, on PipeNull and PipeSink; a Pipe that keeps its data satisfies \<open>transparent_pipe\<close>, which
    gives \<open>any_pipe\<close>, and two of them \<open>linked_pipes\<close>; these are interpreted on PipeNull.
  \<^item> \<open>Socks\<close> (proxy_socks_connection.cc): the only request that makes a handler fail is one over SOCKS5
    for the address 0.0.0.0; a request for another address or a name connects to it.
  \<^item> \<open>SSH_Protocol\<close>, \<open>SSH_Negotiation\<close>, \<open>SSH_Transport\<close> (ssh_protocol.cc, ssh_session.cc,
    ssh_algorithm_negotiation.cc, ssh_transport_pipe.cc, with the ciphers and MACs it calls): round
    trips of the data types, client and server choose the same algorithms, derived keys have the
    size asked for, and packets sent are received unchanged.
  \<^item> \<open>HTTP_Protocol\<close>, \<open>HTTP_Server\<close> (http_protocol.cc, http_server_pipe.cc): URIs and messages; a
    request is parsed alike in whatever pieces it arrives, and only a header that begins with
    its colon stops the server.

  \<^bold>\<open>Loops and bounds.\<close>  No definition takes fuel.  Loops are structural recursion or have a measure,
  mostly the length of the input that is left.  Two loops of the sources need not end on every
  argument: \<^verbatim>\<open>Buffer::split\<close> and the key derivation are partial functions into \<open>option\<close>, and
  \<open>split_returns_pieces\<close> and \<open>generate_key_terminates\<close> show that they return.  \<open>receive_packets\<close>
  takes the number of calls to make; one for each packet is enough.  Lengths are natural numbers: a
  Buffer is assumed to hold less than \<open>2 ^ 64\<close> bytes, and the Buffer given to one call of \<^verbatim>\<open>encode\<close>,
  which counts in \<^verbatim>\<open>unsigned\<close>, less than \<open>2 ^ 32\<close>; where a length is sent in fewer bits the truncation
  is in the definition.  A Buffer is never passed to one of its own methods.

  \<^bold>\<open>Not modelled.\<close>  The event loop, the polling of descriptors, threads, timers, logging and time
  (src/event, src/common): what runs when is left open in the theorems.  Sockets, the resolver
  and the TCP and UDP classes over them (src/io/socket, src/io/net), packet capture and the
  user-space TCP/IP stack (src/network): system calls and foreign code.  The dispatch of SSH
  messages, the key exchange, host keys and compression, hashes and random numbers
  (src/ssh, src/crypto): calls of OpenSSL, whose results are parameters of the session.  The zlib pipes
  (src/zlib), loops around deflate and inflate.  Reading the configuration (src/config), the
  XML parser, which no program uses, the HTTP server that accepts connections, and the main
  programs (src/programs), which build the objects modelled here from the configuration.
  \<^verbatim>\<open>hexdump\<close> and \<^verbatim>\<open>fill_iovec\<close> of Buffer write into memory of the caller.
\<close>

section \<open>The codec: encoding and decoding a session\<close>

text \<open>C3: For an encoder and a decoder that start synchronised (a memory cache on both sides, the
  same dictionary and window), any sequence of \<^verbatim>\<open>XCodecEncoder::encode\<close> calls succeeds without
  a failed assertion, and however the bytes it wrote are cut into chunks on the way,
  \<^verbatim>\<open>XCodecDecoder::decode\<close> returns true on each chunk, needs no hash it does not know, leaves
  no input, and outputs exactly the data that was encoded; both ends are synchronised
  again.\<close>

theorem codec_session_round_trip:
  assumes sync: "synchronised e d" and segs: "\<forall>m\<in>set ms. \<forall>seg\<in>set m. seg \<noteq> []"
  shows "\<exists>bs e'. encode_all [] ms e = Some (bs, e') \<and>
    (\<forall>cs. concat cs = bs \<longrightarrow>
       (\<exists>d'. decode_chunks cs \<lparr>ds_output = [], ds_input = [], ds_unknown = {}, ds_dec = d\<rparr> =
               Some (True, \<lparr>ds_output = concat (map concat ms), ds_input = [], ds_unknown = {}, ds_dec = d'\<rparr>) \<and>
             synchronised e' d'))"
proof -
  have wf: "encoder_wf e" "decoder_wf d" using sync by (simp_all add: synchronised_def)
  obtain bs e' where e: "encode_all [] ms e = Some (bs, e')" "emits e bs (concat (map concat ms)) e'"
    using encode_all_emits [OF wf(1) segs, of "[]"] by auto
  obtain d' where d': "reads (cache_lookup (xe_cache e')) d bs (concat (map concat ms)) d'" "synchronised e' d'"
    by (rule synchronised_reads [OF sync e(2)])
  have "decode_chunks cs \<lparr>ds_output = [], ds_input = [], ds_unknown = {}, ds_dec = d\<rparr> =
      Some (True, \<lparr>ds_output = concat (map concat ms), ds_input = [], ds_unknown = {}, ds_dec = d'\<rparr>)"
    if "concat cs = bs" for cs
    by (rule decode_chunks_eq) (use that wf reads_all [OF d'(1), of "[]"] in \<open>simp_all add: read_tokens_empty\<close>)
  with e(1) d'(2) show ?thesis by blast
qed

theorem codec_session_round_trip_witness:
  "\<exists>bs e'. encode_all [] [[[XCODEC_MAGIC, 1]], [[2], [3]]] (encoder_new (XCodecMemoryCache Map.empty)) = Some (bs, e') \<and>
    (\<forall>cs. concat cs = bs \<longrightarrow>
       (\<exists>d'. decode_chunks cs \<lparr>ds_output = [], ds_input = [], ds_unknown = {},
               ds_dec = decoder_new (XCodecMemoryCache Map.empty)\<rparr> =
               Some (True, \<lparr>ds_output = [XCODEC_MAGIC, 1, 2, 3], ds_input = [], ds_unknown = {}, ds_dec = d'\<rparr>) \<and>
             synchronised e' d'))"
proof -
  have "synchronised (encoder_new (XCodecMemoryCache Map.empty)) (decoder_new (XCodecMemoryCache Map.empty))"
    by (rule synchronised_new) (simp_all add: remembers_def memory_cache_lookup_def hashed_def)
  from codec_session_round_trip [OF this, of "[[[XCODEC_MAGIC, 1]], [[2], [3]]]"] show ?thesis by simp
qed

text \<open>C4: On a well-formed encoder state \<^verbatim>\<open>XCodecEncoder::encode\<close> never fails an assertion, in or
  out of band, and what it appends to the output is an encoded stream that stands for
  exactly the input, in the dictionary the encoder has afterwards; the encoder stays
  well-formed and only adds to the dictionary.\<close>

theorem encode_writes_stream:
  assumes "encoder_wf e" and "\<forall>seg\<in>set input. seg \<noteq> []"
  shows "\<exists>bs e'. encode out input e = Some (out @ bs, e') \<and> encoder_wf e' \<and>
    cache_lookup (xe_cache e) \<subseteq>\<^sub>m cache_lookup (xe_cache e') \<and>
    xstream (cache_lookup (xe_cache e')) (xe_window e) bs (concat input)
      (cache_lookup (xe_cache e')) (xe_window e')"
proof -
  obtain bs e' where "encode out input e = Some (out @ bs, e')" "emits e bs (concat input) e'"
    by (rule encode_ok [OF assms])
  then show ?thesis by (auto simp: emits_def Let_def)
qed

theorem encode_writes_stream_witness:
  "\<exists>bs e'. encode [9] [[XCODEC_MAGIC], [5, 6]] (encoder_new (TackPersistentCache Map.empty [])) = Some ([9] @ bs, e') \<and>
    encoder_wf e' \<and> Map.empty \<subseteq>\<^sub>m cache_lookup (xe_cache e') \<and>
    xstream (cache_lookup (xe_cache e')) window_new bs [XCODEC_MAGIC, 5, 6]
      (cache_lookup (xe_cache e')) (xe_window e')"
proof -
  have "encoder_wf (encoder_new (TackPersistentCache Map.empty []))"
    by (rule encoder_wf_new) (simp_all add: remembers_def memory_cache_lookup_def hashed_def)
  from encode_writes_stream [OF this, of "[[XCODEC_MAGIC], [5, 6]]" "[9]"] show ?thesis by simp blast
qed

text \<open>C5: On a well-formed decoder state \<^verbatim>\<open>XCodecDecoder::decode\<close> never fails an assertion on
  any input at all, terminates, and computes what the token-by-token reference decoder
  computes; the decoder stays well-formed.\<close>

theorem decode_is_reference:
  assumes "decoder_wf d"
  shows "\<exists>ok st. decode out input unknown d = Some (ok, st) \<and> decoder_wf (ds_dec st) \<and>
    (ok, st) = read_tokens \<lparr>ds_output = out, ds_input = input, ds_unknown = unknown, ds_dec = d\<rparr>"
  using decode_eq [OF assms, of out input unknown]
    read_tokens_wf [of "\<lparr>ds_output = out, ds_input = input, ds_unknown = unknown, ds_dec = d\<rparr>"] assms
  by (cases "read_tokens \<lparr>ds_output = out, ds_input = input, ds_unknown = unknown, ds_dec = d\<rparr>") auto

theorem decode_is_reference_witness:
  "\<exists>ok st. decode [] [7, XCODEC_MAGIC, 0x55, 8] {} (decoder_new TackNullCache) = Some (ok, st) \<and>
    decoder_wf (ds_dec st) \<and>
    (ok, st) = read_tokens \<lparr>ds_output = [], ds_input = [7, XCODEC_MAGIC, 0x55, 8], ds_unknown = {},
      ds_dec = decoder_new TackNullCache\<rparr>"
  by (rule decode_is_reference [OF decoder_wf_new]) (simp add: hashed_def)

text \<open>C7: \<^verbatim>\<open>decode\<close> may be fed in chunks: when a call has returned true, decoding what it left of
  the input followed by more bytes gives what one call on the whole input gives, output,
  unknown hashes and decoder state included; when it has returned false the whole input
  is refused with the same output.\<close>

theorem decode_in_chunks:
  assumes "decoder_wf d" and "decode out a unknown d = Some (ok, st)"
  shows "decode out (a @ b) unknown d =
    (if ok then decode (ds_output st) (ds_input st @ b) (ds_unknown st) (ds_dec st)
     else Some (False, st\<lparr>ds_input := ds_input st @ b\<rparr>))"
proof -
  let ?st = "\<lparr>ds_output = out, ds_input = a, ds_unknown = unknown, ds_dec = d\<rparr>"
  have r: "read_tokens ?st = (ok, st)" using assms decode_eq by simp
  then have "decoder_wf (ds_dec st)" using read_tokens_wf [of ?st] assms(1) by simp
  then show ?thesis
    using read_tokens_append [OF r, of b] decode_eq [OF assms(1), of out "a @ b"] by (cases st) (simp add: decode_eq)
qed

theorem decode_in_chunks_witness:
  "decode [] [1, XCODEC_MAGIC] {} (decoder_new TackNullCache) =
      Some (True, \<lparr>ds_output = [1], ds_input = [XCODEC_MAGIC], ds_unknown = {}, ds_dec = decoder_new TackNullCache\<rparr>) \<and>
   decode [] ([1, XCODEC_MAGIC] @ [XCODEC_OP_ESCAPE]) {} (decoder_new TackNullCache) =
     decode [1] ([XCODEC_MAGIC] @ [XCODEC_OP_ESCAPE]) {} (decoder_new TackNullCache)"
proof -
  let ?st = "\<lparr>ds_output = [1], ds_input = [XCODEC_MAGIC], ds_unknown = {}, ds_dec = decoder_new TackNullCache\<rparr>"
  have wf: "decoder_wf (decoder_new TackNullCache)" by (rule decoder_wf_new) (simp add: hashed_def)
  have d: "decode [] [1, XCODEC_MAGIC] {} (decoder_new TackNullCache) = Some (True, ?st)"
    by (simp add: decode_eq [OF wf] read_tokens.simps token_step_def next_token_def XCODEC_MAGIC_def)
  with decode_in_chunks [OF wf d, of "[XCODEC_OP_ESCAPE]"] show ?thesis by simp
qed

text \<open>C8: A decoder whose dictionary is part of the encoder's (\<open>U\<close>) reads an encoded stream
  without error: \<^verbatim>\<open>decode\<close> returns true having output a prefix of the data, and either it
  has read everything, or the only reason it stopped is a REF whose hash it does not
  know, the encoder's dictionary has and it has put into the set of unknown hashes; the
  rest of the stream stands for the rest of the data.\<close>

theorem decode_reads_or_asks:
  assumes "xstream U (xd_window d) bs data U w" and "follows U d"
  shows "\<exists>st data2. decode out bs {} d = Some (True, st) \<and> follows U (ds_dec st) \<and>
    out @ data = ds_output st @ data2 \<and> xstream U (xd_window (ds_dec st)) (ds_input st) data2 U w \<and>
    (ds_unknown st = {} \<and> ds_input st = [] \<and> data2 = [] \<or>
     (\<exists>h. ds_unknown st = {h} \<and> waits_for (ds_dec st) h (ds_input st) \<and> U h \<noteq> None))"
proof -
  obtain bs1 bs2 data1 data2 d1 where p: "bs = bs1 @ bs2" "data = data1 @ data2" "reads U d bs1 data1 d1"
      "xstream U (xd_window d1) bs2 data2 U w" "bs2 = [] \<or> (\<exists>h. waits_for d1 h bs2 \<and> U h \<noteq> None)"
    using read_stream_or_wait [OF assms refl map_le_refl] unfolding reads_or_waits_def by blast
  have wf: "decoder_wf d" and f: "follows U d1" using assms(2) p(3) by (auto simp: follows_def reads_def)
  let ?st = "\<lparr>ds_output = out @ data1, ds_input = bs2, ds_unknown = {}, ds_dec = d1\<rparr>"
  have run: "decode out bs {} d = Some (read_tokens ?st)"
    using decode_eq [OF wf] readsD [OF p(3), of "\<lparr>ds_output = out, ds_input = bs, ds_unknown = {}, ds_dec = d\<rparr>" bs2] p(1)
    by simp
  show ?thesis
  proof (cases "bs2 = []")
    case True
    then have "data2 = []" using p(4) by (auto elim: xstream_NilE)
    then show ?thesis using True run f p(2,4) read_tokens_empty [of ?st] by auto
  next
    case False
    then obtain h where h: "waits_for d1 h bs2" "U h \<noteq> None" using p(5) by auto
    then have "read_tokens ?st = (True, ?st\<lparr>ds_unknown := {h}\<rparr>)"
      using waits_for_read [of ?st h bs2 "[]"] by simp
    then show ?thesis using run f p(2,4) h by auto
  qed
qed

theorem decode_reads_or_asks_witness:
  "\<exists>st data2. decode [] (1 # XCODEC_MAGIC # XCODEC_OP_REF # be64 5) {} (decoder_new (XCodecMemoryCache Map.empty)) =
      Some (True, st) \<and> follows [5 \<mapsto> [7, 8]] (ds_dec st) \<and> [] @ [1, 7, 8] = ds_output st @ data2 \<and>
    xstream [5 \<mapsto> [7, 8]] (xd_window (ds_dec st)) (ds_input st) data2 [5 \<mapsto> [7, 8]] (declared 5 [7, 8] window_new) \<and>
    (ds_unknown st = {} \<and> ds_input st = [] \<and> data2 = [] \<or>
     (\<exists>h. ds_unknown st = {h} \<and> waits_for (ds_dec st) h (ds_input st) \<and> [5 \<mapsto> [7, 8 :: byte]] h \<noteq> None))"
proof -
  have "follows [5 \<mapsto> [7, 8]] (decoder_new (XCodecMemoryCache Map.empty))"
    by (simp add: follows_def decoder_wf_def remembers_def memory_cache_lookup_def hashed_def map_le_def dom_def)
  moreover have "xstream [5 \<mapsto> [7, 8]] (xd_window (decoder_new (XCodecMemoryCache Map.empty)))
      (1 # XCODEC_MAGIC # XCODEC_OP_REF # be64 5) (1 # [7, 8]) [5 \<mapsto> [7, 8]] (declared 5 [7, 8] window_new)"
    by (simp only: decoder_new_fields, intro xs_literal xstream_ref1) (simp_all add: XCODEC_MAGIC_def)
  ultimately show ?thesis using decode_reads_or_asks by blast
qed

end
